(* ===== verification/Prelude.thy ===== *)
theory Prelude
  imports Main "HOL-Library.Word" "HOL-Library.List_Lexorder" "HOL-Library.AList"
begin

text \<open>
  Shared vocabulary of the development: the machine integers and byte strings of the Rust
  sources, the slices and prefix tests they take, big-endian and little-endian integer
  encodings, saturating arithmetic and decimal printing. Every component theory imports
  this one.

  \<^item> \<open>u8\<close>, \<open>u32\<close>, \<open>u64\<close> are words whose \<open>+\<close>, \<open>-\<close>, \<open>*\<close> wrap, as the arithmetic of the
    release build does (\<^verbatim>\<open>[profile.release]\<close> of Cargo.toml leaves overflow checks off);
    \<open>i64\<close> is the same word read by \<open>sint\<close>.
  \<^item> \<open>usize\<close> values (lengths and offsets of vectors in memory) are \<open>nat\<close>.
  \<^item> \<open>Vec<u8>\<close>, \<open>&[u8]\<close> and the UTF-8 bytes of a \<open>String\<close> are \<open>bytes\<close>, compared
    lexicographically by the order of \<open>List_Lexorder\<close> as Rust compares slices.
\<close>

section \<open>Types\<close>

type_synonym u8 = "8 word"
type_synonym u32 = "32 word"
type_synonym u64 = "64 word"
type_synonym i64 = "64 word"
type_synonym bytes = "u8 list"

named_theorems byte_simps "encoding and decoding of integers as bytes"
named_theorems wordnat "word comparisons and arithmetic read as natural numbers"

section \<open>Slices and prefixes\<close>

text \<open>\<open>&xs[a..b]\<close>: \<open>None\<close> is the panic of an out-of-range or inverted slice.\<close>

definition subslice :: "'a list \<Rightarrow> nat \<Rightarrow> nat \<Rightarrow> 'a list option" where
  "subslice xs a b = (if a \<le> b \<and> b \<le> length xs then Some (take (b - a) (drop a xs)) else None)"

text \<open>\<open>key.starts_with(prefix)\<close>.\<close>

definition starts_with :: "'a list \<Rightarrow> 'a list \<Rightarrow> bool" where
  "starts_with k p \<longleftrightarrow> take (length p) k = p"

text \<open>\<open>slice::chunks(n)\<close> for a positive chunk size.\<close>

function chunks :: "nat \<Rightarrow> 'a list \<Rightarrow> 'a list list" where
  "chunks n xs = (if n = 0 \<or> xs = [] then [] else take n xs # chunks n (drop n xs))"
  by pat_completeness auto
termination
  by (relation "measure (\<lambda>(n, xs). length xs)") (auto simp: less_eq_Suc_le neq_Nil_conv)

declare chunks.simps [simp del]

text \<open>\<open>a.saturating_sub(b)\<close> on \<open>u64\<close>.\<close>

definition saturating_sub :: "u64 \<Rightarrow> u64 \<Rightarrow> u64" where
  "saturating_sub a b = (if b \<le> a then a - b else 0)"

section \<open>Integers as bytes\<close>

text \<open>
  \<open>be_digits n k\<close> is the \<open>n\<close>-byte big-endian form of \<open>k\<close>; \<open>of_be\<close> reads such bytes back.
  The \<open>to_be_bytes\<close>/\<open>to_le_bytes\<close> of the fixed-width integers are instances.
\<close>

fun be_digits :: "nat \<Rightarrow> nat \<Rightarrow> bytes" where
  "be_digits 0 k = []"
| "be_digits (Suc n) k = be_digits n (k div 256) @ [of_nat (k mod 256)]"

definition of_be :: "bytes \<Rightarrow> nat" where
  "of_be bs = foldl (\<lambda>a b. a * 256 + unat b) 0 bs"

definition u64_to_be :: "u64 \<Rightarrow> bytes" where
  "u64_to_be w = be_digits 8 (unat w)"

definition u64_from_be :: "bytes \<Rightarrow> u64" where
  "u64_from_be bs = of_nat (of_be bs)"

definition u32_to_be :: "u32 \<Rightarrow> bytes" where
  "u32_to_be w = be_digits 4 (unat w)"

definition u32_from_be :: "bytes \<Rightarrow> u32" where
  "u32_from_be bs = of_nat (of_be bs)"

definition u64_to_le :: "u64 \<Rightarrow> bytes" where
  "u64_to_le w = rev (u64_to_be w)"

definition u64_from_le :: "bytes \<Rightarrow> u64" where
  "u64_from_le bs = u64_from_be (rev bs)"

definition u32_to_le :: "u32 \<Rightarrow> bytes" where
  "u32_to_le w = rev (u32_to_be w)"

definition u32_from_le :: "bytes \<Rightarrow> u32" where
  "u32_from_le bs = u32_from_be (rev bs)"

text \<open>An ASCII literal as bytes (\<open>b"..."\<close>), and \<open>format!("{}", n)\<close> on integers.\<close>

definition ascii :: "string \<Rightarrow> bytes" where
  "ascii s = map of_char s"

fun dec_nat :: "nat \<Rightarrow> bytes" where
  "dec_nat n = (if n < 10 then [of_nat (48 + n)] else dec_nat (n div 10) @ [of_nat (48 + n mod 10)])"

declare dec_nat.simps [simp del]

definition dec_int :: "int \<Rightarrow> bytes" where
  "dec_int i = (if i < 0 then 45 # dec_nat (nat (- i)) else dec_nat (nat i))"

section \<open>Slices, prefixes, chunks: lemmas\<close>

lemma starts_with_append [simp]: "starts_with (p @ s) p"
  by (simp add: starts_with_def)

lemma starts_with_refl [simp]: "starts_with p p"
  by (simp add: starts_with_def)

lemma starts_with_iff: "starts_with k p \<longleftrightarrow> (\<exists>s. k = p @ s)"
proof
  assume "starts_with k p"
  then have "k = p @ drop (length p) k"
    unfolding starts_with_def by (metis append_take_drop_id)
  then show "\<exists>s. k = p @ s" by blast
qed (auto simp: starts_with_def)

lemma starts_with_length: "starts_with k p \<Longrightarrow> length p \<le> length k"
  by (auto simp: starts_with_iff)

lemma starts_with_same_length:
  "starts_with k p \<Longrightarrow> starts_with k q \<Longrightarrow> length p = length q \<Longrightarrow> p = q"
  by (auto simp: starts_with_def)

lemma subslice_Some_iff:
  "subslice xs a b = Some ys \<longleftrightarrow> a \<le> b \<and> b \<le> length xs \<and> ys = take (b - a) (drop a xs)"
  by (auto simp: subslice_def)

lemma subslice_append_middle: "subslice (xs @ ys @ zs) (length xs) (length xs + length ys) = Some ys"
  by (simp add: subslice_def)

lemma subslice_to_end: "a \<le> length xs \<Longrightarrow> subslice xs a (length xs) = Some (drop a xs)"
  by (simp add: subslice_def)

lemma chunks_Nil [simp]: "chunks n [] = []"
  by (simp add: chunks.simps)

lemma concat_chunks: "0 < n \<Longrightarrow> concat (chunks n xs) = xs"
proof (induction n xs rule: chunks.induct)
  case (1 n xs)
  then show ?case
    by (cases "xs = []") (auto simp: chunks.simps [of n xs])
qed

lemma length_chunks: "0 < n \<Longrightarrow> length (chunks n xs) = (length xs + n - 1) div n"
proof (induction n xs rule: chunks.induct)
  case (1 n xs)
  show ?case
  proof (cases "xs = []")
    case True
    with "1.prems" show ?thesis by simp
  next
    case False
    with "1.prems" have step: "length (chunks n xs) = Suc (length (chunks n (drop n xs)))"
      by (simp add: chunks.simps [of n xs])
    have ih: "length (chunks n (drop n xs)) = (length xs - n + n - 1) div n"
      using "1.IH" "1.prems" False by simp
    have e: "length xs + n - 1 = (length xs - 1) + n"
      using False by (cases xs) auto
    have "((length xs - 1) + n) div n = Suc ((length xs - 1) div n)"
      using "1.prems" div_add_self2 [of n "length xs - 1"] by linarith
    then have r: "(length xs + n - 1) div n = Suc ((length xs - 1) div n)"
      by (simp only: e)
    have "(length xs - n + n - 1) div n = (length xs - 1) div n"
    proof (cases "n \<le> length xs")
      case True
      then show ?thesis by simp
    next
      case gt: False
      then have "length xs - n + n - 1 < n" and "length xs - 1 < n" using "1.prems" by auto
      then show ?thesis by (simp only: div_less)
    qed
    then show ?thesis by (simp only: step ih r)
  qed
qed

lemma nth_chunks:
  "i < length (chunks n xs) \<Longrightarrow> chunks n xs ! i = take n (drop (i * n) xs)"
proof (induction n xs arbitrary: i rule: chunks.induct)
  case (1 n xs)
  show ?case
  proof (cases "n = 0 \<or> xs = []")
    case True
    with "1.prems" show ?thesis by (auto simp: chunks.simps [of n xs])
  next
    case False
    then have eq: "chunks n xs = take n xs # chunks n (drop n xs)"
      by (simp add: chunks.simps [of n xs])
    show ?thesis
    proof (cases i)
      case 0
      with eq show ?thesis by simp
    next
      case (Suc j)
      with "1.prems" eq have "j < length (chunks n (drop n xs))" by simp
      from "1.IH" [OF False this] show ?thesis by (simp add: eq Suc add.commute)
    qed
  qed
qed

section \<open>Words as natural numbers\<close>

lemma u64_less_nat [wordnat]: "(a::u64) < b \<longleftrightarrow> unat a < unat b"
  by (rule word_less_nat_alt)

lemma u64_le_nat [wordnat]: "(a::u64) \<le> b \<longleftrightarrow> unat a \<le> unat b"
  by (rule word_le_nat_alt)

lemma u64_eq_nat: "(a::u64) = b \<longleftrightarrow> unat a = unat b"
  by (rule word_unat_eq_iff)

lemma sint_bounds_i64: "- 9223372036854775808 \<le> sint (w :: i64)" "sint (w :: i64) < 9223372036854775808"
  using sint_greater_eq [of w] sint_less [of w] by simp_all

lemma i64_eq_sint: "(a::i64) = b \<longleftrightarrow> sint a = sint b"
  by (metis signed_word_eqI)

lemma unat_u64_bound: "unat (a::u64) < 18446744073709551616"
  using unsigned_less [of a, where ?'a = nat] by simp

lemma unat_u32_bound: "unat (a::u32) < 4294967296"
  using unsigned_less [of a, where ?'a = nat] by simp

lemma unat_u8_bound: "unat (a::u8) < 256"
  using unsigned_less [of a, where ?'a = nat] by simp

lemma unat_u64_of_nat: "n < 18446744073709551616 \<Longrightarrow> unat (of_nat n :: u64) = n"
  by (simp add: unat_of_nat)

lemma unat_u64_of_nat_mod [wordnat]: "unat (of_nat n :: u64) = n mod 18446744073709551616"
  by (simp add: unat_of_nat)

lemma unat_u64_add: "unat a + unat b < 18446744073709551616 \<Longrightarrow> unat ((a::u64) + b) = unat a + unat b"
  by (simp add: unat_word_ariths)

lemma unat_u64_sub: "(b::u64) \<le> a \<Longrightarrow> unat (a - b) = unat a - unat b"
  by (rule unat_sub)

lemma unat_u64_sub_wrap: "unat a < unat (b::u64) \<Longrightarrow> unat (a - b) = 18446744073709551616 + unat a - unat b"
  using unat_u64_bound [of a] unat_u64_bound [of b] by (simp add: unat_sub_if_size word_le_nat_alt word_size)

lemma unat_u64_Suc: "unat a + 1 < 18446744073709551616 \<Longrightarrow> unat ((a::u64) + 1) = unat a + 1"
  by (simp add: unat_word_ariths)

lemma unat_saturating_sub [wordnat]: "unat (saturating_sub a b) = unat a - unat b"
  by (auto simp: saturating_sub_def unat_u64_sub u64_le_nat)

section \<open>Integers as bytes: lemmas\<close>

lemma length_be_digits [simp]: "length (be_digits n k) = n"
  by (induction n arbitrary: k) auto

lemma of_be_Nil [simp]: "of_be [] = 0"
  by (simp add: of_be_def)

lemma of_be_snoc: "of_be (bs @ [b]) = of_be bs * 256 + unat b"
  by (simp add: of_be_def)

lemma of_be_Cons: "of_be (b # bs) = unat b * 256 ^ length bs + of_be bs"
proof (induction bs rule: rev_induct)
  case Nil
  show ?case by (simp add: of_be_def)
next
  case (snoc x xs)
  have "of_be (b # xs @ [x]) = of_be (b # xs) * 256 + unat x"
    using of_be_snoc [of "b # xs" x] by simp
  with snoc show ?case by (simp add: of_be_snoc algebra_simps)
qed

lemma of_be_bound: "of_be bs < 256 ^ length bs"
proof (induction bs rule: rev_induct)
  case Nil
  show ?case by simp
next
  case (snoc x xs)
  have "of_be xs + 1 \<le> 256 ^ length xs" using snoc by simp
  then have "(of_be xs + 1) * 256 \<le> 256 ^ length xs * 256" by (rule mult_le_mono1)
  with unat_u8_bound [of x] show ?case by (simp add: of_be_snoc)
qed

lemma of_be_be_digits: "k < 256 ^ n \<Longrightarrow> of_be (be_digits n k) = k"
proof (induction n arbitrary: k)
  case (Suc n)
  have "k div 256 < 256 ^ n" using Suc.prems by (simp add: div_less_iff_less_mult mult.commute)
  moreover have "unat (of_nat (k mod 256) :: u8) = k mod 256"
    by (simp add: unat_of_nat)
  ultimately show ?case using Suc.IH by (simp add: of_be_snoc)
qed simp

lemma be_digits_of_be: "be_digits (length bs) (of_be bs) = bs"
proof (induction bs rule: rev_induct)
  case (snoc x xs)
  have "(of_be xs * 256 + unat x) div 256 = of_be xs" using unat_u8_bound [of x] by simp
  moreover have "(of_be xs * 256 + unat x) mod 256 = unat x" using unat_u8_bound [of x] by simp
  ultimately show ?case using snoc by (simp add: of_be_snoc)
qed simp

lemma of_be_less_iff:
  "length xs = length ys \<Longrightarrow> (xs < ys) = (of_be xs < of_be ys)"
proof (induction xs ys rule: list_induct2)
  case (Cons x xs y ys)
  have bx: "of_be xs < 256 ^ length xs" and by': "of_be ys < 256 ^ length xs"
    using of_be_bound [of xs] of_be_bound [of ys] Cons.hyps by simp_all
  have carry: "a * 256 ^ length xs + of_be us < b * 256 ^ length xs + of_be vs"
    if "a < b" "of_be us < 256 ^ length xs" for a b :: nat and us vs
  proof -
    have "(a + 1) * 256 ^ length xs \<le> b * 256 ^ length xs"
      using that(1) by (intro mult_le_mono1) simp
    with that(2) show ?thesis by simp
  qed
  consider "unat x < unat y" | "unat y < unat x" | "x = y"
    by (metis linorder_neqE_nat word_unat_eq_iff)
  then show ?case
  proof cases
    case 1
    with carry [OF 1 bx] Cons.hyps show ?thesis by (simp add: of_be_Cons word_less_nat_alt)
  next
    case 2
    with carry [OF 2 by'] Cons.hyps show ?thesis
      by (simp add: of_be_Cons word_less_nat_alt) (metis not_less_iff_gr_or_eq)
  next
    case 3
    with Cons show ?thesis by (simp add: of_be_Cons)
  qed
qed simp

lemma of_be_inject: "length xs = length ys \<Longrightarrow> of_be xs = of_be ys \<Longrightarrow> xs = ys"
  by (metis be_digits_of_be)

lemma length_u64_to_be [simp]: "length (u64_to_be w) = 8"
  by (simp add: u64_to_be_def)

lemma length_u32_to_be [simp]: "length (u32_to_be w) = 4"
  by (simp add: u32_to_be_def)

lemma length_u64_to_le [simp]: "length (u64_to_le w) = 8"
  by (simp add: u64_to_le_def)

lemma length_u32_to_le [simp]: "length (u32_to_le w) = 4"
  by (simp add: u32_to_le_def)

lemma of_be_u64_to_be [simp]: "of_be (u64_to_be w) = unat w"
  using unat_u64_bound [of w] by (simp add: u64_to_be_def of_be_be_digits)

lemma of_be_u32_to_be [simp]: "of_be (u32_to_be w) = unat w"
  using unat_u32_bound [of w] by (simp add: u32_to_be_def of_be_be_digits)

lemma u64_from_to_be [simp]: "u64_from_be (u64_to_be w) = w"
  by (simp add: u64_from_be_def)

lemma u32_from_to_be [simp]: "u32_from_be (u32_to_be w) = w"
  by (simp add: u32_from_be_def)

lemma u64_from_to_le [simp]: "u64_from_le (u64_to_le w) = w"
  by (simp add: u64_from_le_def u64_to_le_def)

lemma u32_from_to_le [simp]: "u32_from_le (u32_to_le w) = w"
  by (simp add: u32_from_le_def u32_to_le_def)

lemma u64_to_from_be: "length bs = 8 \<Longrightarrow> u64_to_be (u64_from_be bs) = bs"
  using of_be_bound [of bs] be_digits_of_be [of bs]
  by (simp add: u64_to_be_def u64_from_be_def unat_u64_of_nat)

lemma u64_to_be_inject [simp]: "u64_to_be a = u64_to_be b \<longleftrightarrow> a = b"
  by (metis u64_from_to_be)

lemma u32_to_be_inject [simp]: "u32_to_be a = u32_to_be b \<longleftrightarrow> a = b"
  by (metis u32_from_to_be)

lemma u64_to_be_less [byte_simps]: "u64_to_be a < u64_to_be b \<longleftrightarrow> a < b"
  by (simp add: of_be_less_iff word_less_nat_alt)

lemma u32_to_be_less [byte_simps]: "u32_to_be a < u32_to_be b \<longleftrightarrow> a < b"
  by (simp add: of_be_less_iff word_less_nat_alt)

text \<open>Byte strings with a common prefix, and of equal length, compare piecewise.\<close>

lemma append_less_append_same [simp]: "(p @ xs < p @ ys) = ((xs::'a::linorder list) < ys)"
  by (induction p) auto

lemma append_less_append:
  "length xs = length ys \<Longrightarrow>
   (xs @ us < ys @ vs) = ((xs::'a::linorder list) < ys \<or> xs = ys \<and> us < vs)"
  by (induction xs ys rule: list_induct2) auto

end
