(* ===== verification/Btree.thy ===== *)
theory Btree
  imports Prelude
begin

text \<open>
  The ordered map \<open>std::collections::BTreeMap\<close> as the sources use it: the association list
  of its entries in key order, with \<open>get\<close>, \<open>insert\<close>, \<open>remove\<close>, \<open>range(a..)\<close>,
  \<open>range(a..b)\<close> and the prefix scan \<open>range(p..).take_while(|k| k.starts_with(p))\<close> that the
  key-value stores build from it. The lemmas say that the scans, which stop early, return
  exactly the entries in question.
\<close>

type_synonym ('k, 'v) btree = "('k \<times> 'v) list"

definition btree_ok :: "('k::linorder, 'v) btree \<Rightarrow> bool" where
  "btree_ok m \<longleftrightarrow> sorted_wrt (<) (map fst m)"

fun btree_insert :: "'k::linorder \<Rightarrow> 'v \<Rightarrow> ('k, 'v) btree \<Rightarrow> ('k, 'v) btree" where
  "btree_insert k v [] = [(k, v)]"
| "btree_insert k v (e # m) =
     (if fst e < k then e # btree_insert k v m
      else if fst e = k then (k, v) # m
      else (k, v) # e # m)"

definition btree_remove :: "'k \<Rightarrow> ('k, 'v) btree \<Rightarrow> ('k, 'v) btree" where
  "btree_remove k m = filter (\<lambda>e. fst e \<noteq> k) m"

definition btree_from :: "('k::linorder, 'v) btree \<Rightarrow> 'k \<Rightarrow> ('k, 'v) btree" where
  "btree_from m a = dropWhile (\<lambda>e. fst e < a) m"

definition btree_range :: "('k::linorder, 'v) btree \<Rightarrow> 'k \<Rightarrow> 'k \<Rightarrow> ('k, 'v) btree" where
  "btree_range m a b = takeWhile (\<lambda>e. fst e < b) (btree_from m a)"

definition btree_prefix :: "(bytes, 'v) btree \<Rightarrow> bytes \<Rightarrow> (bytes, 'v) btree" where
  "btree_prefix m p = takeWhile (\<lambda>e. starts_with (fst e) p) (btree_from m p)"

section \<open>Lookup after insert and remove\<close>

lemma btree_ok_Nil [simp]: "btree_ok []"
  by (simp add: btree_ok_def)

lemma btree_ok_Cons: "btree_ok (e # m) \<longleftrightarrow> (\<forall>x \<in> set m. fst e < fst x) \<and> btree_ok m"
  by (simp add: btree_ok_def)

lemma map_of_btree_insert [simp]: "map_of (btree_insert k v m) = (map_of m)(k \<mapsto> v)"
  by (induction m) (auto simp: fun_eq_iff)

lemma set_fst_btree_insert: "fst ` set (btree_insert k v m) = insert k (fst ` set m)"
  by (induction m) auto

lemma btree_ok_insert [intro]: "btree_ok m \<Longrightarrow> btree_ok (btree_insert k v m)"
proof (induction m)
  case (Cons e m)
  have "fst e < fst x" if "x \<in> set (btree_insert k v m)" "fst e < k" for x
  proof -
    have "fst x = k \<or> fst x \<in> fst ` set m"
      using that(1) set_fst_btree_insert [of k v m] by blast
    with that(2) Cons.prems show ?thesis by (auto simp: btree_ok_Cons)
  qed
  with Cons show ?case by (fastforce simp: btree_ok_Cons)
qed (simp add: btree_ok_Cons)

lemma map_of_btree_remove [simp]: "map_of (btree_remove k m) = (map_of m)(k := None)"
  by (induction m) (auto simp: btree_remove_def fun_eq_iff)

lemma btree_ok_filter [intro]: "btree_ok m \<Longrightarrow> btree_ok (filter P m)"
  by (induction m) (auto simp: btree_ok_Cons)

lemma btree_ok_remove [intro]: "btree_ok m \<Longrightarrow> btree_ok (btree_remove k m)"
  unfolding btree_remove_def by (rule btree_ok_filter)

lemma btree_ok_distinct: "btree_ok m \<Longrightarrow> distinct (map fst m)"
  by (induction m) (auto simp: btree_ok_Cons)

lemma btree_ok_in_set: "btree_ok m \<Longrightarrow> (k, v) \<in> set m \<longleftrightarrow> map_of m k = Some v"
  using btree_ok_distinct map_of_eq_Some_iff by metis

lemma btree_ok_eqI:
  assumes "btree_ok m" and "btree_ok n" and "map_of m = map_of n"
  shows "m = n"
proof -
  have "set m = set n"
    using assms btree_ok_in_set [of m] btree_ok_in_set [of n] by auto
  then show ?thesis
    using assms(1,2)
  proof (induction m arbitrary: n)
    case Nil
    then show ?case by simp
  next
    case (Cons e m)
    then obtain f n' where n: "n = f # n'" by (cases n) auto
    have "e = f"
    proof (rule ccontr)
      assume ne: "e \<noteq> f"
      with Cons.prems(1) n have "e \<in> set n'" and "f \<in> set m" by auto
      with Cons.prems(2,3) n have "fst f < fst e" and "fst e < fst f" by (auto simp: btree_ok_Cons)
      then show False by simp
    qed
    moreover have "e \<notin> set m" and "f \<notin> set n'"
      using Cons.prems(2,3) n by (auto simp: btree_ok_Cons)
    ultimately have "set m = set n'" using Cons.prems(1) n by auto
    with Cons.IH [of n'] Cons.prems(2,3) n \<open>e = f\<close> show ?case by (simp add: btree_ok_Cons)
  qed
qed

section \<open>Range and prefix scans\<close>

lemma btree_from_filter: "btree_ok m \<Longrightarrow> btree_from m a = filter (\<lambda>e. a \<le> fst e) m"
proof (induction m)
  case (Cons e m)
  show ?case
  proof (cases "fst e < a")
    case True
    with Cons show ?thesis by (auto simp: btree_from_def btree_ok_Cons)
  next
    case False
    with Cons.prems have "\<forall>x \<in> set m. a \<le> fst x" by (fastforce simp: btree_ok_Cons)
    with False show ?thesis by (simp add: btree_from_def filter_id_conv)
  qed
qed (simp add: btree_from_def)

lemma takeWhile_filter:
  assumes "btree_ok m"
    and "\<And>x y. x \<in> set m \<Longrightarrow> y \<in> set m \<Longrightarrow> fst x < fst y \<Longrightarrow> P y \<Longrightarrow> P x"
  shows "takeWhile P m = filter P m"
  using assms
proof (induction m)
  case (Cons e m)
  show ?case
  proof (cases "P e")
    case True
    with Cons show ?thesis by (auto simp: btree_ok_Cons)
  next
    case False
    have "\<not> P y" if "y \<in> set m" for y
      using False that Cons.prems(1) Cons.prems(2) [of e y] by (auto simp: btree_ok_Cons)
    with False show ?thesis by (simp add: filter_empty_conv)
  qed
qed simp

lemma btree_range_filter:
  "btree_ok m \<Longrightarrow> btree_range m a b = filter (\<lambda>e. a \<le> fst e \<and> fst e < b) m"
  unfolding btree_range_def
  by (subst takeWhile_filter)
    (auto simp: btree_from_filter intro!: btree_ok_filter conj_commute arg_cong2 [where f = filter])

lemma starts_with_ge: "starts_with k p \<Longrightarrow> p \<le> (k :: 'a::linorder list)"
proof (induction p arbitrary: k)
  case (Cons x p)
  then obtain k' where "k = x # k'" and "starts_with k' p"
    by (cases k) (auto simp: starts_with_def)
  with Cons.IH show ?case by simp
qed simp

lemma starts_with_interval:
  "p \<le> k \<Longrightarrow> k < k' \<Longrightarrow> starts_with k' p \<Longrightarrow> starts_with (k :: 'a::linorder list) p"
proof (induction p arbitrary: k k')
  case Nil
  show ?case by (simp add: starts_with_def)
next
  case (Cons x p)
  obtain y ys where k: "k = y # ys" using Cons.prems(1) by (cases k) auto
  obtain z zs where k': "k' = z # zs" using Cons.prems(3) by (cases k') (auto simp: starts_with_def)
  have z: "z = x" and sz: "starts_with zs p" using Cons.prems(3) k' by (auto simp: starts_with_def)
  have "y = x" and "p \<le> ys" and "ys < zs"
    using Cons.prems(1,2) k k' z by auto
  with Cons.IH sz k show ?case by (simp add: starts_with_def)
qed

lemma btree_prefix_filter:
  assumes "btree_ok m"
  shows "btree_prefix m p = filter (\<lambda>e. starts_with (fst e) p) m"
proof -
  have "btree_prefix m p = filter (\<lambda>e. starts_with (fst e) p) (filter (\<lambda>e. p \<le> fst e) m)"
    unfolding btree_prefix_def btree_from_filter [OF assms]
  proof (rule takeWhile_filter)
    show "btree_ok (filter (\<lambda>e. p \<le> fst e) m)" using assms by (rule btree_ok_filter)
  qed (auto intro: starts_with_interval)
  also have "\<dots> = filter (\<lambda>e. starts_with (fst e) p) m"
    using starts_with_ge by (auto intro!: filter_cong)
  finally show ?thesis .
qed

lemma map_of_filter_key:
  "map_of (filter (\<lambda>r. P (fst r)) m) k = (if P k then map_of m k else None)"
  by (induction m) auto

end
