(* ===== verification/History.thy ===== *)
theory History
  imports Btree
begin

text \<open>
  The byte format of the bitemporal version history (\<^verbatim>\<open>byoridb-kvstore/src/store.rs\<close>, the
  private functions before the \<open>KVStore\<close> trait): history keys
  \<open>entity || 0x00 || desc(valid_from) || desc(tx)\<close> and history values
  \<open>valid_to || payload\<close>. The lemmas show that both decode to what was encoded and that the
  byte order of the keys of one entity is "newest first", which the seeking reads of the
  stores rely on.
\<close>

unbundle bit_operations_syntax

section \<open>Definitions\<close>

definition VALID_OPEN :: i64 where
  "VALID_OPEN = 9223372036854775807"

record version_record =
  valid_from :: i64
  valid_to :: i64
  vtx :: i64
  vvalue :: bytes

text \<open>\<open>1u64 << 63\<close>.\<close>

definition sign_bit :: u64 where
  "sign_bit = push_bit 63 1"

definition desc_i64 :: "i64 \<Rightarrow> bytes" where
  "desc_i64 v = u64_to_be (NOT (v XOR sign_bit))"

definition undesc_i64 :: "bytes \<Rightarrow> i64" where
  "undesc_i64 b = NOT (u64_from_be b) XOR sign_bit"

definition history_key :: "bytes \<Rightarrow> i64 \<Rightarrow> i64 \<Rightarrow> bytes" where
  "history_key entity_key vf tx = entity_key @ [0] @ desc_i64 vf @ desc_i64 tx"

definition history_prefix :: "bytes \<Rightarrow> bytes" where
  "history_prefix entity_key = entity_key @ [0]"

definition parse_history_key_times :: "bytes \<Rightarrow> (i64 \<times> i64) option" where
  "parse_history_key_times key =
     (if length key < 16 then None
      else Some (undesc_i64 (take 8 (drop (length key - 16) key)),
                 undesc_i64 (drop (length key - 8) key)))"

definition encode_history_value :: "i64 \<Rightarrow> bytes \<Rightarrow> bytes" where
  "encode_history_value vt p = u64_to_be vt @ p"

definition decode_history_value :: "bytes \<Rightarrow> (i64 \<times> bytes) option" where
  "decode_history_value v =
     (if length v < 8 then None else Some (u64_from_be (take 8 v), drop 8 v))"

section \<open>Signed order on bytes\<close>

lemma xor_sign_bit: "v XOR sign_bit = v + 9223372036854775808"
proof -
  have "v XOR sign_bit = flip_bit 63 v"
    by (simp add: flip_bit_eq_xor sign_bit_def)
  also have "\<dots> = (if bit v 63 then v - 2 ^ 63 else v + 2 ^ 63)"
    by (simp add: flip_bit_eq_if set_bit_eq unset_bit_eq)
  also have "\<dots> = v + 9223372036854775808"
    by simp
  finally show ?thesis .
qed

lemma uint_xor_sign_bit: "uint (v XOR sign_bit) = sint v + 9223372036854775808"
proof -
  have "sint v = take_bit 64 (uint v + 2 ^ 63) - 2 ^ 63"
    by (simp add: sint_uint signed_take_bit_eq_take_bit_shift)
  moreover have "uint (v + 9223372036854775808) = take_bit 64 (uint v + 2 ^ 63)"
    by (simp add: uint_word_ariths take_bit_eq_mod)
  ultimately show ?thesis by (simp add: xor_sign_bit)
qed

lemma xor_sign_bit_twice [simp]: "(v XOR sign_bit) XOR sign_bit = v"
  by (simp add: xor.assoc)

lemma xor_sign_bit_less: "a XOR sign_bit < b XOR sign_bit \<longleftrightarrow> sint a < sint b"
  by (simp add: word_less_def uint_xor_sign_bit)

lemma not_word_less: "NOT a < NOT b \<longleftrightarrow> b < (a :: u64)"
proof -
  have "uint (NOT x) = mask 64 - uint x" for x :: u64
  proof -
    have "take_bit 64 (uint x) = uint x"
      using unsigned_less [of x, where ?'a = int] by (intro take_bit_int_eq_self) simp_all
    then show ?thesis by (simp add: unsigned_not_eq take_bit_not_eq_mask_diff)
  qed
  then show ?thesis by (simp add: word_less_def)
qed

lemma desc_i64_less: "desc_i64 a < desc_i64 b \<longleftrightarrow> sint b < sint a"
  unfolding desc_i64_def u64_to_be_less not_word_less by (rule xor_sign_bit_less)

lemma length_desc_i64 [simp]: "length (desc_i64 v) = 8"
  by (simp add: desc_i64_def)

lemma undesc_desc_i64 [simp]: "undesc_i64 (desc_i64 v) = v"
  by (simp add: desc_i64_def undesc_i64_def)

lemma desc_i64_inject [simp]: "desc_i64 a = desc_i64 b \<longleftrightarrow> a = b"
  by (metis undesc_desc_i64)

section \<open>Round trips\<close>

lemma parse_history_key [simp]:
  "parse_history_key_times (history_key e vf tx) = Some (vf, tx)"
  by (simp add: parse_history_key_times_def history_key_def)

lemma decode_encode_history_value [simp]:
  "decode_history_value (encode_history_value vt p) = Some (vt, p)"
  by (simp add: decode_history_value_def encode_history_value_def)

lemma starts_with_history_key [simp]: "starts_with (history_key e vf tx) (history_prefix e)"
  by (simp add: history_key_def history_prefix_def starts_with_def)

text \<open>
  The separator argument of the source ("entity keys are ASCII so the 0x00 separator can't
  collide"): two strings free of the separator are determined by any text they open.
\<close>

lemma separator_unique:
  "x \<notin> set e \<Longrightarrow> x \<notin> set e' \<Longrightarrow> e @ x # s = e' @ x # s' \<Longrightarrow> e = e' \<and> s = s'"
proof (induction e arbitrary: e')
  case Nil
  then show ?case by (cases e') auto
next
  case (Cons y e)
  then show ?case by (cases e') auto
qed

lemma history_key_inject:
  assumes "0 \<notin> set e" and "0 \<notin> set e'" and "history_key e vf tx = history_key e' vf' tx'"
  shows "e = e' \<and> vf = vf' \<and> tx = tx'"
proof -
  have "e @ 0 # desc_i64 vf @ desc_i64 tx = e' @ 0 # desc_i64 vf' @ desc_i64 tx'"
    using assms(3) by (simp add: history_key_def)
  from separator_unique [OF assms(1,2) this] show ?thesis by simp
qed

lemma history_key_prefix_entity:
  assumes "0 \<notin> set e" and "0 \<notin> set e'" and "starts_with (history_key e vf tx) (history_prefix e')"
  shows "e = e'"
proof -
  obtain s where "history_key e vf tx = history_prefix e' @ s"
    using assms(3) by (auto simp: starts_with_iff)
  then have "e @ 0 # desc_i64 vf @ desc_i64 tx = e' @ 0 # s"
    by (simp add: history_key_def history_prefix_def)
  from separator_unique [OF assms(1,2) this] show ?thesis by simp
qed

definition newer :: "i64 \<times> i64 \<Rightarrow> i64 \<times> i64 \<Rightarrow> bool" where
  "newer a b \<longleftrightarrow> sint (fst b) < sint (fst a) \<or> fst a = fst b \<and> sint (snd b) < sint (snd a)"

lemma history_key_less:
  "history_key e vf tx < history_key e vf' tx' \<longleftrightarrow> newer (vf, tx) (vf', tx')"
  by (auto simp: history_key_def append_less_append desc_i64_less newer_def)

lemma history_key_le:
  "history_key e vf tx \<le> history_key e vf' tx' \<longleftrightarrow>
     newer (vf, tx) (vf', tx') \<or> vf = vf' \<and> tx = tx'"
proof -
  have "history_key e vf tx = history_key e vf' tx' \<longleftrightarrow> vf = vf' \<and> tx = tx'"
    by (simp add: history_key_def)
  then show ?thesis by (auto simp: le_less history_key_less)
qed

end
