(* ===== verification/KvStore.thy ===== *)
theory KvStore
  imports History
begin

text \<open>
  The key-value store of \<^verbatim>\<open>byoridb-kvstore/src/store.rs\<close>: the provided (default) methods of
  the \<open>KVStore\<close> trait, each over the methods it calls, and every method of the in-memory
  implementation \<open>MemoryKVStore\<close>, whose state is two ordered maps (the current view and the
  version history). Methods that lock for reading return a value, methods that lock for
  writing return the new state.

  The theory shows that the store behaves as a finite map with ordered prefix and range
  scans, that the early-terminating overrides agree with the trait's reference versions, and
  that the seeking \<open>get_as_of\<close> resolves the version the trait's default resolves. The
  locale \<open>kv_contract\<close> is what clients holding an \<open>Arc<dyn KVStore>\<close> rely on;
  \<open>MemoryKVStore\<close> is shown to provide it.
\<close>

section \<open>The trait's provided methods\<close>

type_synonym version_tuple = "bytes \<times> i64 \<times> i64 \<times> i64 \<times> bytes"
type_synonym rows = "(bytes \<times> bytes) list"

definition take_limit :: "nat option \<Rightarrow> 'a list \<Rightarrow> 'a list" where
  "take_limit limit xs = (case limit of None \<Rightarrow> xs | Some n \<Rightarrow> take n xs)"

definition default_batch_apply ::
  "('s \<Rightarrow> rows \<Rightarrow> ('e + unit) \<times> 's) \<Rightarrow> ('s \<Rightarrow> bytes list \<Rightarrow> ('e + unit) \<times> 's) \<Rightarrow>
   ('s \<Rightarrow> version_tuple list \<Rightarrow> ('e + unit) \<times> 's) \<Rightarrow>
   's \<Rightarrow> rows \<Rightarrow> bytes list \<Rightarrow> version_tuple list \<Rightarrow> ('e + unit) \<times> 's" where
  "default_batch_apply batch_put batch_delete batch_put_version s puts deletes versions =
     (case (if puts \<noteq> [] then batch_put s puts else (Inr (), s)) of
        (Inl e, s1) \<Rightarrow> (Inl e, s1)
      | (Inr _, s1) \<Rightarrow>
         (case (if deletes \<noteq> [] then batch_delete s1 deletes else (Inr (), s1)) of
            (Inl e, s2) \<Rightarrow> (Inl e, s2)
          | (Inr _, s2) \<Rightarrow>
             (if versions \<noteq> [] then batch_put_version s2 versions else (Inr (), s2))))"

text \<open>The tuple comparison \<open>(b.valid_from, b.tx) >= (v.valid_from, v.tx)\<close>.\<close>

definition version_ge :: "version_record \<Rightarrow> version_record \<Rightarrow> bool" where
  "version_ge b v \<longleftrightarrow>
     sint (valid_from v) < sint (valid_from b) \<or>
     valid_from b = valid_from v \<and> sint (vtx v) \<le> sint (vtx b)"

definition version_covers :: "i64 \<Rightarrow> i64 \<Rightarrow> version_record \<Rightarrow> bool" where
  "version_covers valid_at tx_at v \<longleftrightarrow>
     sint (vtx v) \<le> sint tx_at \<and> sint (valid_from v) \<le> sint valid_at \<and> sint valid_at < sint (valid_to v)"

fun best_version ::
  "i64 \<Rightarrow> i64 \<Rightarrow> version_record option \<Rightarrow> version_record list \<Rightarrow> version_record option" where
  "best_version valid_at tx_at best [] = best"
| "best_version valid_at tx_at best (v # vs) =
     (if version_covers valid_at tx_at v
      then (case best of
              Some b \<Rightarrow> (if version_ge b v then best_version valid_at tx_at best vs
                         else best_version valid_at tx_at (Some v) vs)
            | None \<Rightarrow> best_version valid_at tx_at (Some v) vs)
      else best_version valid_at tx_at best vs)"

definition default_get_as_of ::
  "('s \<Rightarrow> bytes \<Rightarrow> 'e + version_record list) \<Rightarrow> 's \<Rightarrow> bytes \<Rightarrow> i64 \<Rightarrow> i64 \<Rightarrow> 'e + bytes option" where
  "default_get_as_of scan_history s entity_key valid_at tx_at =
     (case scan_history s entity_key of
        Inl e \<Rightarrow> Inl e
      | Inr versions \<Rightarrow> Inr (map_option vvalue (best_version valid_at tx_at None versions)))"

fun batch_delete_all ::
  "('s \<Rightarrow> bytes list \<Rightarrow> ('e + unit) \<times> 's) \<Rightarrow> 's \<Rightarrow> bytes list list \<Rightarrow> ('e + unit) \<times> 's" where
  "batch_delete_all batch_delete s [] = (Inr (), s)"
| "batch_delete_all batch_delete s (c # cs) =
     (case batch_delete s c of
        (Inl e, s') \<Rightarrow> (Inl e, s')
      | (Inr _, s') \<Rightarrow> batch_delete_all batch_delete s' cs)"

definition default_delete_prefix_chunked ::
  "('s \<Rightarrow> bytes \<Rightarrow> 'e + rows) \<Rightarrow> ('s \<Rightarrow> bytes list \<Rightarrow> ('e + unit) \<times> 's) \<Rightarrow>
   's \<Rightarrow> bytes \<Rightarrow> nat \<Rightarrow> ('e + nat) \<times> 's" where
  "default_delete_prefix_chunked scan_prefix batch_delete s p chunk =
     (case scan_prefix s p of
        Inl e \<Rightarrow> (Inl e, s)
      | Inr entries \<Rightarrow>
         (case batch_delete_all batch_delete s (chunks (max chunk 1) (map fst entries)) of
            (Inl e, s') \<Rightarrow> (Inl e, s')
          | (Inr _, s') \<Rightarrow> (Inr (length entries), s')))"

definition default_count_prefix :: "('s \<Rightarrow> bytes \<Rightarrow> 'e + rows) \<Rightarrow> 's \<Rightarrow> bytes \<Rightarrow> 'e + u64" where
  "default_count_prefix scan_prefix s p =
     (case scan_prefix s p of Inl e \<Rightarrow> Inl e | Inr es \<Rightarrow> Inr (of_nat (length es)))"

fun default_count_prefixes :: "('s \<Rightarrow> bytes \<Rightarrow> 'e + u64) \<Rightarrow> 's \<Rightarrow> bytes list \<Rightarrow> 'e + u64 list" where
  "default_count_prefixes count_prefix s [] = Inr []"
| "default_count_prefixes count_prefix s (p # ps) =
     (case count_prefix s p of
        Inl e \<Rightarrow> Inl e
      | Inr n \<Rightarrow> (case default_count_prefixes count_prefix s ps of
                    Inl e \<Rightarrow> Inl e
                  | Inr ns \<Rightarrow> Inr (n # ns)))"

definition counter_of :: "bytes option \<Rightarrow> i64" where
  "counter_of b =
     (case b of None \<Rightarrow> 0 | Some b \<Rightarrow> (if length b < 8 then 0 else u64_from_le (take 8 b)))"

fun default_add_counters ::
  "('s \<Rightarrow> bytes \<Rightarrow> 'e + bytes option) \<Rightarrow> ('s \<Rightarrow> bytes \<Rightarrow> bytes \<Rightarrow> ('e + unit) \<times> 's) \<Rightarrow>
   ('s \<Rightarrow> bytes \<Rightarrow> ('e + unit) \<times> 's) \<Rightarrow> 's \<Rightarrow> (bytes \<times> i64) list \<Rightarrow> ('e + unit) \<times> 's" where
  "default_add_counters get put delete s [] = (Inr (), s)"
| "default_add_counters get put delete s ((key, delta) # deltas) =
     (case get s key of
        Inl e \<Rightarrow> (Inl e, s)
      | Inr b \<Rightarrow>
         (let new = counter_of b + delta in
          (case (if sint new \<le> 0 then delete s key else put s key (u64_to_le new)) of
             (Inl e, s') \<Rightarrow> (Inl e, s')
           | (Inr _, s') \<Rightarrow> default_add_counters get put delete s' deltas)))"

fun common_len :: "bytes \<Rightarrow> bytes \<Rightarrow> nat" where
  "common_len (x # xs) (y # ys) = (if x = y then Suc (common_len xs ys) else 0)"
| "common_len _ _ = 0"

definition default_scan_range ::
  "('s \<Rightarrow> bytes \<Rightarrow> 'e + rows) \<Rightarrow> 's \<Rightarrow> bytes \<Rightarrow> bytes \<Rightarrow> nat option \<Rightarrow> 'e + rows" where
  "default_scan_range scan_prefix s start stop limit =
     (if stop \<le> start \<or> limit = Some 0 then Inr []
      else (case scan_prefix s (take (common_len start stop) start) of
              Inl e \<Rightarrow> Inl e
            | Inr rs \<Rightarrow> Inr (take_limit limit (filter (\<lambda>r. start \<le> fst r \<and> fst r < stop) rs))))"

definition default_scan_with_filter ::
  "('s \<Rightarrow> bytes \<Rightarrow> 'e + rows) \<Rightarrow> 's \<Rightarrow> bytes \<Rightarrow> (bytes \<Rightarrow> bytes \<Rightarrow> bool) \<Rightarrow> nat option \<Rightarrow> 'e + rows" where
  "default_scan_with_filter scan_prefix s p flt limit =
     (case scan_prefix s p of
        Inl e \<Rightarrow> Inl e
      | Inr rs \<Rightarrow> Inr (take_limit limit (filter (\<lambda>(k, v). flt k v) rs)))"

definition default_scan_prefix_limited ::
  "('s \<Rightarrow> bytes \<Rightarrow> (bytes \<Rightarrow> bytes \<Rightarrow> bool) \<Rightarrow> nat option \<Rightarrow> 'e + rows) \<Rightarrow>
   's \<Rightarrow> bytes \<Rightarrow> nat option \<Rightarrow> 'e + rows" where
  "default_scan_prefix_limited scan_with_filter s p limit = scan_with_filter s p (\<lambda>_ _. True) limit"

text \<open>
  A \<open>ScanVisitorFn\<close> is a closure with state: it returns whether to go on and its new state.
  \<open>visit_rows\<close> is the loop over materialised rows; the result is the number of rows visited
  and the visitor's final state.
\<close>

fun visit_rows ::
  "('v \<Rightarrow> bytes \<Rightarrow> bytes \<Rightarrow> bool \<times> 'v) \<Rightarrow> 'v \<Rightarrow> nat \<Rightarrow> rows \<Rightarrow> nat \<times> 'v" where
  "visit_rows visitor st n [] = (n, st)"
| "visit_rows visitor st n ((k, v) # rs) =
     (case visitor st k v of
        (True, st') \<Rightarrow> visit_rows visitor st' (Suc n) rs
      | (False, st') \<Rightarrow> (Suc n, st'))"

definition default_scan_with_filter_visit ::
  "('s \<Rightarrow> bytes \<Rightarrow> (bytes \<Rightarrow> bytes \<Rightarrow> bool) \<Rightarrow> nat option \<Rightarrow> 'e + rows) \<Rightarrow>
   's \<Rightarrow> bytes \<Rightarrow> (bytes \<Rightarrow> bytes \<Rightarrow> bool) \<Rightarrow> ('v \<Rightarrow> bytes \<Rightarrow> bytes \<Rightarrow> bool \<times> 'v) \<Rightarrow> 'v \<Rightarrow>
   nat option \<Rightarrow> 'e + nat \<times> 'v" where
  "default_scan_with_filter_visit scan_with_filter s p flt visitor st limit =
     (case scan_with_filter s p flt limit of
        Inl e \<Rightarrow> Inl e
      | Inr rs \<Rightarrow> Inr (visit_rows visitor st 0 rs))"

section \<open>MemoryKVStore\<close>

record memory_kv =
  kvdata :: "(bytes, bytes) btree"
  kvhistory :: "(bytes, bytes) btree"

definition memory_new :: memory_kv where
  "memory_new = \<lparr>kvdata = [], kvhistory = []\<rparr>"

definition memory_get :: "memory_kv \<Rightarrow> bytes \<Rightarrow> bytes option" where
  "memory_get s key = map_of (kvdata s) key"

definition memory_put :: "memory_kv \<Rightarrow> bytes \<Rightarrow> bytes \<Rightarrow> memory_kv" where
  "memory_put s key v = s\<lparr>kvdata := btree_insert key v (kvdata s)\<rparr>"

definition memory_put_if_absent :: "memory_kv \<Rightarrow> bytes \<Rightarrow> bytes \<Rightarrow> bytes option \<times> memory_kv" where
  "memory_put_if_absent s key v =
     (case map_of (kvdata s) key of
        Some existing \<Rightarrow> (Some existing, s)
      | None \<Rightarrow> (None, s\<lparr>kvdata := btree_insert key v (kvdata s)\<rparr>))"

definition memory_put_version ::
  "memory_kv \<Rightarrow> bytes \<Rightarrow> i64 \<Rightarrow> i64 \<Rightarrow> i64 \<Rightarrow> bytes \<Rightarrow> memory_kv" where
  "memory_put_version s entity_key vf vt tx v =
     s\<lparr>kvhistory := btree_insert (history_key entity_key vf tx) (encode_history_value vt v) (kvhistory s)\<rparr>"

definition memory_batch_put_version :: "memory_kv \<Rightarrow> version_tuple list \<Rightarrow> memory_kv" where
  "memory_batch_put_version s versions =
     foldl (\<lambda>s (ek, vf, vt, tx, val). memory_put_version s ek vf vt tx val) s versions"

fun entity_keys_loop :: "bytes list \<Rightarrow> rows \<Rightarrow> bytes list" where
  "entity_keys_loop out [] = out"
| "entity_keys_loop out ((k, v) # rs) =
     (if length k < 17 \<or> k ! (length k - 17) \<noteq> 0 then entity_keys_loop out rs
      else (let entity = take (length k - 17) k in
            if out \<noteq> [] \<and> last out = entity then entity_keys_loop out rs
            else entity_keys_loop (out @ [entity]) rs))"

definition memory_scan_history_entity_keys :: "memory_kv \<Rightarrow> bytes \<Rightarrow> bytes list" where
  "memory_scan_history_entity_keys s entity_prefix =
     entity_keys_loop [] (btree_prefix (kvhistory s) entity_prefix)"

definition memory_batch_put :: "memory_kv \<Rightarrow> rows \<Rightarrow> memory_kv" where
  "memory_batch_put s pairs = foldl (\<lambda>s (k, v). s\<lparr>kvdata := btree_insert k v (kvdata s)\<rparr>) s pairs"

definition memory_delete :: "memory_kv \<Rightarrow> bytes \<Rightarrow> memory_kv" where
  "memory_delete s key = s\<lparr>kvdata := btree_remove key (kvdata s)\<rparr>"

definition memory_batch_delete :: "memory_kv \<Rightarrow> bytes list \<Rightarrow> memory_kv" where
  "memory_batch_delete s keys = foldl (\<lambda>s k. s\<lparr>kvdata := btree_remove k (kvdata s)\<rparr>) s keys"

definition memory_batch_apply ::
  "memory_kv \<Rightarrow> rows \<Rightarrow> bytes list \<Rightarrow> version_tuple list \<Rightarrow> memory_kv" where
  "memory_batch_apply s puts deletes versions =
     (let s1 = foldl (\<lambda>s (k, v). s\<lparr>kvdata := btree_insert k v (kvdata s)\<rparr>) s puts;
          s2 = foldl (\<lambda>s k. s\<lparr>kvdata := btree_remove k (kvdata s)\<rparr>) s1 deletes
      in foldl (\<lambda>s (ek, vf, vt, tx, val).
           s\<lparr>kvhistory := btree_insert (history_key ek vf tx) (encode_history_value vt val) (kvhistory s)\<rparr>)
         s2 versions)"

text \<open>The loop of the seeking \<open>get_as_of\<close>, over \<open>history.range(start..)\<close>.\<close>

fun as_of_loop :: "bytes \<Rightarrow> i64 \<Rightarrow> i64 \<Rightarrow> rows \<Rightarrow> bytes option" where
  "as_of_loop prefix valid_at tx_at [] = None"
| "as_of_loop prefix valid_at tx_at ((k, v) # rs) =
     (if \<not> starts_with k prefix then None
      else (case (parse_history_key_times k, decode_history_value v) of
              (Some (_, tx), Some (vt, val)) \<Rightarrow>
                (if sint tx \<le> sint tx_at \<and> sint valid_at < sint vt then Some val
                 else as_of_loop prefix valid_at tx_at rs)
            | _ \<Rightarrow> as_of_loop prefix valid_at tx_at rs))"

definition memory_get_as_of :: "memory_kv \<Rightarrow> bytes \<Rightarrow> i64 \<Rightarrow> i64 \<Rightarrow> bytes option" where
  "memory_get_as_of s entity_key valid_at tx_at =
     as_of_loop (history_prefix entity_key) valid_at tx_at
       (btree_from (kvhistory s) (history_key entity_key valid_at tx_at))"

fun scan_history_loop :: "bytes \<Rightarrow> rows \<Rightarrow> version_record list" where
  "scan_history_loop prefix [] = []"
| "scan_history_loop prefix ((k, v) # rs) =
     (if \<not> starts_with k prefix then []
      else (case (parse_history_key_times k, decode_history_value v) of
              (Some (vf, tx), Some (vt, val)) \<Rightarrow>
                \<lparr>valid_from = vf, valid_to = vt, vtx = tx, vvalue = val\<rparr> # scan_history_loop prefix rs
            | _ \<Rightarrow> scan_history_loop prefix rs))"

definition memory_scan_history :: "memory_kv \<Rightarrow> bytes \<Rightarrow> version_record list" where
  "memory_scan_history s entity_key =
     scan_history_loop (history_prefix entity_key) (btree_from (kvhistory s) (history_prefix entity_key))"

definition memory_scan_prefix :: "memory_kv \<Rightarrow> bytes \<Rightarrow> rows" where
  "memory_scan_prefix s p = takeWhile (\<lambda>(k, _). starts_with k p) (btree_from (kvdata s) p)"

definition memory_scan_range :: "memory_kv \<Rightarrow> bytes \<Rightarrow> bytes \<Rightarrow> nat option \<Rightarrow> rows" where
  "memory_scan_range s start stop limit =
     (if stop \<le> start \<or> limit = Some 0 then []
      else take_limit limit (btree_range (kvdata s) start stop))"

definition memory_batch_get :: "memory_kv \<Rightarrow> bytes list \<Rightarrow> bytes option list" where
  "memory_batch_get s keys = map (map_of (kvdata s)) keys"

definition memory_scan_with_filter ::
  "memory_kv \<Rightarrow> bytes \<Rightarrow> (bytes \<Rightarrow> bytes \<Rightarrow> bool) \<Rightarrow> nat option \<Rightarrow> rows" where
  "memory_scan_with_filter s p flt limit =
     take_limit limit (filter (\<lambda>(k, v). flt k v) (takeWhile (\<lambda>(k, _). starts_with k p) (btree_from (kvdata s) p)))"

fun memory_visit_loop ::
  "(bytes \<Rightarrow> bytes \<Rightarrow> bool) \<Rightarrow> ('v \<Rightarrow> bytes \<Rightarrow> bytes \<Rightarrow> bool \<times> 'v) \<Rightarrow> nat option \<Rightarrow>
   'v \<Rightarrow> nat \<Rightarrow> rows \<Rightarrow> nat \<times> 'v" where
  "memory_visit_loop flt visitor limit st n [] = (n, st)"
| "memory_visit_loop flt visitor limit st n ((k, v) # rs) =
     (if flt k v
      then (case visitor st k v of (go, st') \<Rightarrow>
              if \<not> go \<or> (case limit of None \<Rightarrow> False | Some l \<Rightarrow> l \<le> Suc n) then (Suc n, st')
              else memory_visit_loop flt visitor limit st' (Suc n) rs)
      else memory_visit_loop flt visitor limit st n rs)"

definition memory_scan_with_filter_visit ::
  "memory_kv \<Rightarrow> bytes \<Rightarrow> (bytes \<Rightarrow> bytes \<Rightarrow> bool) \<Rightarrow> ('v \<Rightarrow> bytes \<Rightarrow> bytes \<Rightarrow> bool \<times> 'v) \<Rightarrow> 'v \<Rightarrow>
   nat option \<Rightarrow> nat \<times> 'v" where
  "memory_scan_with_filter_visit s p flt visitor st limit =
     (if limit = Some 0 then (0, st)
      else memory_visit_loop flt visitor limit st 0
             (takeWhile (\<lambda>(k, _). starts_with k p) (btree_from (kvdata s) p)))"

definition memory_scan_stream :: "memory_kv \<Rightarrow> bytes \<Rightarrow> rows" where
  "memory_scan_stream s p = takeWhile (\<lambda>(k, _). starts_with k p) (btree_from (kvdata s) p)"

section \<open>Well-formed stores\<close>

text \<open>
  Entity keys hold no 0x00 byte, so every history row is \<open>entity || 0x00 || 16 bytes\<close> with an
  entity free of the separator. \<open>memory_ok\<close> says so, and that both maps are in key order.
\<close>

definition history_row_ok :: "bytes \<Rightarrow> bool" where
  "history_row_ok k \<longleftrightarrow>
     17 \<le> length k \<and> k ! (length k - 17) = 0 \<and> 0 \<notin> set (take (length k - 17) k)"

definition memory_ok :: "memory_kv \<Rightarrow> bool" where
  "memory_ok s \<longleftrightarrow>
     btree_ok (kvdata s) \<and> btree_ok (kvhistory s) \<and> list_all (\<lambda>r. history_row_ok (fst r)) (kvhistory s)"

lemma desc_undesc_i64: "length b = 8 \<Longrightarrow> desc_i64 (undesc_i64 b) = b"
proof -
  assume "length b = 8"
  moreover have "NOT ((NOT w XOR sign_bit) XOR sign_bit) = w" for w :: u64 by simp
  ultimately show ?thesis by (simp add: desc_i64_def undesc_i64_def u64_to_from_be)
qed

lemma history_row_ok_iff:
  "history_row_ok k \<longleftrightarrow> (\<exists>e vf tx. 0 \<notin> set e \<and> k = history_key e vf tx)"
proof
  assume ok: "history_row_ok k"
  define n t where "n = length k - 17" and "t = drop (Suc n) k"
  have "n < length k" and z: "k ! n = 0" and e: "0 \<notin> set (take n k)" and t: "length t = 16"
    using ok by (auto simp: history_row_ok_def n_def t_def)
  then have "k = take n k @ 0 # t"
    using id_take_nth_drop [of n k] by (simp add: t_def)
  then have k: "k = take n k @ 0 # take 8 t @ drop 8 t"
    by (simp only: append_take_drop_id)
  have "desc_i64 (undesc_i64 (take 8 t)) = take 8 t" and "desc_i64 (undesc_i64 (drop 8 t)) = drop 8 t"
    using t by (simp_all add: desc_undesc_i64)
  then have "history_key (take n k) (undesc_i64 (take 8 t)) (undesc_i64 (drop 8 t))
      = take n k @ 0 # take 8 t @ drop 8 t"
    unfolding history_key_def by (simp only: append_Cons append_Nil)
  then have "k = history_key (take n k) (undesc_i64 (take 8 t)) (undesc_i64 (drop 8 t))"
    using k by (simp only:)
  with e show "\<exists>e vf tx. 0 \<notin> set e \<and> k = history_key e vf tx" by blast
next
  assume "\<exists>e vf tx. 0 \<notin> set e \<and> k = history_key e vf tx"
  then show "history_row_ok k" by (auto simp: history_row_ok_def history_key_def nth_append)
qed

lemma memory_ok_new: "memory_ok memory_new"
  by (simp add: memory_ok_def memory_new_def)

lemma memory_ok_data: "memory_ok s \<Longrightarrow> btree_ok m \<Longrightarrow> memory_ok (s\<lparr>kvdata := m\<rparr>)"
  by (simp add: memory_ok_def)

lemma memory_ok_put: "memory_ok s \<Longrightarrow> memory_ok (memory_put s k v)"
  unfolding memory_put_def by (rule memory_ok_data) (auto simp: memory_ok_def)

lemma memory_ok_delete: "memory_ok s \<Longrightarrow> memory_ok (memory_delete s k)"
  unfolding memory_delete_def by (rule memory_ok_data) (auto simp: memory_ok_def)

lemma memory_ok_put_version:
  assumes "memory_ok s" and "0 \<notin> set ek"
  shows "memory_ok (memory_put_version s ek vf vt tx v)"
proof -
  have row: "history_row_ok (history_key ek vf tx)" using assms(2) history_row_ok_iff by blast
  have "history_row_ok (fst r)"
    if "r \<in> set (btree_insert (history_key ek vf tx) (encode_history_value vt v) (kvhistory s))" for r
  proof -
    have "fst r \<in> insert (history_key ek vf tx) (fst ` set (kvhistory s))"
      using that set_fst_btree_insert by (metis imageI)
    with row assms(1) show ?thesis by (auto simp: memory_ok_def list_all_iff)
  qed
  with assms(1) show ?thesis by (auto simp: memory_ok_def memory_put_version_def list_all_iff)
qed

lemma foldl_invariant:
  "I s \<Longrightarrow> (\<And>s x. x \<in> set xs \<Longrightarrow> I s \<Longrightarrow> I (f s x)) \<Longrightarrow> I (foldl f s xs)"
  by (induction xs arbitrary: s) auto

lemma memory_batch_put_eq: "memory_batch_put s pairs = foldl (\<lambda>s (k, v). memory_put s k v) s pairs"
  by (simp add: memory_batch_put_def memory_put_def)

lemma memory_batch_delete_eq: "memory_batch_delete s keys = foldl memory_delete s keys"
  by (simp add: memory_batch_delete_def memory_delete_def [abs_def])

lemma memory_batch_apply_eq:
  "memory_batch_apply s puts deletes versions =
     memory_batch_put_version (memory_batch_delete (memory_batch_put s puts) deletes) versions"
  by (simp add: memory_batch_apply_def memory_batch_put_version_def memory_batch_delete_def
      memory_batch_put_def memory_put_version_def Let_def)

definition entity_of :: "version_tuple \<Rightarrow> bytes" where
  "entity_of v = fst v"

lemma memory_ok_batch_put: "memory_ok s \<Longrightarrow> memory_ok (memory_batch_put s pairs)"
  unfolding memory_batch_put_eq by (rule foldl_invariant) (auto intro: memory_ok_put)

lemma memory_ok_batch_delete: "memory_ok s \<Longrightarrow> memory_ok (memory_batch_delete s keys)"
  unfolding memory_batch_delete_eq by (rule foldl_invariant) (auto intro: memory_ok_delete)

lemma memory_ok_batch_put_version:
  "memory_ok s \<Longrightarrow> list_all (\<lambda>v. 0 \<notin> set (entity_of v)) versions \<Longrightarrow>
   memory_ok (memory_batch_put_version s versions)"
  unfolding memory_batch_put_version_def
  by (rule foldl_invariant) (fastforce simp: list_all_iff entity_of_def intro: memory_ok_put_version)+

lemmas memory_ok_intros = memory_ok_new memory_ok_put memory_ok_delete memory_ok_put_version
  memory_ok_batch_put memory_ok_batch_delete memory_ok_batch_put_version

section \<open>Scans\<close>

lemma memory_scan_prefix_filter:
  "memory_ok s \<Longrightarrow> memory_scan_prefix s p = filter (\<lambda>r. starts_with (fst r) p) (kvdata s)"
  using btree_prefix_filter [of "kvdata s" p]
  by (simp add: memory_scan_prefix_def btree_prefix_def memory_ok_def case_prod_unfold)

lemma memory_scan_prefix_set:
  "memory_ok s \<Longrightarrow> (k, v) \<in> set (memory_scan_prefix s p) \<longleftrightarrow> memory_get s k = Some v \<and> starts_with k p"
  by (auto simp: memory_scan_prefix_filter memory_get_def memory_ok_def btree_ok_in_set)

lemma memory_scan_prefix_sorted:
  "memory_ok s \<Longrightarrow> btree_ok (memory_scan_prefix s p)"
  by (simp add: memory_scan_prefix_filter btree_ok_filter memory_ok_def)

lemma common_len_le: "common_len a b \<le> length a"
  by (induction a b rule: common_len.induct) auto

text \<open>Every key between two bounds starts with their common prefix.\<close>

lemma between_common_prefix:
  "a \<le> k \<Longrightarrow> k < b \<Longrightarrow> starts_with k (take (common_len a b) a)"
proof (induction a b arbitrary: k rule: common_len.induct)
  case (1 x xs y ys)
  show ?case
  proof (cases "x = y")
    case True
    from "1.prems" True obtain k' where "k = x # k'" and "xs \<le> k'" and "k' < ys"
      by (cases k) auto
    with "1.IH" True show ?thesis by (simp add: starts_with_def)
  qed (simp add: starts_with_def)
qed (simp_all add: starts_with_def)

lemma memory_scan_range_eq_default:
  assumes "memory_ok s"
  shows "default_scan_range (\<lambda>s p. Inr (memory_scan_prefix s p)) s start stop limit
           = Inr (memory_scan_range s start stop limit)"
proof -
  let ?p = "take (common_len start stop) start"
  have "filter (\<lambda>r. start \<le> fst r \<and> fst r < stop) (memory_scan_prefix s ?p)
      = filter (\<lambda>r. start \<le> fst r \<and> fst r < stop) (kvdata s)"
    unfolding memory_scan_prefix_filter [OF assms] filter_filter
    by (rule filter_cong) (auto intro: between_common_prefix)
  moreover have "btree_range (kvdata s) start stop
      = filter (\<lambda>r. start \<le> fst r \<and> fst r < stop) (kvdata s)"
    using assms by (simp add: btree_range_filter memory_ok_def)
  ultimately show ?thesis by (simp add: default_scan_range_def memory_scan_range_def)
qed

section \<open>Version history\<close>

text \<open>One history row as a version, where both halves decode.\<close>

definition row_version :: "bytes \<times> bytes \<Rightarrow> version_record option" where
  "row_version r =
     (case (parse_history_key_times (fst r), decode_history_value (snd r)) of
        (Some (vf, tx), Some (vt, val)) \<Rightarrow>
          Some \<lparr>valid_from = vf, valid_to = vt, vtx = tx, vvalue = val\<rparr>
      | _ \<Rightarrow> None)"

lemma scan_history_loop_eq:
  "scan_history_loop p rs = List.map_filter row_version (takeWhile (\<lambda>r. starts_with (fst r) p) rs)"
  by (induction p rs rule: scan_history_loop.induct)
    (auto simp: row_version_def List.map_filter_simps split: option.splits prod.splits)

definition visible :: "i64 \<Rightarrow> i64 \<Rightarrow> version_record \<Rightarrow> bool" where
  "visible valid_at tx_at v \<longleftrightarrow> sint (vtx v) \<le> sint tx_at \<and> sint valid_at < sint (valid_to v)"

lemma as_of_loop_eq:
  "as_of_loop p valid_at tx_at rs =
     map_option vvalue (List.find (visible valid_at tx_at)
       (List.map_filter row_version (takeWhile (\<lambda>r. starts_with (fst r) p) rs)))"
  by (induction p valid_at tx_at rs rule: as_of_loop.induct)
    (auto simp: row_version_def visible_def List.map_filter_simps split: option.splits prod.splits)

definition history_rows :: "memory_kv \<Rightarrow> bytes \<Rightarrow> rows" where
  "history_rows s e = filter (\<lambda>r. starts_with (fst r) (history_prefix e)) (kvhistory s)"

lemma takeWhile_from:
  assumes "btree_ok m" and "p \<le> a"
  shows "takeWhile (\<lambda>r. starts_with (fst r) p) (btree_from m a)
           = filter (\<lambda>r. a \<le> fst r) (filter (\<lambda>r. starts_with (fst r) p) m)"
  unfolding btree_from_filter [OF assms(1)]
proof (subst takeWhile_filter)
  show "btree_ok (filter (\<lambda>r. a \<le> fst r) m)" using assms(1) by (rule btree_ok_filter)
  show "starts_with (fst x) p"
    if "x \<in> set (filter (\<lambda>r. a \<le> fst r) m)" "fst x < fst y" "starts_with (fst y) p" for x y
    using that assms(2) starts_with_interval [of p "fst x" "fst y"] by auto
qed (simp add: conj_commute)

lemma memory_scan_history_rows:
  assumes "memory_ok s"
  shows "memory_scan_history s e = List.map_filter row_version (history_rows s e)"
proof -
  have "filter (\<lambda>r. history_prefix e \<le> fst r) (history_rows s e) = history_rows s e"
    unfolding history_rows_def filter_filter by (rule filter_cong) (auto intro: starts_with_ge)
  then show ?thesis
    using assms unfolding memory_scan_history_def scan_history_loop_eq
    by (simp add: memory_ok_def takeWhile_from history_rows_def [symmetric])
qed

lemma memory_get_as_of_rows:
  assumes "memory_ok s"
  shows "memory_get_as_of s e va ta =
    map_option vvalue (List.find (visible va ta)
      (List.map_filter row_version (filter (\<lambda>r. history_key e va ta \<le> fst r) (history_rows s e))))"
proof -
  have "history_prefix e \<le> history_key e va ta" by (rule starts_with_ge) simp
  then show ?thesis
    using assms unfolding memory_get_as_of_def as_of_loop_eq
    by (simp add: memory_ok_def takeWhile_from history_rows_def [symmetric])
qed

lemma history_rows_key:
  assumes "memory_ok s" and "0 \<notin> set e" and "r \<in> set (history_rows s e)"
  obtains vf tx where "fst r = history_key e vf tx"
proof -
  have "history_row_ok (fst r)" and pre: "starts_with (fst r) (history_prefix e)"
    using assms(1,3) by (auto simp: history_rows_def memory_ok_def list_all_iff)
  then obtain e' vf tx where e': "0 \<notin> set e'" and k: "fst r = history_key e' vf tx"
    by (auto simp: history_row_ok_iff)
  from history_key_prefix_entity [OF e' assms(2)] pre k have "e' = e" by simp
  with k that show thesis by simp
qed

lemma row_version_key:
  "fst r = history_key e vf tx \<Longrightarrow> row_version r = Some v \<Longrightarrow> valid_from v = vf \<and> vtx v = tx"
  by (auto simp: row_version_def split: option.splits)

text \<open>The rows of one entity, and so its versions, are strictly newest first.\<close>

definition newest_first :: "version_record list \<Rightarrow> bool" where
  "newest_first vs \<longleftrightarrow>
     sorted_wrt (\<lambda>a b. newer (valid_from a, vtx a) (valid_from b, vtx b)) vs"

lemma newest_first_map_filter:
  assumes "btree_ok rs" and "\<And>r. r \<in> set rs \<Longrightarrow> \<exists>vf tx. fst r = history_key e vf tx"
  shows "newest_first (List.map_filter row_version rs)"
  using assms
proof (induction rs)
  case Nil
  show ?case by (simp add: newest_first_def List.map_filter_simps)
next
  case (Cons r rs)
  have ih: "newest_first (List.map_filter row_version rs)"
    using Cons by (auto simp: btree_ok_Cons)
  obtain vf tx where r: "fst r = history_key e vf tx" using Cons.prems(2) [of r] by auto
  have "newer (vf, tx) (valid_from v, vtx v)" if "v \<in> set (List.map_filter row_version rs)" for v
  proof -
    from that obtain q where q: "q \<in> set rs" "row_version q = Some v"
      by (auto simp: List.map_filter_def)
    obtain vf' tx' where k: "fst q = history_key e vf' tx'" using Cons.prems(2) [of q] q(1) by auto
    have "fst r < fst q" using Cons.prems(1) q(1) by (simp add: btree_ok_Cons)
    with r k row_version_key [OF k q(2)] show ?thesis by (simp add: history_key_less)
  qed
  with ih row_version_key [OF r] show ?case
    by (auto simp: newest_first_def List.map_filter_simps split: option.splits)
qed

lemma newest_first_history:
  assumes "memory_ok s" and "0 \<notin> set e"
  shows "newest_first (memory_scan_history s e)"
  unfolding memory_scan_history_rows [OF assms(1)]
proof (rule newest_first_map_filter)
  show "btree_ok (history_rows s e)"
    using assms(1) by (auto simp: history_rows_def memory_ok_def)
qed (blast elim: history_rows_key [OF assms])

lemma best_version_None:
  "newest_first vs \<Longrightarrow> best_version va ta (Some b) vs = Some b"
  if "\<And>v. v \<in> set vs \<Longrightarrow> newer (valid_from b, vtx b) (valid_from v, vtx v)"
  using that
proof (induction vs)
  case (Cons v vs)
  have "version_ge b v" using Cons.prems(2) [of v] by (auto simp: newer_def version_ge_def)
  with Cons show ?case by (simp add: newest_first_def)
qed simp

lemma best_version_find:
  "newest_first vs \<Longrightarrow> best_version va ta None vs = List.find (version_covers va ta) vs"
proof (induction vs)
  case (Cons v vs)
  then have "best_version va ta (Some v) vs = Some v"
    by (intro best_version_None) (auto simp: newest_first_def)
  with Cons show ?case by (simp add: newest_first_def)
qed simp

lemma find_map_filter_cong:
  assumes "\<And>r v. r \<in> set rs \<Longrightarrow> f r = Some v \<Longrightarrow> (Q r \<and> P v) = P' v"
  shows "List.find P (List.map_filter f (filter Q rs)) = List.find P' (List.map_filter f rs)"
  using assms
proof (induction rs)
  case (Cons r rs)
  then have ih: "List.find P (List.map_filter f (filter Q rs)) = List.find P' (List.map_filter f rs)"
    by simp
  show ?case
  proof (cases "f r")
    case None
    with ih show ?thesis by (simp add: List.map_filter_simps)
  next
    case (Some v)
    with Cons.prems [of r v] ih show ?thesis by (auto simp: List.map_filter_simps)
  qed
qed (simp add: List.map_filter_simps)

lemma seek_covers:
  assumes "fst r = history_key e vf tx" and "row_version r = Some v"
  shows "(history_key e va ta \<le> fst r \<and> visible va ta v) = version_covers va ta v"
proof -
  have "vf = valid_from v" and "tx = vtx v" using row_version_key [OF assms] by simp_all
  then show ?thesis
    by (auto simp: assms(1) history_key_le newer_def visible_def version_covers_def i64_eq_sint)
qed

section \<open>Entity keys of the history\<close>

definition entity_of_key :: "bytes \<Rightarrow> bytes" where
  "entity_of_key k = take (length k - 17) k"

definition has_version :: "memory_kv \<Rightarrow> bytes \<Rightarrow> bool" where
  "has_version s e \<longleftrightarrow> (\<exists>r \<in> set (kvhistory s). history_row_ok (fst r) \<and> entity_of_key (fst r) = e)"

lemma entity_of_history_key [simp]: "entity_of_key (history_key e vf tx) = e"
  by (simp add: entity_of_key_def history_key_def)

lemma separator_less:
  "x \<notin> set e' \<Longrightarrow> (\<And>y. x \<le> y) \<Longrightarrow> e < e' \<Longrightarrow> e @ x # s < e' @ x # (s' :: 'a::linorder list)"
proof (induction e arbitrary: e')
  case Nil
  then obtain y ys where "e' = y # ys" by (cases e') auto
  with Nil show ?case by (auto simp: less_le)
next
  case (Cons z e)
  then show ?case by (cases e') auto
qed

lemma history_key_entity_less:
  assumes "0 \<notin> set e'" and "e < e'"
  shows "history_key e vf tx < history_key e' vf' tx'"
  unfolding history_key_def append_Cons append_Nil
  using assms by (intro separator_less) (simp_all add: word_le_nat_alt)

lemma entity_mono:
  assumes "history_row_ok k" and "history_row_ok k'" and "k \<le> k'"
  shows "entity_of_key k \<le> entity_of_key k'"
proof (rule ccontr)
  obtain e vf tx where k: "0 \<notin> set e" "k = history_key e vf tx"
    using assms(1) by (auto simp: history_row_ok_iff)
  obtain e' vf' tx' where k': "0 \<notin> set e'" "k' = history_key e' vf' tx'"
    using assms(2) by (auto simp: history_row_ok_iff)
  assume "\<not> entity_of_key k \<le> entity_of_key k'"
  with k k' have "e' < e" by simp
  with k k' have "k' < k" by (simp add: history_key_entity_less)
  with assms(3) show False by simp
qed

lemma entity_keys_loop_spec:
  assumes "list_all (\<lambda>r. history_row_ok (fst r)) rs"
    and "sorted (map (\<lambda>r. entity_of_key (fst r)) rs)"
    and "sorted_wrt (<) out"
    and "\<And>r. out \<noteq> [] \<Longrightarrow> r \<in> set rs \<Longrightarrow> last out \<le> entity_of_key (fst r)"
  shows "sorted_wrt (<) (entity_keys_loop out rs) \<and>
         set (entity_keys_loop out rs) = set out \<union> (\<lambda>r. entity_of_key (fst r)) ` set rs"
  using assms
proof (induction out rs rule: entity_keys_loop.induct)
  case (2 out k v rs)
  let ?e = "entity_of_key k"
  have k: "\<not> (length k < 17 \<or> k ! (length k - 17) \<noteq> 0)"
    using "2.prems"(1) by (auto simp: history_row_ok_def)
  have rest: "list_all (\<lambda>r. history_row_ok (fst r)) rs" "sorted (map (\<lambda>r. entity_of_key (fst r)) rs)"
    using "2.prems"(1,2) by simp_all
  show ?case
  proof (cases "out \<noteq> [] \<and> last out = ?e")
    case True
    then have "?e \<in> set out" by (metis last_in_set)
    with True "2.IH"(2) [OF k refl] k rest "2.prems"(3,4) show ?thesis
      by (auto simp: entity_of_key_def)
  next
    case False
    have "\<forall>x \<in> set out. x < ?e"
    proof (cases "out = []")
      case ne: False
      then obtain us u where o: "out = us @ [u]" by (metis append_butlast_last_id)
      have "u < ?e" using False "2.prems"(4) [of "(k, v)"] o by auto
      with "2.prems"(3) o show ?thesis by (auto simp: sorted_wrt_append)
    qed simp
    then have srt: "sorted_wrt (<) (out @ [?e])" using "2.prems"(3) by (simp add: sorted_wrt_append)
    have le: "\<And>r. r \<in> set rs \<Longrightarrow> last (out @ [?e]) \<le> entity_of_key (fst r)"
      using "2.prems"(2) by simp
    have "sorted_wrt (<) (entity_keys_loop (out @ [?e]) rs) \<and>
          set (entity_keys_loop (out @ [?e]) rs) = set (out @ [?e]) \<union> (\<lambda>r. entity_of_key (fst r)) ` set rs"
      using "2.IH"(3) [OF k refl] False rest srt le by (simp add: entity_of_key_def)
    moreover have "entity_keys_loop out ((k, v) # rs) = entity_keys_loop (out @ [?e]) rs"
      using k False by (auto simp: entity_of_key_def Let_def)
    ultimately show ?thesis by auto
  qed
qed simp

lemma sorted_entities:
  "btree_ok rs \<Longrightarrow> list_all (\<lambda>r. history_row_ok (fst r)) rs \<Longrightarrow>
   sorted (map (\<lambda>r. entity_of_key (fst r)) rs)"
proof (induction rs)
  case (Cons r rs)
  then show ?case
    by (auto simp: btree_ok_Cons list_all_iff dest: less_imp_le intro!: entity_mono)
qed simp

lemma starts_with_entity:
  assumes "0 \<notin> set p"
  shows "starts_with (history_key e vf tx) p \<longleftrightarrow> starts_with e p"
proof
  assume "starts_with (history_key e vf tx) p"
  then obtain s where s: "e @ 0 # desc_i64 vf @ desc_i64 tx = p @ s"
    by (auto simp: starts_with_iff history_key_def)
  show "starts_with e p"
  proof (rule ccontr)
    assume n: "\<not> starts_with e p"
    from s obtain us where us: "e = p @ us \<or> p = e @ us"
      by (auto simp: append_eq_append_conv2)
    then consider us where "e = p @ us" | us where "p = e @ us" "us \<noteq> []"
      by (cases "us = []") auto
    then show False
    proof cases
      case 1
      with n show False by simp
    next
      case 2
      with s have "0 \<in> set p" by (cases us) auto
      with assms show False by simp
    qed
  qed
next
  assume "starts_with e p"
  then show "starts_with (history_key e vf tx) p"
    by (auto simp: starts_with_iff history_key_def)
qed

section \<open>Visiting, bulk deletion and counters\<close>

definition limit_left :: "nat option \<Rightarrow> nat \<Rightarrow> nat option" where
  "limit_left limit n = map_option (\<lambda>l. l - n) limit"

lemma memory_visit_loop_eq:
  "(case limit of None \<Rightarrow> True | Some l \<Rightarrow> n < l) \<Longrightarrow>
   memory_visit_loop flt visitor limit st n rs =
     visit_rows visitor st n (take_limit (limit_left limit n) (filter (\<lambda>(k, v). flt k v) rs))"
proof (induction rs arbitrary: st n)
  case Nil
  show ?case by (cases limit) (simp_all add: take_limit_def limit_left_def)
next
  case (Cons r rs)
  obtain k v where r: "r = (k, v)" by (cases r)
  obtain go st' where vis: "visitor st k v = (go, st')" by (cases "visitor st k v")
  show ?case
  proof (cases limit)
    case None
    with Cons r vis show ?thesis by (cases go) (simp_all add: take_limit_def limit_left_def)
  next
    case (Some l)
    with Cons.prems have "n < l" by simp
    then obtain m where m: "l - n = Suc m" and m': "m = l - Suc n" by (metis Suc_diff_Suc)
    show ?thesis
    proof (cases "l \<le> Suc n")
      case True
      with m m' have "m = 0" by simp
      with Some Cons r vis m True show ?thesis
        by (cases go) (simp_all add: take_limit_def limit_left_def)
    next
      case False
      with Some Cons r vis m m' show ?thesis
        by (cases go) (simp_all add: take_limit_def limit_left_def)
    qed
  qed
qed

abbreviation memory_batch_delete_op :: "memory_kv \<Rightarrow> bytes list \<Rightarrow> ('e + unit) \<times> memory_kv" where
  "memory_batch_delete_op s ks \<equiv> (Inr (), memory_batch_delete s ks)"

lemma batch_delete_all_memory:
  "batch_delete_all memory_batch_delete_op s cs = (Inr (), memory_batch_delete s (concat cs))"
  by (induction cs arbitrary: s) (simp_all add: memory_batch_delete_def)

lemma memory_get_put [simp]: "memory_get (memory_put s k v) = (memory_get s)(k \<mapsto> v)"
  by (simp add: memory_get_def memory_put_def fun_eq_iff)

lemma memory_get_delete [simp]: "memory_get (memory_delete s k) = (memory_get s)(k := None)"
  by (simp add: memory_get_def memory_delete_def fun_eq_iff)

lemma memory_get_batch_delete [simp]:
  "memory_get (memory_batch_delete s ks) k = (if k \<in> set ks then None else memory_get s k)"
  unfolding memory_batch_delete_eq by (induction ks arbitrary: s) auto

lemma memory_get_batch_put [simp]:
  "memory_get (memory_batch_put s pairs) = memory_get s ++ map_of (rev pairs)"
  unfolding memory_batch_put_eq
proof (induction pairs arbitrary: s)
  case (Cons r pairs)
  then show ?case by (cases r) (simp add: fun_eq_iff map_add_def split: option.splits)
qed simp

lemma memory_get_put_version [simp]: "memory_get (memory_put_version s e vf vt tx v) = memory_get s"
  by (simp add: memory_get_def memory_put_version_def fun_eq_iff)

lemma memory_get_batch_put_version [simp]:
  "memory_get (memory_batch_put_version s vs) = memory_get s"
  unfolding memory_batch_put_version_def by (induction vs arbitrary: s) auto

definition memory_counter :: "memory_kv \<Rightarrow> bytes \<Rightarrow> int" where
  "memory_counter s k = sint (counter_of (memory_get s k))"

fun spec_add_counters :: "(bytes \<Rightarrow> int) \<Rightarrow> (bytes \<times> i64) list \<Rightarrow> bytes \<Rightarrow> int" where
  "spec_add_counters f [] = f"
| "spec_add_counters f ((k, d) # ds) = spec_add_counters (f(k := max 0 (f k + sint d))) ds"

fun counters_fit :: "(bytes \<Rightarrow> int) \<Rightarrow> (bytes \<times> i64) list \<Rightarrow> bool" where
  "counters_fit f [] = True"
| "counters_fit f ((k, d) # ds) =
     (- (2 ^ 63) \<le> f k + sint d \<and> f k + sint d < 2 ^ 63 \<and> counters_fit (f(k := max 0 (f k + sint d))) ds)"

abbreviation memory_add_counters :: "memory_kv \<Rightarrow> (bytes \<times> i64) list \<Rightarrow> (unit + unit) \<times> memory_kv" where
  "memory_add_counters \<equiv>
     default_add_counters (\<lambda>s k. Inr (memory_get s k)) (\<lambda>s k v. (Inr (), memory_put s k v))
       (\<lambda>s k. (Inr (), memory_delete s k))"

lemma counter_of_le [simp]: "counter_of (Some (u64_to_le n)) = n"
  by (simp add: counter_of_def)

lemma counter_of_None [simp]: "counter_of None = 0"
  by (simp add: counter_of_def)

lemma sint_i64_add:
  assumes "- (2 ^ 63) \<le> sint a + sint b" and "sint a + sint b < 2 ^ 63"
  shows "sint ((a::i64) + b) = sint a + sint b"
proof -
  have "sint (a + b) = signed_take_bit 63 (sint a + sint b)"
    by (simp add: sint_word_ariths)
  also have "\<dots> = sint a + sint b"
    using assms by (intro signed_take_bit_int_eq_self) simp_all
  finally show ?thesis .
qed

lemma memory_add_counters_spec:
  "counters_fit (memory_counter s) deltas \<Longrightarrow>
   fst (memory_add_counters s deltas) = Inr () \<and>
   memory_counter (snd (memory_add_counters s deltas)) = spec_add_counters (memory_counter s) deltas"
proof (induction deltas arbitrary: s)
  case (Cons kd deltas)
  obtain k d where kd: "kd = (k, d)" by (cases kd)
  let ?c = "counter_of (memory_get s k)"
  let ?s' = "if sint (?c + d) \<le> 0 then memory_delete s k else memory_put s k (u64_to_le (?c + d))"
  have sum: "sint (?c + d) = memory_counter s k + sint d"
    using Cons.prems kd unfolding memory_counter_def by (intro sint_i64_add) simp_all
  have cnt: "memory_counter ?s' = (memory_counter s)(k := max 0 (memory_counter s k + sint d))"
    using sum by (auto simp: memory_counter_def fun_eq_iff)
  have step: "memory_add_counters s ((k, d) # deltas) = memory_add_counters ?s' deltas"
    by (simp add: Let_def)
  have "fst (memory_add_counters ?s' deltas) = Inr () \<and>
        memory_counter (snd (memory_add_counters ?s' deltas)) = spec_add_counters (memory_counter ?s') deltas"
    using Cons.prems unfolding kd counters_fit.simps by (intro Cons.IH) (simp only: cnt)
  then show ?case
    unfolding kd step cnt spec_add_counters.simps .
qed simp

section \<open>The contract of a key-value store\<close>

text \<open>
  What the storage layers hold is an \<open>Arc<dyn KVStore>\<close>: the record lists the methods they call,
  the locale what each promises of the map \<open>view\<close> the store represents. A failing call may
  leave the store in any well-formed state with an unchanged view.
\<close>

record ('s, 'e) kvstore =
  kv_get :: "'s \<Rightarrow> bytes \<Rightarrow> 'e + bytes option"
  kv_put :: "'s \<Rightarrow> bytes \<Rightarrow> bytes \<Rightarrow> ('e + unit) \<times> 's"
  kv_delete :: "'s \<Rightarrow> bytes \<Rightarrow> ('e + unit) \<times> 's"
  kv_scan_prefix :: "'s \<Rightarrow> bytes \<Rightarrow> 'e + rows"
  kv_batch_put :: "'s \<Rightarrow> rows \<Rightarrow> ('e + unit) \<times> 's"

definition rows_of :: "(bytes \<Rightarrow> bytes option) \<Rightarrow> bytes \<Rightarrow> rows \<Rightarrow> bool" where
  "rows_of m p rs \<longleftrightarrow>
     btree_ok rs \<and> (\<forall>k. map_of rs k = (if starts_with k p then m k else None))"

locale kv_contract =
  fixes ops :: "('s, 'e) kvstore" and view :: "'s \<Rightarrow> bytes \<Rightarrow> bytes option" and wf :: "'s \<Rightarrow> bool"
  assumes get_view: "wf s \<Longrightarrow> kv_get ops s k = Inr r \<Longrightarrow> r = view s k"
    and put_view: "wf s \<Longrightarrow> kv_put ops s k v = (Inr u, s') \<Longrightarrow> wf s' \<and> view s' = (view s)(k \<mapsto> v)"
    and put_error: "wf s \<Longrightarrow> kv_put ops s k v = (Inl e, s') \<Longrightarrow> wf s' \<and> view s' = view s"
    and delete_view: "wf s \<Longrightarrow> kv_delete ops s k = (Inr u, s') \<Longrightarrow> wf s' \<and> view s' = (view s)(k := None)"
    and delete_error: "wf s \<Longrightarrow> kv_delete ops s k = (Inl e, s') \<Longrightarrow> wf s' \<and> view s' = view s"
    and scan_view: "wf s \<Longrightarrow> kv_scan_prefix ops s p = Inr rs \<Longrightarrow> rows_of (view s) p rs"
    and batch_put_view: "wf s \<Longrightarrow> kv_batch_put ops s ps = (Inr u, s') \<Longrightarrow> wf s' \<and> view s' = view s ++ map_of (rev ps)"
    and batch_put_error: "wf s \<Longrightarrow> kv_batch_put ops s ps = (Inl e, s') \<Longrightarrow> wf s' \<and> view s' = view s"
begin

lemma scan_get:
  assumes "wf s" and "kv_scan_prefix ops s p = Inr rs" and "starts_with k p"
  shows "map_of rs k = view s k"
  using scan_view [OF assms(1,2)] assms(3) by (simp add: rows_of_def)

lemma put_wf: "wf s \<Longrightarrow> kv_put ops s k v = (r, s') \<Longrightarrow> wf s'"
  using put_view put_error by (cases r) blast+

lemma delete_wf: "wf s \<Longrightarrow> kv_delete ops s k = (r, s') \<Longrightarrow> wf s'"
  using delete_view delete_error by (cases r) blast+

end

text \<open>A store whose calls never fail, as the in-memory one.\<close>

locale kv_reliable = kv_contract +
  assumes get_ok: "\<exists>r. kv_get ops s k = Inr r"
    and put_ok: "\<exists>s'. kv_put ops s k v = (Inr (), s')"
    and delete_ok: "\<exists>s'. kv_delete ops s k = (Inr (), s')"
    and scan_ok: "\<exists>rs. kv_scan_prefix ops s p = Inr rs"
    and batch_put_ok: "\<exists>s'. kv_batch_put ops s ps = (Inr (), s')"
begin

lemma get_eq: "wf s \<Longrightarrow> kv_get ops s k = Inr (view s k)"
  using get_ok [of s k] get_view by metis

lemma put_eq: "wf s \<Longrightarrow> \<exists>s'. kv_put ops s k v = (Inr (), s') \<and> wf s' \<and> view s' = (view s)(k \<mapsto> v)"
  using put_ok [of s k v] put_view by blast

lemma delete_eq: "wf s \<Longrightarrow> \<exists>s'. kv_delete ops s k = (Inr (), s') \<and> wf s' \<and> view s' = (view s)(k := None)"
  using delete_ok [of s k] delete_view by blast

lemma scan_eq: "wf s \<Longrightarrow> \<exists>rs. kv_scan_prefix ops s p = Inr rs \<and> rows_of (view s) p rs"
  using scan_ok [of s p] scan_view by blast

end

definition memory_ops :: "(memory_kv, 'e) kvstore" where
  "memory_ops =
     \<lparr>kv_get = \<lambda>s k. Inr (memory_get s k),
      kv_put = \<lambda>s k v. (Inr (), memory_put s k v),
      kv_delete = \<lambda>s k. (Inr (), memory_delete s k),
      kv_scan_prefix = \<lambda>s p. Inr (memory_scan_prefix s p),
      kv_batch_put = \<lambda>s ps. (Inr (), memory_batch_put s ps)\<rparr>"

lemma memory_scan_rows_of: "memory_ok s \<Longrightarrow> rows_of (memory_get s) p (memory_scan_prefix s p)"
  by (auto simp: rows_of_def memory_scan_prefix_filter memory_get_def memory_ok_def
      map_of_filter_key [where P = "\<lambda>k. starts_with k p"] intro: btree_ok_filter)

interpretation memory: kv_reliable memory_ops memory_get memory_ok
proof (unfold_locales, goal_cases)
  case (6 s p rs)
  then show ?case by (auto simp: memory_ops_def memory_scan_rows_of)
qed (auto simp: memory_ops_def intro: memory_ok_intros)

abbreviation memory_ops_scan :: "memory_kv \<Rightarrow> bytes \<Rightarrow> 'e + rows" where
  "memory_ops_scan s p \<equiv> Inr (memory_scan_prefix s p)"

section \<open>Properties\<close>

text \<open>
  C20. The seeking \<open>get_as_of\<close> of the in-memory store, which starts at the first key not newer than
  the query and stops at the first visible row, returns what the trait's default returns, which
  loads the whole history and keeps the covering version with the greatest \<open>(valid_from, tx)\<close>.
\<close>

theorem get_as_of_seek:
  assumes "memory_ok s" and "0 \<notin> set e"
  shows "default_get_as_of (\<lambda>s k. Inr (memory_scan_history s k)) s e va ta = Inr (memory_get_as_of s e va ta)"
proof -
  let ?rows = "history_rows s e"
  let ?Q = "\<lambda>r. history_key e va ta \<le> fst r"
  have "best_version va ta None (List.map_filter row_version ?rows)
      = List.find (version_covers va ta) (List.map_filter row_version ?rows)"
    using best_version_find [OF newest_first_history [OF assms]]
    by (simp add: memory_scan_history_rows assms)
  also have "\<dots> = List.find (visible va ta) (List.map_filter row_version (filter ?Q ?rows))"
  proof (rule find_map_filter_cong [symmetric])
    show "(?Q r \<and> visible va ta v) = version_covers va ta v"
      if "r \<in> set ?rows" and "row_version r = Some v" for r v
      using that history_rows_key [OF assms that(1)] seek_covers by metis
  qed
  finally show ?thesis
    by (simp add: default_get_as_of_def memory_scan_history_rows memory_get_as_of_rows assms)
qed

definition sample_store :: memory_kv where
  "sample_store =
     memory_put_version (memory_put_version (memory_put_version
       (memory_put (memory_put memory_new [1, 2] [7]) [1, 3] [8])
       [5] 10 20 1 [100]) [5] 15 VALID_OPEN 2 [101]) [6] (- 3) 4 3 [102]"

lemma sample_store_ok: "memory_ok sample_store"
  unfolding sample_store_def by (intro memory_ok_intros) simp_all

theorem get_as_of_seek_witness:
  "memory_ok sample_store \<and> (0::u8) \<notin> set [5] \<and>
   default_get_as_of (\<lambda>s k. Inr (memory_scan_history s k)) sample_store [5] 17 1
     = (Inr (memory_get_as_of sample_store [5] 17 1) :: unit + bytes option)"
  using sample_store_ok get_as_of_seek [OF sample_store_ok, of "[5]" 17 1] by simp

text \<open>
  \<open>scan_history\<close> of the in-memory store lists exactly the versions recorded for the entity (a
  version is there iff its key holds its encoding), strictly newest first by
  \<open>(valid_from, tx)\<close>.
\<close>

theorem scan_history_complete:
  assumes "memory_ok s" and "0 \<notin> set e"
  shows "newest_first (memory_scan_history s e) \<and>
    (\<forall>v. v \<in> set (memory_scan_history s e) \<longleftrightarrow>
       (\<exists>b. map_of (kvhistory s) (history_key e (valid_from v) (vtx v)) = Some b \<and>
            decode_history_value b = Some (valid_to v, vvalue v)))"
proof (intro conjI allI newest_first_history [OF assms])
  fix v :: version_record
  have ok: "btree_ok (kvhistory s)" using assms(1) by (simp add: memory_ok_def)
  show "v \<in> set (memory_scan_history s e) \<longleftrightarrow>
     (\<exists>b. map_of (kvhistory s) (history_key e (valid_from v) (vtx v)) = Some b \<and>
          decode_history_value b = Some (valid_to v, vvalue v))" (is "?L \<longleftrightarrow> ?R")
  proof
    assume ?L
    then obtain r where r: "r \<in> set (history_rows s e)" "row_version r = Some v"
      by (auto simp: memory_scan_history_rows [OF assms(1)] List.map_filter_def)
    obtain vf tx where k: "fst r = history_key e vf tx" using history_rows_key [OF assms r(1)] .
    then have "fst r = history_key e (valid_from v) (vtx v)" using row_version_key [OF k r(2)] by simp
    moreover have "decode_history_value (snd r) = Some (valid_to v, vvalue v)"
      using r(2) by (auto simp: row_version_def split: option.splits)
    moreover have "map_of (kvhistory s) (fst r) = Some (snd r)"
      using r(1) ok btree_ok_in_set [OF ok, of "fst r" "snd r"] by (simp add: history_rows_def)
    ultimately show ?R by auto
  next
    assume ?R
    then obtain b where b: "map_of (kvhistory s) (history_key e (valid_from v) (vtx v)) = Some b"
      "decode_history_value b = Some (valid_to v, vvalue v)" by blast
    let ?r = "(history_key e (valid_from v) (vtx v), b)"
    have "?r \<in> set (history_rows s e)"
      using b(1) by (simp add: history_rows_def map_of_SomeD)
    moreover have "row_version ?r = Some v"
      using b(2) by (simp add: row_version_def parse_history_key)
    ultimately show ?L
      by (force simp: memory_scan_history_rows [OF assms(1)] List.map_filter_def)
  qed
qed

theorem scan_history_complete_witness:
  "memory_ok sample_store \<and> (0::u8) \<notin> set [5] \<and> newest_first (memory_scan_history sample_store [5])"
  using sample_store_ok scan_history_complete [OF sample_store_ok, of "[5]"] by simp

text \<open>
  \<open>scan_history_entity_keys\<close> returns the entities under a prefix that have at least one
  recorded version, each once and in ascending key order.
\<close>

theorem entity_keys_complete:
  assumes "memory_ok s" and "0 \<notin> set p"
  shows "sorted_wrt (<) (memory_scan_history_entity_keys s p) \<and>
    set (memory_scan_history_entity_keys s p) = {e. starts_with e p \<and> has_version s e}"
proof -
  let ?rs = "btree_prefix (kvhistory s) p"
  have rs: "?rs = filter (\<lambda>r. starts_with (fst r) p) (kvhistory s)"
    using assms(1) by (simp add: btree_prefix_filter memory_ok_def)
  have rows: "btree_ok ?rs" "list_all (\<lambda>r. history_row_ok (fst r)) ?rs"
    using assms(1) unfolding rs by (auto simp: memory_ok_def list_all_iff)
  have "starts_with (fst r) p \<longleftrightarrow> starts_with (entity_of_key (fst r)) p" if "history_row_ok (fst r)" for r
    using that starts_with_entity [OF assms(2)] by (auto simp: history_row_ok_iff)
  then have "(\<lambda>r. entity_of_key (fst r)) ` set ?rs = {e. starts_with e p \<and> has_version s e}"
    using assms(1) unfolding rs has_version_def by (force simp: memory_ok_def list_all_iff)
  with entity_keys_loop_spec [OF rows(2) sorted_entities [OF rows], of "[]"] show ?thesis
    by (simp add: memory_scan_history_entity_keys_def)
qed

theorem entity_keys_complete_witness:
  "memory_ok sample_store \<and> (0::u8) \<notin> set [] \<and>
   set (memory_scan_history_entity_keys sample_store []) = {e. starts_with e [] \<and> has_version sample_store e}"
  using sample_store_ok entity_keys_complete [OF sample_store_ok, of "[]"] by simp

text \<open>
  \<open>scan_range\<close> over the ordered map returns the rows, in order and up to the limit, that the
  trait's default finds by filtering a scan of the bounds' common prefix.
\<close>

theorem scan_range_override:
  assumes "memory_ok s"
  shows "default_scan_range memory_ops_scan s start stop limit = Inr (memory_scan_range s start stop limit)"
  by (rule memory_scan_range_eq_default [OF assms])

theorem scan_range_override_witness:
  "memory_ok sample_store \<and>
   default_scan_range memory_ops_scan sample_store [1, 2] [1, 9] (Some 1)
     = (Inr (memory_scan_range sample_store [1, 2] [1, 9] (Some 1)) :: unit + rows)"
  using sample_store_ok scan_range_override [OF sample_store_ok] by blast

text \<open>
  The early-terminating \<open>scan_with_filter_visit\<close> visits the same rows, in the same order and with
  the same count and visitor state, as the default, which first materialises the filtered,
  limited rows.
\<close>

theorem visit_override:
  "default_scan_with_filter_visit (\<lambda>s p flt limit. Inr (memory_scan_with_filter s p flt limit))
     s p flt visitor st limit
   = Inr (memory_scan_with_filter_visit s p flt visitor st limit)"
proof (cases "limit = Some 0")
  case True
  then show ?thesis
    by (simp add: default_scan_with_filter_visit_def memory_scan_with_filter_def
        memory_scan_with_filter_visit_def take_limit_def)
next
  case False
  then have "case limit of None \<Rightarrow> True | Some l \<Rightarrow> 0 < l" by (cases limit) auto
  moreover have "limit_left limit 0 = limit" by (cases limit) (simp_all add: limit_left_def)
  ultimately show ?thesis
    using False
    by (simp add: default_scan_with_filter_visit_def memory_scan_with_filter_def
        memory_scan_with_filter_visit_def memory_visit_loop_eq)
qed

text \<open>
  \<open>delete_prefix_chunked\<close> on the in-memory store, for every chunk size, removes exactly the keys
  with the prefix, leaves the other keys and the history as they were, keeps the store well
  formed, and returns the number of keys it removed.
\<close>

theorem delete_prefix_chunked_correct:
  assumes "memory_ok s"
  shows "\<exists>s'. default_delete_prefix_chunked memory_ops_scan memory_batch_delete_op s p chunk
            = (Inr (length (memory_scan_prefix s p)), s')
      \<and> memory_ok s' \<and> kvhistory s' = kvhistory s
      \<and> (\<forall>k. memory_get s' k = (if starts_with k p then None else memory_get s k))"
proof -
  let ?ks = "map fst (memory_scan_prefix s p)"
  let ?s' = "memory_batch_delete s ?ks"
  have "default_delete_prefix_chunked memory_ops_scan memory_batch_delete_op s p chunk
        = (Inr (length (memory_scan_prefix s p)), ?s')"
    by (simp add: default_delete_prefix_chunked_def batch_delete_all_memory concat_chunks)
  moreover have "k \<in> set ?ks \<longleftrightarrow> starts_with k p \<and> memory_get s k \<noteq> None" for k
    by (auto simp: image_iff Bex_def memory_scan_prefix_set [OF assms])
  moreover have "kvhistory (memory_batch_delete s ks) = kvhistory s" for ks
    unfolding memory_batch_delete_def by (induction ks arbitrary: s) simp_all
  ultimately show ?thesis
    using assms by (intro exI [of _ ?s']) (auto intro: memory_ok_intros)
qed

theorem delete_prefix_chunked_correct_witness:
  "memory_ok sample_store \<and>
   (\<exists>s'. default_delete_prefix_chunked memory_ops_scan memory_batch_delete_op sample_store [1] 1
       = ((Inr (length (memory_scan_prefix sample_store [1])) :: unit + nat), s') \<and> memory_get s' [1, 2] = None)"
  using sample_store_ok delete_prefix_chunked_correct [OF sample_store_ok, of "[1]" 1]
  by (metis starts_with_append append_Cons append_Nil)

text \<open>
  C22. \<open>add_counters\<close> refines integer counters: when no sum leaves the \<open>i64\<close> range, every counter
  becomes the sum clamped at zero, deltas applied in order, and a counter at zero is a
  deleted key.
\<close>

theorem add_counters_refines:
  assumes "counters_fit (memory_counter s) deltas"
  shows "fst (memory_add_counters s deltas) = Inr () \<and>
         memory_counter (snd (memory_add_counters s deltas)) = spec_add_counters (memory_counter s) deltas"
  by (rule memory_add_counters_spec [OF assms])

theorem add_counters_refines_witness:
  "counters_fit (memory_counter memory_new) [([9], 3), ([9], - 5)] \<and>
   memory_counter (snd (memory_add_counters memory_new [([9], 3), ([9], - 5)]))
     = spec_add_counters (memory_counter memory_new) [([9], 3), ([9], - 5)]"
proof -
  have "memory_counter memory_new = (\<lambda>_. 0)"
    by (simp add: fun_eq_iff memory_counter_def memory_get_def memory_new_def)
  then have "counters_fit (memory_counter memory_new) [([9], 3), ([9], - 5)]" by simp
  then show ?thesis using add_counters_refines by blast
qed

text \<open>
  \<open>batch_apply\<close> in one lock is the trait's sequence of batch put, batch delete and batch
  version write: a deleted key is gone even when the same batch puts it, the last put of a key
  wins, and the other keys keep their values.
\<close>

theorem batch_apply_correct:
  "default_batch_apply (\<lambda>s ps. (Inr (), memory_batch_put s ps)) memory_batch_delete_op
     (\<lambda>s vs. (Inr (), memory_batch_put_version s vs)) s puts deletes versions
   = (Inr (), memory_batch_apply s puts deletes versions) \<and>
   memory_get (memory_batch_apply s puts deletes versions) k =
     (if k \<in> set deletes then None
      else case map_of (rev puts) k of Some v \<Rightarrow> Some v | None \<Rightarrow> memory_get s k)"
proof
  have "memory_batch_put s [] = s" "memory_batch_delete s' [] = s'" "memory_batch_put_version s' [] = s'" for s s'
    by (simp_all add: memory_batch_put_def memory_batch_delete_def memory_batch_put_version_def)
  then show "default_batch_apply (\<lambda>s ps. (Inr (), memory_batch_put s ps)) memory_batch_delete_op
     (\<lambda>s vs. (Inr (), memory_batch_put_version s vs)) s puts deletes versions
   = (Inr (), memory_batch_apply s puts deletes versions)"
    by (simp add: default_batch_apply_def memory_batch_apply_eq)
qed (simp add: memory_batch_apply_eq map_add_def)

end
