(* ===== verification/RaftTypes.thy ===== *)
theory RaftTypes
  imports Prelude
begin

text \<open>
  The data of the Raft module (\<^verbatim>\<open>byoridb-storage/src/raft/types.rs\<close>): identifiers, log entries and
  commands, the cluster configuration with its operations, and the RPC messages. A
  \<open>HashMap\<close> is an association list with distinct keys: \<open>insert\<close> and \<open>remove\<close> are \<open>AList.update\<close> and
  \<open>AList.delete\<close>, and every iteration over one in the module is insensitive to the order.

  The lemmas: the configuration keeps its voters distinct and its voters and nodes in step,
  and any two majorities of one configuration share a voter.
\<close>

type_synonym node_id = u64
type_synonym log_index = u64
type_synonym raft_term = u64
type_synonym ('k, 'v) hash_map = "('k \<times> 'v) list"

datatype raft_state = Follower | Candidate | Leader

datatype config_change =
    AddNode node_id string
  | RemoveNode node_id

datatype command =
    Noop
  | Put u32 u32 bytes bytes
  | Delete u32 u32 bytes
  | ConfigChange config_change

record log_entry =
  eterm :: raft_term
  eindex :: log_index
  ecommand :: command

record node_info =
  ni_id :: node_id
  ni_addr :: string
  ni_port :: u32

record cluster_config =
  nodes :: "(node_id, node_info) hash_map"
  voters :: "node_id list"

definition cluster_config_new :: cluster_config where
  "cluster_config_new = \<lparr>nodes = [], voters = []\<rparr>"

definition add_node :: "cluster_config \<Rightarrow> node_info \<Rightarrow> cluster_config" where
  "add_node c info =
     (let id = ni_id info;
          c = c\<lparr>nodes := AList.update id info (nodes c)\<rparr>
      in if id \<notin> set (voters c) then c\<lparr>voters := voters c @ [id]\<rparr> else c)"

definition remove_node :: "cluster_config \<Rightarrow> node_id \<Rightarrow> cluster_config" where
  "remove_node c node_id =
     c\<lparr>nodes := AList.delete node_id (nodes c), voters := filter (\<lambda>id. id \<noteq> node_id) (voters c)\<rparr>"

definition get_node :: "cluster_config \<Rightarrow> node_id \<Rightarrow> node_info option" where
  "get_node c node_id = map_of (nodes c) node_id"

definition majority :: "cluster_config \<Rightarrow> nat" where
  "majority c = length (voters c) div 2 + 1"

record request_vote_request =
  rv_term :: raft_term
  rv_candidate_id :: node_id
  rv_last_log_index :: log_index
  rv_last_log_term :: raft_term

record request_vote_response =
  rvr_term :: raft_term
  rvr_vote_granted :: bool

record append_entries_request =
  ae_term :: raft_term
  ae_leader_id :: node_id
  ae_prev_log_index :: log_index
  ae_prev_log_term :: raft_term
  ae_entries :: "log_entry list"
  ae_leader_commit :: log_index

record append_entries_response =
  aer_term :: raft_term
  aer_success :: bool
  aer_match_index :: log_index

record install_snapshot_request =
  is_term :: raft_term
  is_leader_id :: node_id
  is_last_included_index :: log_index
  is_last_included_term :: raft_term
  is_offset :: u64
  is_data :: bytes
  is_done :: bool

record install_snapshot_response =
  isr_term :: raft_term

datatype raft_message =
    RequestVote request_vote_request
  | RequestVoteResponse request_vote_response
  | AppendEntries append_entries_request
  | AppendEntriesResponse append_entries_response
  | InstallSnapshot install_snapshot_request
  | InstallSnapshotResponse install_snapshot_response

section \<open>Cluster configurations\<close>

definition config_ok :: "cluster_config \<Rightarrow> bool" where
  "config_ok c \<longleftrightarrow>
     distinct (voters c) \<and> distinct (map fst (nodes c)) \<and> set (voters c) = fst ` set (nodes c)"

lemma config_ok_new: "config_ok cluster_config_new"
  by (simp add: config_ok_def cluster_config_new_def)

lemma config_ok_add_node: "config_ok c \<Longrightarrow> config_ok (add_node c info)"
  by (auto simp: config_ok_def add_node_def Let_def distinct_update dom_update)

lemma set_fst_delete: "fst ` set (AList.delete k m) = fst ` set m - {k}"
  by (auto simp: AList.delete_eq image_iff)

lemma config_ok_remove_node: "config_ok c \<Longrightarrow> config_ok (remove_node c n)"
  by (auto simp: config_ok_def remove_node_def set_fst_delete AList.distinct_delete)

lemma voters_add_node: "set (voters (add_node c info)) = insert (ni_id info) (set (voters c))"
  by (auto simp: add_node_def Let_def)

lemma get_node_add_node: "get_node (add_node c info) = (get_node c)(ni_id info \<mapsto> info)"
  by (simp add: get_node_def add_node_def Let_def update_conv' fun_eq_iff)

lemma get_node_remove_node: "get_node (remove_node c n) = (get_node c)(n := None)"
  by (simp add: get_node_def remove_node_def delete_conv' fun_eq_iff)

text \<open>Two majorities of one configuration intersect.\<close>

lemma quorum_intersect:
  assumes "A \<subseteq> set (voters c)" and "B \<subseteq> set (voters c)"
    and "majority c \<le> card A" and "majority c \<le> card B"
  shows "A \<inter> B \<noteq> {}"
proof
  assume "A \<inter> B = {}"
  then have "card A + card B = card (A \<union> B)"
    using assms(1,2) finite_subset by (metis List.finite_set card_Un_disjoint)
  also have "\<dots> \<le> card (set (voters c))" using assms(1,2) by (intro card_mono) auto
  also have "\<dots> \<le> length (voters c)" by (rule card_length)
  finally show False using assms(3,4) by (auto simp: majority_def)
qed

end
