(* ===== verification/RaftLog.thy ===== *)
theory RaftLog
  imports RaftTypes
begin

text \<open>
  The in-memory Raft log (\<^verbatim>\<open>byoridb-storage/src/raft/log.rs\<close>). Indices are \<open>u64\<close> and wrap; \<open>usize\<close> offsets
  are \<open>nat\<close>; a slice out of range is a panic, the value \<open>None\<close>. The optional \<open>kvstore\<close> of the struct
  is never read and has no field here, so both constructors are \<open>raft_log_new\<close>.

  \<open>log_ok\<close> says that entry \<open>i\<close> has index \<open>first_index + i\<close> and that the indices fit in a \<open>u64\<close>. Under it
  the log is a finite map from indices to entries (\<open>log_view\<close>) and each operation has the
  effect on it that the abstract operation has.
\<close>

record raft_log =
  entries :: "log_entry list"
  first_index :: log_index
  snapshot_term :: raft_term
  log_space_id :: u32
  log_part_id :: u32

definition raft_log_new :: "u32 \<Rightarrow> u32 \<Rightarrow> raft_log" where
  "raft_log_new space_id part_id =
     \<lparr>entries = [], first_index = 1, snapshot_term = 0, log_space_id = space_id, log_part_id = part_id\<rparr>"

definition last_index :: "raft_log \<Rightarrow> log_index" where
  "last_index l =
     (if entries l = [] then saturating_sub (first_index l) 1
      else first_index l + of_nat (length (entries l)) - 1)"

definition last_term :: "raft_log \<Rightarrow> raft_term" where
  "last_term l = (if entries l = [] then snapshot_term l else eterm (last (entries l)))"

text \<open>\<open>Vec::get\<close> of a slice.\<close>

definition vec_get :: "'a list \<Rightarrow> nat \<Rightarrow> 'a option" where
  "vec_get xs i = (if i < length xs then Some (xs ! i) else None)"

definition log_get :: "raft_log \<Rightarrow> log_index \<Rightarrow> log_entry option" where
  "log_get l i =
     (if i < first_index l \<or> last_index l < i then None
      else vec_get (entries l) (unat (i - first_index l)))"

definition log_term :: "raft_log \<Rightarrow> log_index \<Rightarrow> raft_term option" where
  "log_term l i =
     (if i = 0 then Some 0
      else if i < first_index l then
        (if i = first_index l - 1 then Some (snapshot_term l) else None)
      else map_option eterm (log_get l i))"

definition log_append :: "raft_log \<Rightarrow> log_entry list \<Rightarrow> raft_log" where
  "log_append l es = foldl (\<lambda>l e. l\<lparr>entries := entries l @ [e]\<rparr>) l es"

definition append_entry :: "raft_log \<Rightarrow> raft_term \<Rightarrow> command \<Rightarrow> log_index \<times> raft_log" where
  "append_entry l t c =
     (let i = last_index l + 1;
          e = \<lparr>eterm = t, eindex = i, ecommand = c\<rparr>
      in (i, l\<lparr>entries := entries l @ [e]\<rparr>))"

definition log_truncate :: "raft_log \<Rightarrow> log_index \<Rightarrow> raft_log" where
  "log_truncate l from_index =
     (if from_index \<le> first_index l then l\<lparr>entries := []\<rparr>
      else if from_index \<le> last_index l
      then l\<lparr>entries := take (unat (from_index - first_index l)) (entries l)\<rparr>
      else l)"

definition entries_from :: "raft_log \<Rightarrow> log_index \<Rightarrow> log_entry list option" where
  "entries_from l start_index =
     (if last_index l < start_index then Some []
      else (let start = (if start_index < first_index l then 0 else unat (start_index - first_index l))
            in subslice (entries l) start (length (entries l))))"

definition entries_range :: "raft_log \<Rightarrow> log_index \<Rightarrow> log_index \<Rightarrow> log_entry list option" where
  "entries_range l start stop =
     (if last_index l < start \<or> stop \<le> start then Some []
      else (let start_offset = (if start < first_index l then 0 else unat (start - first_index l));
                end_offset = (if last_index l + 1 < stop then length (entries l)
                              else unat (stop - first_index l))
            in subslice (entries l) start_offset end_offset))"

definition compact :: "raft_log \<Rightarrow> log_index \<Rightarrow> raft_term \<Rightarrow> raft_log" where
  "compact l up_to_index t =
     (if up_to_index < first_index l then l
      else (let compact_count = unat (up_to_index - first_index l + 1);
                l = (if length (entries l) \<le> compact_count then l\<lparr>entries := []\<rparr>
                     else l\<lparr>entries := drop compact_count (entries l)\<rparr>)
            in l\<lparr>first_index := up_to_index + 1, snapshot_term := t\<rparr>))"

definition is_up_to_date :: "raft_log \<Rightarrow> log_index \<Rightarrow> raft_term \<Rightarrow> bool" where
  "is_up_to_date l last_log_index last_log_term =
     (if last_log_term \<noteq> last_term l then last_term l < last_log_term
      else last_index l \<le> last_log_index)"

function find_conflict_loop :: "raft_log \<Rightarrow> raft_term \<Rightarrow> log_index \<Rightarrow> log_index" where
  "find_conflict_loop l conflict_term conflict_index =
     (if first_index l < conflict_index then
        (case log_get l (conflict_index - 1) of
           Some prev \<Rightarrow>
             (if eterm prev \<noteq> conflict_term then conflict_index
              else find_conflict_loop l conflict_term (conflict_index - 1))
         | None \<Rightarrow> conflict_index)
      else conflict_index)"
  by pat_completeness auto
termination
proof (relation "measure (\<lambda>(_, _, i). unat i)", goal_cases)
  case (2 l t i e)
  then have "0 < unat i" by (metis gr_zeroI less_zeroE u64_less_nat)
  then show ?case by (simp add: unat_u64_sub u64_le_nat)
qed simp

definition find_conflict :: "raft_log \<Rightarrow> log_index \<Rightarrow> raft_term \<Rightarrow> log_index \<times> raft_term" where
  "find_conflict l i t =
     (case log_get l i of
        Some e \<Rightarrow> (if eterm e \<noteq> t then (find_conflict_loop l (eterm e) i, eterm e) else (i, t))
      | None \<Rightarrow> (i, t))"

definition log_len :: "raft_log \<Rightarrow> nat" where
  "log_len l = length (entries l)"

declare find_conflict_loop.simps [simp del]

lemma upt_split: "a \<le> b \<Longrightarrow> b \<le> c \<Longrightarrow> [a..<c] = [a..<b] @ [b..<c]"
  by (metis upt_add_eq_append le_add_diff_inverse)

section \<open>The log as a map from indices to entries\<close>

abbreviation u64_size :: nat where
  "u64_size \<equiv> 18446744073709551616"

definition log_ok :: "raft_log \<Rightarrow> bool" where
  "log_ok l \<longleftrightarrow>
     1 \<le> unat (first_index l) \<and> unat (first_index l) + length (entries l) < u64_size \<and>
     map (\<lambda>e. unat (eindex e)) (entries l) = [unat (first_index l)..<unat (first_index l) + length (entries l)]"

definition log_view :: "raft_log \<Rightarrow> nat \<Rightarrow> log_entry option" where
  "log_view l i =
     (if unat (first_index l) \<le> i \<and> i < unat (first_index l) + length (entries l)
      then Some (entries l ! (i - unat (first_index l))) else None)"

text \<open>One more entry still has an index.\<close>

definition log_room :: "raft_log \<Rightarrow> bool" where
  "log_room l \<longleftrightarrow> unat (first_index l) + length (entries l) + 1 < u64_size"

lemma log_ok_new: "log_ok (raft_log_new s p)"
  by (simp add: log_ok_def raft_log_new_def)

lemma log_ok_bounds:
  "log_ok l \<Longrightarrow> 1 \<le> unat (first_index l) \<and> unat (first_index l) + length (entries l) < u64_size"
  by (simp add: log_ok_def)

lemma unat_last_index:
  assumes "log_ok l"
  shows "unat (last_index l) = unat (first_index l) + length (entries l) - 1"
proof (cases "entries l = []")
  case True
  then show ?thesis by (simp add: last_index_def wordnat)
next
  case False
  have "unat (first_index l + of_nat (length (entries l))) = unat (first_index l) + length (entries l)"
    using assms by (subst unat_u64_add) (auto simp: log_ok_def unat_u64_of_nat)
  moreover from this have "1 \<le> first_index l + of_nat (length (entries l))"
    using assms by (simp add: u64_le_nat log_ok_def)
  ultimately show ?thesis using False by (simp add: last_index_def unat_u64_sub)
qed

lemma first_le_last: "log_ok l \<Longrightarrow> unat (first_index l) \<le> unat (last_index l) + 1"
  by (simp add: unat_last_index log_ok_def)

lemma log_get_view: "log_ok l \<Longrightarrow> log_get l i = log_view l (unat i)"
proof -
  assume ok: "log_ok l"
  then have pos: "1 \<le> unat (first_index l)" by (simp add: log_ok_def)
  show ?thesis
  proof (cases "i < first_index l \<or> last_index l < i")
    case True
    then show ?thesis
      using pos unat_last_index [OF ok] by (auto simp: log_get_def log_view_def u64_less_nat)
  next
    case False
    then have "first_index l \<le> i" "i \<le> last_index l" by auto
    then show ?thesis
      using pos unat_last_index [OF ok] False
      by (auto simp: log_get_def log_view_def vec_get_def unat_u64_sub u64_le_nat)
  qed
qed

lemma log_view_None: "log_ok l \<Longrightarrow> unat (last_index l) < i \<Longrightarrow> log_view l i = None"
  using log_ok_bounds [of l] by (auto simp: log_view_def unat_last_index)

lemma log_view_Some_range:
  "log_ok l \<Longrightarrow> log_view l i = Some e \<Longrightarrow> unat (first_index l) \<le> i \<and> i \<le> unat (last_index l)"
  using log_ok_bounds [of l] by (auto simp: log_view_def unat_last_index split: if_splits)

lemma log_view_dom:
  "log_ok l \<Longrightarrow> (\<exists>e. log_view l i = Some e) \<longleftrightarrow> unat (first_index l) \<le> i \<and> i \<le> unat (last_index l)"
  using log_ok_bounds [of l] by (auto simp: log_view_def unat_last_index)

lemma log_view_eindex:
  assumes "log_ok l" and "log_view l i = Some e"
  shows "unat (eindex e) = i"
proof -
  let ?n = "i - unat (first_index l)"
  have n: "?n < length (entries l)" "e = entries l ! ?n" "unat (first_index l) \<le> i"
    using assms(2) by (auto simp: log_view_def split: if_splits)
  then have "unat (eindex e) = map (\<lambda>e. unat (eindex e)) (entries l) ! ?n" by simp
  also have "\<dots> = [unat (first_index l)..<unat (first_index l) + length (entries l)] ! ?n"
    using assms(1) by (simp only: log_ok_def)
  also have "\<dots> = i" using n by simp
  finally show ?thesis .
qed

lemma log_get_eindex: "log_ok l \<Longrightarrow> log_get l i = Some e \<Longrightarrow> eindex e = i"
  using log_view_eindex [of l "unat i" e] by (simp add: log_get_view u64_eq_nat)

lemma map_upt_split:
  "map f xs = [a..<a + length xs] \<Longrightarrow> map f (take n xs) = [a..<a + length (take n xs)]"
  by (simp add: take_map [symmetric] min_def)

subsection \<open>Truncation\<close>

lemma entries_log_truncate:
  assumes "log_ok l"
  shows "entries (log_truncate l i) = take (unat i - unat (first_index l)) (entries l)"
    and "first_index (log_truncate l i) = first_index l"
  using assms
  by (auto simp: log_truncate_def u64_le_nat unat_last_index unat_u64_sub log_ok_def not_le)

lemma log_ok_truncate: "log_ok l \<Longrightarrow> log_ok (log_truncate l i)"
  using map_upt_split [of "\<lambda>e. unat (eindex e)" "entries l" "unat (first_index l)" "unat i - unat (first_index l)"]
  by (auto simp: log_ok_def entries_log_truncate)

lemma log_view_truncate: "log_ok l \<Longrightarrow> log_view (log_truncate l i) = log_view l |` {..<unat i}"
  by (auto simp: log_view_def entries_log_truncate fun_eq_iff restrict_map_def)

lemma last_index_truncate:
  assumes "log_ok l" and "unat (first_index l) \<le> unat i" and "unat i \<le> unat (last_index l)"
  shows "unat (last_index (log_truncate l i)) = unat i - 1"
  using assms log_ok_bounds [OF assms(1)]
  by (simp add: unat_last_index log_ok_truncate entries_log_truncate)

subsection \<open>Appending\<close>

lemma log_append_eq: "log_append l es = l\<lparr>entries := entries l @ es\<rparr>"
  by (induction es arbitrary: l) (simp_all add: log_append_def)

definition contiguous_from :: "nat \<Rightarrow> log_entry list \<Rightarrow> bool" where
  "contiguous_from n es \<longleftrightarrow> map (\<lambda>e. unat (eindex e)) es = [n..<n + length es]"

lemma log_ok_append:
  assumes "log_ok l" and "contiguous_from (unat (last_index l) + 1) es"
    and "unat (last_index l) + length es + 1 < u64_size"
  shows "log_ok (log_append l es)"
proof -
  have n: "unat (last_index l) + 1 = unat (first_index l) + length (entries l)"
    using assms(1) by (simp add: unat_last_index log_ok_def)
  have "map (\<lambda>e. unat (eindex e)) (entries l @ es)
      = [unat (first_index l)..<unat (first_index l) + length (entries l)] @
        [unat (first_index l) + length (entries l)..<unat (first_index l) + length (entries l) + length es]"
    using assms(1,2) unfolding contiguous_from_def n log_ok_def map_append by (simp only:)
  also have "\<dots> = [unat (first_index l)..<unat (first_index l) + length (entries l @ es)]"
    unfolding length_append add.assoc [symmetric] by (rule upt_add_eq_append [symmetric]) simp
  finally show ?thesis
    using log_ok_bounds [OF assms(1)] assms(3) n unfolding log_ok_def log_append_eq by simp
qed

lemma log_view_append:
  assumes "log_ok l" and "unat (last_index l) + length es + 1 < u64_size"
  shows "log_view (log_append l es) i =
    (if unat (last_index l) < i \<and> i \<le> unat (last_index l) + length es
     then Some (es ! (i - unat (last_index l) - 1)) else log_view l i)"
  using assms log_ok_bounds [OF assms(1)] by (auto simp: log_append_eq log_view_def unat_last_index nth_append)

lemma last_index_append:
  assumes "log_ok l" and "contiguous_from (unat (last_index l) + 1) es"
    and "unat (last_index l) + length es + 1 < u64_size"
  shows "unat (last_index (log_append l es)) = unat (last_index l) + length es"
  using log_ok_append [OF assms] assms(1) log_ok_bounds [OF assms(1)]
  by (simp add: unat_last_index log_append_eq)

lemma append_entry_eq:
  "append_entry l t c =
     (last_index l + 1, log_append l [\<lparr>eterm = t, eindex = last_index l + 1, ecommand = c\<rparr>])"
  by (simp add: append_entry_def log_append_eq Let_def)

lemma last_index_Suc: "log_ok l \<Longrightarrow> unat (last_index l + 1) = unat (last_index l) + 1"
  using log_ok_bounds [of l] by (subst unat_u64_Suc) (auto simp: unat_last_index)

lemma log_ok_append_entry:
  assumes "log_ok l" and "log_room l"
  shows "log_ok (snd (append_entry l t c))"
  unfolding append_entry_eq snd_conv
proof (rule log_ok_append [OF assms(1)])
  show "contiguous_from (unat (last_index l) + 1) [\<lparr>eterm = t, eindex = last_index l + 1, ecommand = c\<rparr>]"
    using last_index_Suc [OF assms(1)] by (simp add: contiguous_from_def)
  show "unat (last_index l) + length [\<lparr>eterm = t, eindex = last_index l + 1, ecommand = c\<rparr>] + 1 < u64_size"
    using assms log_ok_bounds [OF assms(1)] by (simp add: unat_last_index log_room_def)
qed

lemma log_view_append_entry:
  assumes "log_ok l" and "log_room l"
  shows "log_view (snd (append_entry l t c)) =
    (log_view l)(unat (last_index l) + 1 \<mapsto> \<lparr>eterm = t, eindex = last_index l + 1, ecommand = c\<rparr>)"
proof -
  have "unat (last_index l) + 1 + 1 < u64_size"
    using assms log_ok_bounds [OF assms(1)] by (simp add: unat_last_index log_room_def)
  then show ?thesis
    using assms(1) unfolding append_entry_eq snd_conv
    by (auto simp: log_view_append fun_eq_iff)
qed

subsection \<open>Compaction\<close>

lemma compact_eq:
  assumes "first_index l \<le> i" and "1 \<le> unat (first_index l)"
  shows "entries (compact l i t) = drop (unat i - unat (first_index l) + 1) (entries l)"
    and "first_index (compact l i t) = i + 1" and "snapshot_term (compact l i t) = t"
proof -
  have "unat (i - first_index l + 1) = unat i - unat (first_index l) + 1"
    using assms unat_u64_bound [of i] by (subst unat_u64_Suc) (auto simp: unat_u64_sub)
  moreover have nl: "\<not> i < first_index l" using assms(1) by simp
  ultimately show "entries (compact l i t) = drop (unat i - unat (first_index l) + 1) (entries l)"
    by (simp add: compact_def Let_def)
  show "first_index (compact l i t) = i + 1" and "snapshot_term (compact l i t) = t"
    using nl by (simp_all add: compact_def Let_def)
qed

lemma compact_old: "i < first_index l \<Longrightarrow> compact l i t = l"
  by (simp add: compact_def)

lemma log_ok_compact:
  assumes "log_ok l" and "unat i + 1 < u64_size"
  shows "log_ok (compact l i t)"
proof (cases "i < first_index l")
  case False
  let ?n = "unat i - unat (first_index l) + 1"
  have le: "first_index l \<le> i" and pos: "1 \<le> unat (first_index l)"
    using False assms(1) by (auto simp: log_ok_def)
  have i1: "unat (i + 1) = unat i + 1" using assms(2) by (rule unat_u64_Suc)
  have "map (\<lambda>e. unat (eindex e)) (drop ?n (entries l))
      = drop ?n [unat (first_index l)..<unat (first_index l) + length (entries l)]"
    using assms(1) unfolding log_ok_def by (metis drop_map)
  also have "\<dots> = [unat i + 1..<unat (first_index l) + length (entries l)]"
    using le unfolding drop_upt by (simp add: u64_le_nat)
  also have "\<dots> = [unat i + 1..<unat i + 1 + length (drop ?n (entries l))]"
  proof (cases "?n \<le> length (entries l)")
    case True
    then have "unat (first_index l) + length (entries l) = unat i + 1 + length (drop ?n (entries l))"
      using le by (simp add: u64_le_nat)
    then show ?thesis by (simp only:)
  qed (use le in \<open>simp add: u64_le_nat\<close>)
  finally have "map (\<lambda>e. unat (eindex e)) (drop ?n (entries l))
      = [unat i + 1..<unat i + 1 + length (drop ?n (entries l))]" .
  moreover have "unat i + 1 + length (drop ?n (entries l)) < u64_size"
    using assms(2) log_ok_bounds [OF assms(1)] le
    by (cases "?n \<le> length (entries l)") (simp_all add: u64_le_nat)
  ultimately show ?thesis
    using i1 unfolding log_ok_def compact_eq [OF le pos] by simp
qed (simp add: compact_old assms)

lemma log_view_compact:
  assumes "log_ok l" and "unat i + 1 < u64_size"
  shows "log_view (compact l i t) = log_view l |` {unat i<..}"
proof (cases "i < first_index l")
  case True
  then show ?thesis
    using assms(1) by (auto simp: compact_old log_view_def restrict_map_def fun_eq_iff u64_less_nat)
next
  case False
  have le: "first_index l \<le> i" and pos: "1 \<le> unat (first_index l)"
    using False assms(1) by (auto simp: log_ok_def)
  have i1: "unat (i + 1) = unat i + 1" using assms(2) by (rule unat_u64_Suc)
  show ?thesis
    using le
    by (auto simp: log_view_def compact_eq [OF le pos] i1 restrict_map_def fun_eq_iff u64_le_nat
        intro!: arg_cong [of _ _ "(!) (entries l)"])
qed

lemma last_index_compact:
  assumes "log_ok l" and "unat i + 1 < u64_size"
  shows "unat (last_index (compact l i t)) = max (unat i) (unat (last_index l))"
proof (cases "i < first_index l")
  case True
  then show ?thesis
    using first_le_last [OF assms(1)] by (simp add: compact_old u64_less_nat max_def)
next
  case False
  have le: "first_index l \<le> i" and pos: "1 \<le> unat (first_index l)"
    using False assms(1) by (auto simp: log_ok_def)
  have i1: "unat (i + 1) = unat i + 1" using assms(2) by (rule unat_u64_Suc)
  show ?thesis
    using le pos unfolding unat_last_index [OF log_ok_compact [OF assms]] unat_last_index [OF assms(1)]
    by (auto simp: compact_eq [OF le pos] i1 u64_le_nat max_def)
qed

subsection \<open>Terms, ranges and conflicts\<close>

lemma log_term_view:
  assumes "log_ok l" and "unat (first_index l) \<le> unat i"
  shows "log_term l i = map_option eterm (log_view l (unat i))"
proof -
  have "i \<noteq> 0" using assms log_ok_bounds [OF assms(1)] by auto
  with assms show ?thesis by (simp add: log_term_def u64_less_nat log_get_view)
qed

lemma log_term_le_last:
  assumes "log_ok l" and "log_term l i = Some t"
  shows "unat i \<le> unat (last_index l)"
proof (cases "unat (first_index l) \<le> unat i")
  case True
  with assms show ?thesis using log_view_Some_range [OF assms(1)] by (auto simp: log_term_view)
next
  case False
  with first_le_last [OF assms(1)] show ?thesis by simp
qed

definition view_slice :: "raft_log \<Rightarrow> nat \<Rightarrow> nat \<Rightarrow> log_entry list" where
  "view_slice l a b = List.map_filter (log_view l) [a..<b]"

lemma view_slice_entries:
  assumes "log_ok l" and "unat (first_index l) \<le> a" and "b \<le> unat (last_index l) + 1" and "a \<le> b"
  shows "view_slice l a b = take (b - a) (drop (a - unat (first_index l)) (entries l))"
proof -
  have "log_view l i = Some (entries l ! (i - unat (first_index l)))" if "i \<in> set [a..<b]" for i
    using that assms log_ok_bounds [OF assms(1)] by (auto simp: log_view_def unat_last_index)
  then have "view_slice l a b = map (\<lambda>i. entries l ! (i - unat (first_index l))) [a..<b]"
    unfolding view_slice_def by (induction "[a..<b]") (auto simp: List.map_filter_def cong: map_cong)
  also have "\<dots> = take (b - a) (drop (a - unat (first_index l)) (entries l))"
    using assms log_ok_bounds [OF assms(1)] unat_last_index [OF assms(1)]
    by (intro nth_equalityI) (auto intro!: arg_cong [of _ _ "(!) (entries l)"])
  finally show ?thesis .
qed

lemma view_slice_low:
  assumes "a \<le> unat (first_index l)"
  shows "view_slice l a b = view_slice l (unat (first_index l)) b"
proof (cases "unat (first_index l) \<le> b")
  case True
  then have "[a..<b] = [a..<unat (first_index l)] @ [unat (first_index l)..<b]"
    using assms by (intro upt_split)
  moreover have "List.map_filter (log_view l) [a..<unat (first_index l)] = []"
    by (auto simp: List.map_filter_def filter_empty_conv log_view_def)
  ultimately show ?thesis by (simp add: view_slice_def List.map_filter_def)
next
  case False
  then show ?thesis by (auto simp: view_slice_def List.map_filter_def filter_empty_conv log_view_def)
qed

lemma entries_range_correct:
  assumes "log_ok l" and "first_index l \<le> stop \<or> stop \<le> start \<or> last_index l < start"
  shows "entries_range l start stop =
           Some (view_slice l (unat start) (min (unat stop) (unat (last_index l) + 1)))"
proof (cases "last_index l < start \<or> stop \<le> start")
  case True
  then have "[unat start..<min (unat stop) (unat (last_index l) + 1)] = []"
    by (auto simp: u64_less_nat u64_le_nat)
  with True show ?thesis by (simp only: entries_range_def view_slice_def List.map_filter_simps if_True)
next
  case False
  let ?a = "max (unat start) (unat (first_index l))"
  let ?b = "min (unat stop) (unat (last_index l) + 1)"
  have bnd: "unat (last_index l) = unat (first_index l) + length (entries l) - 1"
    "1 \<le> unat (first_index l)"
    using unat_last_index [OF assms(1)] log_ok_bounds [OF assms(1)] by simp_all
  have f: "\<not> (last_index l < start \<or> stop \<le> start)" "unat start \<le> unat (last_index l)" "unat start < unat stop"
    using False by (auto simp: u64_less_nat u64_le_nat)
  have fs: "unat (first_index l) \<le> unat stop" using assms(2) f(1) by (auto simp: u64_le_nat)
  have so: "(if start < first_index l then 0 else unat (start - first_index l)) = ?a - unat (first_index l)"
    by (auto simp: u64_less_nat unat_u64_sub u64_le_nat max_def)
  have eo: "(if last_index l + 1 < stop then length (entries l) else unat (stop - first_index l))
      = ?b - unat (first_index l)"
    using bnd fs last_index_Suc [OF assms(1)]
    by (auto simp: u64_less_nat unat_u64_sub u64_le_nat min_def)
  have ab: "?a \<le> ?b" using f fs first_le_last [OF assms(1)] by auto
  have "entries_range l start stop = subslice (entries l) (?a - unat (first_index l)) (?b - unat (first_index l))"
    using f(1) by (simp only: entries_range_def so eo if_False Let_def)
  also have "\<dots> = Some (take (?b - ?a) (drop (?a - unat (first_index l)) (entries l)))"
    using ab bnd by (auto simp: subslice_def)
  also have "take (?b - ?a) (drop (?a - unat (first_index l)) (entries l)) = view_slice l ?a ?b"
    using ab by (intro view_slice_entries [OF assms(1), symmetric]) auto
  also have "\<dots> = view_slice l (unat start) ?b"
    using view_slice_low [of "unat start" l ?b] unfolding max_def by (auto simp del: upt_Suc)
  finally show ?thesis .
qed

lemma contiguous_view_slice:
  assumes "log_ok l" and "unat (first_index l) \<le> a"
  shows "contiguous_from a (view_slice l a b)"
proof (cases "a \<le> min b (unat (last_index l) + 1)")
  case True
  let ?b = "min b (unat (last_index l) + 1)"
  have *: "\<exists>e. log_view l i = Some e \<and> unat (eindex e) = i" if "i \<in> set [a..<?b]" for i
    using that assms log_view_dom [OF assms(1), of i] log_view_eindex [OF assms(1)] by auto
  have "map (\<lambda>e. unat (eindex e)) (List.map_filter (log_view l) xs) = xs"
    if "\<forall>i \<in> set xs. \<exists>e. log_view l i = Some e \<and> unat (eindex e) = i" for xs
    using that by (induction xs) (auto simp: List.map_filter_simps)
  with * have eq: "map (\<lambda>e. unat (eindex e)) (view_slice l a ?b) = [a..<?b]"
    unfolding view_slice_def by blast
  then have "length (view_slice l a ?b) = ?b - a" by (metis length_map length_upt)
  with eq True have "contiguous_from a (view_slice l a ?b)" by (simp add: contiguous_from_def)
  moreover have "view_slice l a b = view_slice l a ?b"
  proof (cases "b \<le> unat (last_index l) + 1")
    case False
    then have "[a..<b] = [a..<?b] @ [?b..<b]" using True by (intro upt_split) auto
    moreover have "List.map_filter (log_view l) [?b..<b] = []"
      using False log_view_None [OF assms(1)] by (auto simp: List.map_filter_def filter_empty_conv)
    ultimately show ?thesis by (simp add: view_slice_def List.map_filter_def)
  qed simp
  ultimately show ?thesis by simp
next
  case False
  then have "view_slice l a b = []"
    using log_view_None [OF assms(1)]
    by (auto simp: view_slice_def List.map_filter_def filter_empty_conv)
  then show ?thesis by (simp add: contiguous_from_def)
qed

text \<open>The backward search stops at the first entry of the run of the conflicting term.\<close>

lemma find_conflict_loop_run:
  assumes "log_ok l" and "log_view l (unat i) = Some e" and "eterm e = t"
  shows "unat (find_conflict_loop l t i) \<le> unat i \<and>
    unat (first_index l) \<le> unat (find_conflict_loop l t i) \<and>
    (\<forall>j. unat (find_conflict_loop l t i) \<le> j \<and> j \<le> unat i \<longrightarrow> map_option eterm (log_view l j) = Some t) \<and>
    (unat (find_conflict_loop l t i) = unat (first_index l) \<or>
     map_option eterm (log_view l (unat (find_conflict_loop l t i) - 1)) \<noteq> Some t)"
  using assms
proof (induction l t i arbitrary: e rule: find_conflict_loop.induct)
  case (1 l t i)
  have range: "unat (first_index l) \<le> unat i" "unat i \<le> unat (last_index l)"
    using log_view_Some_range [OF "1.prems"(1,2)] by auto
  have here: "\<forall>j. unat i \<le> j \<and> j \<le> unat i \<longrightarrow> map_option eterm (log_view l j) = Some t"
    using "1.prems"(2,3) by auto
  show ?case
  proof (cases "first_index l < i")
    case False
    then have "find_conflict_loop l t i = i" by (simp add: find_conflict_loop.simps)
    with False range here show ?thesis by (auto simp: u64_less_nat)
  next
    case True
    then have pred: "unat (i - 1) = unat i - 1"
      using unat_u64_sub [of 1 i] by (auto simp: u64_less_nat u64_le_nat)
    then obtain p where p: "log_get l (i - 1) = Some p"
      using True range log_view_dom [OF "1.prems"(1), of "unat i - 1"]
      by (auto simp: log_get_view [OF "1.prems"(1)] u64_less_nat)
    then have pv: "log_view l (unat i - 1) = Some p"
      using "1.prems"(1) pred by (simp add: log_get_view)
    show ?thesis
    proof (cases "eterm p = t")
      case False
      with True p have "find_conflict_loop l t i = i" by (simp add: find_conflict_loop.simps)
      with False range here pv show ?thesis by auto
    next
      case same: True
      with True p have eq: "find_conflict_loop l t i = find_conflict_loop l t (i - 1)"
        by (simp add: find_conflict_loop.simps [of l t i])
      have ih: "unat (find_conflict_loop l t (i - 1)) \<le> unat i - 1 \<and>
        unat (first_index l) \<le> unat (find_conflict_loop l t (i - 1)) \<and>
        (\<forall>j. unat (find_conflict_loop l t (i - 1)) \<le> j \<and> j \<le> unat i - 1 \<longrightarrow>
             map_option eterm (log_view l j) = Some t) \<and>
        (unat (find_conflict_loop l t (i - 1)) = unat (first_index l) \<or>
         map_option eterm (log_view l (unat (find_conflict_loop l t (i - 1)) - 1)) \<noteq> Some t)"
        using "1.IH" [OF True p _ "1.prems"(1), of p] same pv pred by simp
      have "map_option eterm (log_view l j) = Some t"
        if "unat (find_conflict_loop l t (i - 1)) \<le> j" "j \<le> unat i" for j
        using that ih here by (cases "j = unat i") auto
      with ih eq show ?thesis by auto
    qed
  qed
qed

lemma is_up_to_date_lex:
  "is_up_to_date l i t \<longleftrightarrow>
     unat (last_term l) < unat t \<or> last_term l = t \<and> unat (last_index l) \<le> unat i"
  by (auto simp: is_up_to_date_def u64_less_nat u64_le_nat u64_eq_nat)

end
