(* ===== verification/RaftNode.thy ===== *)
theory RaftNode
  imports RaftLog "HOL-Library.Monad_Syntax"
begin

text \<open>
  The Raft node (\<^verbatim>\<open>byoridb-storage/src/raft/node.rs\<close>): one definition per handler, over the node's state
  as a record. A handler that can panic returns an option, \<open>None\<close> for the panic: the random
  deadline panics on an empty timeout range, the commit computation on an index out of range,
  the range of the log on a slice out of range.

  The clock and \<open>rand::thread_rng\<close> are the parameter \<open>timing\<close>: the time of the call in nanoseconds and
  \<open>gen_range\<close>. A handler that resets the deadline several times keeps the last one, so one
  reading per handler is enough. Logging has no effect on the state and is left out.
\<close>

record raft_config =
  election_timeout_min :: u64
  election_timeout_max :: u64
  heartbeat_interval :: u64
  max_entries_per_request :: nat
  snapshot_threshold :: u64

definition raft_config_default :: raft_config where
  "raft_config_default =
     \<lparr>election_timeout_min = 150, election_timeout_max = 300, heartbeat_interval = 50,
      max_entries_per_request = 100, snapshot_threshold = 10000\<rparr>"

record persistent_state =
  current_term :: raft_term
  voted_for :: "node_id option"

record volatile_state =
  commit_index :: log_index
  last_applied :: log_index

record leader_state =
  next_index :: "(node_id, log_index) hash_map"
  match_index :: "(node_id, log_index) hash_map"

record raft_node =
  rid :: node_id
  rspace_id :: u32
  rpart_id :: u32
  rstate :: raft_state
  persistent :: persistent_state
  volatile :: volatile_state
  rleader_state :: "leader_state option"
  rlog :: raft_log
  rconfig :: cluster_config
  raft_conf :: raft_config
  leader_id :: "node_id option"
  election_deadline :: int
  votes_received :: "(node_id, bool) hash_map"

record timing =
  now :: int
  gen_range :: "u64 \<Rightarrow> u64 \<Rightarrow> u64"

abbreviation nterm :: "raft_node \<Rightarrow> raft_term" where
  "nterm n \<equiv> current_term (persistent n)"

abbreviation ncommit :: "raft_node \<Rightarrow> log_index" where
  "ncommit n \<equiv> commit_index (volatile n)"

abbreviation napplied :: "raft_node \<Rightarrow> log_index" where
  "napplied n \<equiv> last_applied (volatile n)"

abbreviation nvote :: "raft_node \<Rightarrow> node_id option" where
  "nvote n \<equiv> voted_for (persistent n)"

definition random_election_deadline :: "timing \<Rightarrow> raft_config \<Rightarrow> int option" where
  "random_election_deadline tm c =
     (if election_timeout_min c \<le> election_timeout_max c
      then Some (now tm + uint (gen_range tm (election_timeout_min c) (election_timeout_max c)) * 1000000)
      else None)"

definition raft_node_new ::
  "timing \<Rightarrow> node_id \<Rightarrow> u32 \<Rightarrow> u32 \<Rightarrow> cluster_config \<Rightarrow> raft_config \<Rightarrow> raft_node option" where
  "raft_node_new tm i space_id part_id config conf =
     do {
       d \<leftarrow> random_election_deadline tm conf;
       Some \<lparr>rid = i, rspace_id = space_id, rpart_id = part_id, rstate = Follower,
             persistent = \<lparr>current_term = 0, voted_for = None\<rparr>,
             volatile = \<lparr>commit_index = 0, last_applied = 0\<rparr>,
             rleader_state = None, rlog = raft_log_new space_id part_id, rconfig = config,
             raft_conf = conf, leader_id = None, election_deadline = d, votes_received = []\<rparr>
     }"

definition is_leader :: "raft_node \<Rightarrow> bool" where
  "is_leader n \<longleftrightarrow> rstate n = Leader"

definition reset_election_timeout :: "timing \<Rightarrow> raft_node \<Rightarrow> raft_node option" where
  "reset_election_timeout tm n =
     do { d \<leftarrow> random_election_deadline tm (raft_conf n); Some (n\<lparr>election_deadline := d\<rparr>) }"

definition election_timeout_elapsed :: "timing \<Rightarrow> raft_node \<Rightarrow> bool" where
  "election_timeout_elapsed tm n \<longleftrightarrow> election_deadline n \<le> now tm"

definition become_follower :: "timing \<Rightarrow> raft_node \<Rightarrow> raft_term \<Rightarrow> node_id option \<Rightarrow> raft_node option" where
  "become_follower tm n t leader =
     reset_election_timeout tm
       (n\<lparr>rstate := Follower,
          persistent := (persistent n)\<lparr>current_term := t, voted_for := None\<rparr>,
          leader_id := leader,
          rleader_state := None\<rparr>)"

definition become_candidate ::
  "timing \<Rightarrow> raft_node \<Rightarrow> ((node_id \<times> request_vote_request) list \<times> raft_node) option" where
  "become_candidate tm n =
     (let t = nterm n + 1 in
      do {
        n \<leftarrow> reset_election_timeout tm
               (n\<lparr>persistent := (persistent n)\<lparr>current_term := t, voted_for := Some (rid n)\<rparr>,
                  rstate := Candidate,
                  leader_id := None,
                  rleader_state := None,
                  votes_received := AList.update (rid n) True []\<rparr>);
        let request = \<lparr>rv_term = t, rv_candidate_id = rid n,
                       rv_last_log_index = last_index (rlog n), rv_last_log_term = last_term (rlog n)\<rparr>;
        Some (map (\<lambda>v. (v, request)) (filter (\<lambda>v. v \<noteq> rid n) (voters (rconfig n))), n)
      })"

definition init_leader_state :: "node_id \<Rightarrow> log_index \<Rightarrow> node_id list \<Rightarrow> leader_state" where
  "init_leader_state self last_log_index vs =
     foldl (\<lambda>s v. if v \<noteq> self
                  then s\<lparr>next_index := AList.update v (last_log_index + 1) (next_index s),
                         match_index := AList.update v 0 (match_index s)\<rparr>
                  else s)
       \<lparr>next_index = [], match_index = []\<rparr> vs"

definition become_leader :: "raft_node \<Rightarrow> raft_node" where
  "become_leader n =
     (let n = n\<lparr>rstate := Leader, leader_id := Some (rid n)\<rparr>;
          n = n\<lparr>rleader_state := Some (init_leader_state (rid n) (last_index (rlog n)) (voters (rconfig n)))\<rparr>
      in n\<lparr>rlog := snd (append_entry (rlog n) (nterm n) Noop)\<rparr>)"

definition handle_request_vote ::
  "timing \<Rightarrow> raft_node \<Rightarrow> request_vote_request \<Rightarrow> (request_vote_response \<times> raft_node) option" where
  "handle_request_vote tm n req =
     do {
       n \<leftarrow> (if nterm n < rv_term req then become_follower tm n (rv_term req) None else Some n);
       (vote_granted, n) \<leftarrow>
         (if rv_term req < nterm n then Some (False, n)
          else if nvote n \<noteq> None \<and> nvote n \<noteq> Some (rv_candidate_id req) then Some (False, n)
          else if \<not> is_up_to_date (rlog n) (rv_last_log_index req) (rv_last_log_term req) then Some (False, n)
          else do {
            n \<leftarrow> reset_election_timeout tm
                   (n\<lparr>persistent := (persistent n)\<lparr>voted_for := Some (rv_candidate_id req)\<rparr>\<rparr>);
            Some (True, n)
          });
       Some (\<lparr>rvr_term = nterm n, rvr_vote_granted = vote_granted\<rparr>, n)
     }"

definition votes_for :: "raft_node \<Rightarrow> nat" where
  "votes_for n = length (filter (\<lambda>v. v) (map snd (votes_received n)))"

definition handle_request_vote_response ::
  "timing \<Rightarrow> raft_node \<Rightarrow> node_id \<Rightarrow> request_vote_response \<Rightarrow> (bool \<times> raft_node) option" where
  "handle_request_vote_response tm n from_id resp =
     (if rstate n \<noteq> Candidate then Some (False, n)
      else if nterm n < rvr_term resp
      then do { n \<leftarrow> become_follower tm n (rvr_term resp) None; Some (False, n) }
      else (let n = n\<lparr>votes_received := AList.update from_id (rvr_vote_granted resp) (votes_received n)\<rparr>
            in if majority (rconfig n) \<le> votes_for n then Some (True, become_leader n)
               else Some (False, n)))"

fun truncate_conflicts :: "raft_log \<Rightarrow> log_entry list \<Rightarrow> raft_log" where
  "truncate_conflicts l [] = l"
| "truncate_conflicts l (e # es) =
     (case log_get l (eindex e) of
        Some existing \<Rightarrow>
          (if eterm existing \<noteq> eterm e then log_truncate l (eindex e) else truncate_conflicts l es)
      | None \<Rightarrow> truncate_conflicts l es)"

definition merge_entries :: "raft_log \<Rightarrow> log_entry list \<Rightarrow> raft_log" where
  "merge_entries l es =
     (if es \<noteq> [] then
        (let l = truncate_conflicts l es;
             entries_to_append = filter (\<lambda>e. last_index l < eindex e) es
         in if entries_to_append \<noteq> [] then log_append l entries_to_append else l)
      else l)"

definition handle_append_entries ::
  "timing \<Rightarrow> raft_node \<Rightarrow> append_entries_request \<Rightarrow> (append_entries_response \<times> raft_node) option" where
  "handle_append_entries tm n req =
     do {
       n \<leftarrow> (if nterm n < ae_term req then become_follower tm n (ae_term req) (Some (ae_leader_id req))
             else Some n);
       if ae_term req < nterm n
       then Some (\<lparr>aer_term = nterm n, aer_success = False, aer_match_index = 0\<rparr>, n)
       else do {
         n \<leftarrow> reset_election_timeout tm n;
         let n = n\<lparr>leader_id := Some (ae_leader_id req)\<rparr>;
         n \<leftarrow> (if rstate n = Candidate then become_follower tm n (ae_term req) (Some (ae_leader_id req))
               else Some n);
         let prev = (if 0 < ae_prev_log_index req then log_term (rlog n) (ae_prev_log_index req)
                     else Some (ae_prev_log_term req));
         if prev = None
         then Some (\<lparr>aer_term = nterm n, aer_success = False, aer_match_index = last_index (rlog n)\<rparr>, n)
         else if prev \<noteq> Some (ae_prev_log_term req)
         then (let n = n\<lparr>rlog := log_truncate (rlog n) (ae_prev_log_index req)\<rparr>
               in Some (\<lparr>aer_term = nterm n, aer_success = False, aer_match_index = last_index (rlog n)\<rparr>, n))
         else
           (let n = n\<lparr>rlog := merge_entries (rlog n) (ae_entries req)\<rparr>;
                n = (if ncommit n < ae_leader_commit req
                     then n\<lparr>volatile := (volatile n)\<lparr>commit_index := min (ae_leader_commit req) (last_index (rlog n))\<rparr>\<rparr>
                     else n)
            in Some (\<lparr>aer_term = nterm n, aer_success = True, aer_match_index = last_index (rlog n)\<rparr>, n))
       }
     }"

definition majority_match_index :: "raft_node \<Rightarrow> leader_state \<Rightarrow> log_index option" where
  "majority_match_index n ls =
     (let match_indices = sort (map snd (match_index ls) @ [last_index (rlog n)])
      in if majority (rconfig n) \<le> length match_indices
         then vec_get match_indices (length match_indices - majority (rconfig n))
         else None)"

definition try_advance_commit_index :: "raft_node \<Rightarrow> raft_node option" where
  "try_advance_commit_index n =
     (case rleader_state n of
        None \<Rightarrow> Some n
      | Some ls \<Rightarrow>
         do {
           majority_index \<leftarrow> majority_match_index n ls;
           if ncommit n < majority_index then
             (case log_term (rlog n) majority_index of
                Some t \<Rightarrow> (if t = nterm n
                           then Some (n\<lparr>volatile := (volatile n)\<lparr>commit_index := majority_index\<rparr>\<rparr>)
                           else Some n)
              | None \<Rightarrow> Some n)
           else Some n
         })"

definition handle_append_entries_response ::
  "timing \<Rightarrow> raft_node \<Rightarrow> node_id \<Rightarrow> append_entries_response \<Rightarrow> raft_node option" where
  "handle_append_entries_response tm n from_id resp =
     (if rstate n \<noteq> Leader then Some n
      else if nterm n < aer_term resp then become_follower tm n (aer_term resp) None
      else (case rleader_state n of
              None \<Rightarrow> Some n
            | Some ls \<Rightarrow>
               (if aer_success resp then
                  try_advance_commit_index
                    (n\<lparr>rleader_state := Some (ls\<lparr>
                         match_index := AList.update from_id (aer_match_index resp) (match_index ls),
                         next_index := AList.update from_id (aer_match_index resp + 1) (next_index ls)\<rparr>)\<rparr>)
                else
                  (let next = (case map_of (next_index ls) from_id of Some i \<Rightarrow> i | None \<Rightarrow> 1)
                   in Some (n\<lparr>rleader_state := Some (ls\<lparr>
                        next_index := AList.update from_id (max (saturating_sub next 1) 1) (next_index ls)\<rparr>)\<rparr>)))))"

datatype raft_node_error = NotLeader "node_id option" | ProposalFailed string

definition propose :: "raft_node \<Rightarrow> command \<Rightarrow> (raft_node_error + log_index) \<times> raft_node" where
  "propose n c =
     (if rstate n \<noteq> Leader then (Inl (NotLeader (leader_id n)), n)
      else (case append_entry (rlog n) (nterm n) c of (i, l) \<Rightarrow> (Inr i, n\<lparr>rlog := l\<rparr>)))"

definition append_request_for :: "raft_node \<Rightarrow> leader_state \<Rightarrow> node_id \<Rightarrow> append_entries_request option" where
  "append_request_for n ls v =
     (let next = (case map_of (next_index ls) v of Some i \<Rightarrow> i | None \<Rightarrow> 1);
          prev = saturating_sub next 1;
          prev_term = (case log_term (rlog n) prev of Some t \<Rightarrow> t | None \<Rightarrow> 0)
      in do {
        es \<leftarrow> entries_range (rlog n) next (next + of_nat (max_entries_per_request (raft_conf n)));
        Some \<lparr>ae_term = nterm n, ae_leader_id = rid n, ae_prev_log_index = prev, ae_prev_log_term = prev_term,
              ae_entries = es, ae_leader_commit = ncommit n\<rparr>
      })"

fun append_requests ::
  "raft_node \<Rightarrow> leader_state \<Rightarrow> node_id list \<Rightarrow> (node_id \<times> append_entries_request) list option" where
  "append_requests n ls [] = Some []"
| "append_requests n ls (v # vs) =
     (if v = rid n then append_requests n ls vs
      else do {
        req \<leftarrow> append_request_for n ls v;
        reqs \<leftarrow> append_requests n ls vs;
        Some ((v, req) # reqs)
      })"

definition generate_append_entries ::
  "raft_node \<Rightarrow> (node_id \<times> append_entries_request) list option" where
  "generate_append_entries n =
     (if rstate n \<noteq> Leader then Some []
      else (case rleader_state n of
              None \<Rightarrow> Some []
            | Some ls \<Rightarrow> append_requests n ls (voters (rconfig n))))"

function apply_loop :: "raft_log \<Rightarrow> log_index \<Rightarrow> log_index \<Rightarrow> log_entry list \<times> log_index" where
  "apply_loop l commit applied =
     (if applied < commit then
        (let applied = applied + 1;
             (es, applied') = apply_loop l commit applied
         in ((case log_get l applied of Some e \<Rightarrow> e # es | None \<Rightarrow> es), applied'))
      else ([], applied))"
  by pat_completeness auto
termination
proof (relation "measure (\<lambda>(_, commit, applied). unat commit - unat applied)", goal_cases)
  case (2 l commit applied x)
  then have "unat applied < unat commit" by (simp add: u64_less_nat)
  moreover from this have "unat (applied + 1) = unat applied + 1"
    using unat_u64_bound [of commit] by (intro unat_u64_Suc) simp
  ultimately show ?case using 2 by simp
qed simp

declare apply_loop.simps [simp del]

definition get_entries_to_apply :: "raft_node \<Rightarrow> log_entry list \<times> raft_node" where
  "get_entries_to_apply n =
     (case apply_loop (rlog n) (ncommit n) (napplied n) of
        (es, applied) \<Rightarrow> (es, n\<lparr>volatile := (volatile n)\<lparr>last_applied := applied\<rparr>\<rparr>))"

record install_snapshot_action =
  isa_last_included_index :: log_index
  isa_last_included_term :: raft_term
  isa_offset :: u64
  isa_data :: bytes
  isa_done :: bool

definition handle_install_snapshot ::
  "timing \<Rightarrow> raft_node \<Rightarrow> install_snapshot_request \<Rightarrow>
   ((install_snapshot_response \<times> install_snapshot_action option) \<times> raft_node) option" where
  "handle_install_snapshot tm n req =
     do {
       n \<leftarrow> (if nterm n < is_term req then become_follower tm n (is_term req) (Some (is_leader_id req))
             else Some n);
       if is_term req < nterm n then Some ((\<lparr>isr_term = nterm n\<rparr>, None), n)
       else do {
         n \<leftarrow> reset_election_timeout tm n;
         let n = n\<lparr>leader_id := Some (is_leader_id req)\<rparr>;
         Some ((\<lparr>isr_term = nterm n\<rparr>,
                Some \<lparr>isa_last_included_index = is_last_included_index req,
                      isa_last_included_term = is_last_included_term req,
                      isa_offset = is_offset req, isa_data = is_data req, isa_done = is_done req\<rparr>), n)
       }
     }"

definition apply_snapshot :: "raft_node \<Rightarrow> log_index \<Rightarrow> raft_term \<Rightarrow> raft_node" where
  "apply_snapshot n last_included_index last_included_term =
     (let n = n\<lparr>rlog := compact (rlog n) last_included_index last_included_term\<rparr>;
          n = (if ncommit n < last_included_index
               then n\<lparr>volatile := (volatile n)\<lparr>commit_index := last_included_index\<rparr>\<rparr> else n)
      in (if napplied n < last_included_index
          then n\<lparr>volatile := (volatile n)\<lparr>last_applied := last_included_index\<rparr>\<rparr> else n))"

definition should_send_snapshot :: "raft_node \<Rightarrow> node_id \<Rightarrow> bool" where
  "should_send_snapshot n follower_id =
     (if rstate n \<noteq> Leader then False
      else (case rleader_state n of
              None \<Rightarrow> False
            | Some ls \<Rightarrow>
               (case map_of (next_index ls) follower_id of Some i \<Rightarrow> i | None \<Rightarrow> 1) < first_index (rlog n)))"

definition propose_config_change ::
  "raft_node \<Rightarrow> config_change \<Rightarrow> (raft_node_error + log_index) \<times> raft_node" where
  "propose_config_change n change =
     (if rstate n \<noteq> Leader then (Inl (NotLeader (leader_id n)), n)
      else (case append_entry (rlog n) (nterm n) (ConfigChange change) of (i, l) \<Rightarrow> (Inr i, n\<lparr>rlog := l\<rparr>)))"

text \<open>\<open>str::parse::<u32>\<close>: an optional plus sign, then at least one digit, without overflow.\<close>

fun parse_digits :: "nat \<Rightarrow> string \<Rightarrow> nat option" where
  "parse_digits acc [] = Some acc"
| "parse_digits acc (c # cs) =
     (if 48 \<le> (of_char c :: nat) \<and> of_char c \<le> (57 :: nat)
      then (let a = acc * 10 + (of_char c - 48) in if a < 4294967296 then parse_digits a cs else None)
      else None)"

definition parse_u32 :: "string \<Rightarrow> u32 option" where
  "parse_u32 s =
     (let digits = (case s of [] \<Rightarrow> [] | c # cs \<Rightarrow> if c = CHR ''+'' then cs else s)
      in if digits = [] then None else map_option of_nat (parse_digits 0 digits))"

definition extract_port :: "string \<Rightarrow> u32" where
  "extract_port addr =
     (case parse_u32 (rev (takeWhile (\<lambda>c. c \<noteq> CHR '':'') (rev addr))) of Some p \<Rightarrow> p | None \<Rightarrow> 9779)"

fun apply_config_change :: "timing \<Rightarrow> raft_node \<Rightarrow> config_change \<Rightarrow> raft_node option" where
  "apply_config_change tm n (AddNode node_id addr) =
     (let n = n\<lparr>rconfig := add_node (rconfig n) \<lparr>ni_id = node_id, ni_addr = addr, ni_port = extract_port addr\<rparr>\<rparr>
      in Some (case rleader_state n of
           Some ls \<Rightarrow>
             n\<lparr>rleader_state := Some (ls\<lparr>
                 next_index := AList.update node_id (last_index (rlog n) + 1) (next_index ls),
                 match_index := AList.update node_id 0 (match_index ls)\<rparr>)\<rparr>
         | None \<Rightarrow> n))"
| "apply_config_change tm n (RemoveNode node_id) =
     (let n = n\<lparr>rconfig := remove_node (rconfig n) node_id\<rparr>;
          n = (case rleader_state n of
                 Some ls \<Rightarrow>
                   n\<lparr>rleader_state := Some (ls\<lparr>
                       next_index := AList.delete node_id (next_index ls),
                       match_index := AList.delete node_id (match_index ls)\<rparr>)\<rparr>
               | None \<Rightarrow> n)
      in if node_id = rid n \<and> rstate n = Leader then become_follower tm n (nterm n) None else Some n)"

datatype raft_action =
    NoAction
  | SendRequestVote "(node_id \<times> request_vote_request) list"
  | SendAppendEntries "(node_id \<times> append_entries_request) list"
  | ApplyEntries "log_entry list"

definition apply_committed :: "raft_node \<Rightarrow> raft_action \<times> raft_node" where
  "apply_committed n =
     (case get_entries_to_apply n of
        (es, n') \<Rightarrow> (if es \<noteq> [] then ApplyEntries es else NoAction, n'))"

definition tick :: "timing \<Rightarrow> raft_node \<Rightarrow> (raft_action \<times> raft_node) option" where
  "tick tm n =
     (case rstate n of
        Leader \<Rightarrow>
          do {
            requests \<leftarrow> generate_append_entries n;
            if requests \<noteq> [] then Some (SendAppendEntries requests, n)
            else Some (apply_committed n)
          }
      | _ \<Rightarrow>
          (if election_timeout_elapsed tm n
           then do { (requests, n) \<leftarrow> become_candidate tm n; Some (SendRequestVote requests, n) }
           else Some (apply_committed n)))"

section \<open>Merging entries\<close>

lemma contiguous_Nil [simp]: "contiguous_from m []"
  by (simp add: contiguous_from_def)

lemma contiguous_Cons [simp]:
  "contiguous_from m (e # es) \<longleftrightarrow> unat (eindex e) = m \<and> contiguous_from (Suc m) es"
  by (simp add: contiguous_from_def upt_conv_Cons del: upt_Suc)

lemma contiguous_nth:
  "contiguous_from m es \<Longrightarrow> k < length es \<Longrightarrow> unat (eindex (es ! k)) = m + k"
  by (induction es arbitrary: m k) (auto simp: nth_Cons split: nat.splits)

lemma contiguous_mem:
  "contiguous_from m es \<Longrightarrow> e \<in> set es \<Longrightarrow> m \<le> unat (eindex e) \<and> unat (eindex e) < m + length es"
  by (induction es arbitrary: m) fastforce+

lemma contiguous_drop: "contiguous_from m es \<Longrightarrow> contiguous_from (m + k) (drop k es)"
proof (induction es arbitrary: m k)
  case (Cons e es)
  then show ?case using Cons.IH [of "Suc m" "k - 1"] by (cases k) simp_all
qed simp

lemma contiguous_filter:
  "contiguous_from (p + 1) es \<Longrightarrow> p \<le> k \<Longrightarrow> filter (\<lambda>e. k < unat (eindex e)) es = drop (k - p) es"
proof (induction es arbitrary: p)
  case (Cons e es)
  show ?case
  proof (cases "k = p")
    case True
    have "k < unat (eindex x)" if "x \<in> set (e # es)" for x
      using contiguous_mem [OF Cons.prems(1) that] True by simp
    then show ?thesis using True by (simp add: filter_id_conv)
  next
    case False
    then have "k - p = Suc (k - (p + 1))" "p + 1 \<le> k" using Cons.prems(2) by auto
    with Cons show ?thesis by simp
  qed
qed simp

lemma snapshot_term_truncate [simp]: "snapshot_term (log_truncate l i) = snapshot_term l"
  by (simp add: log_truncate_def)

definition agrees :: "raft_log \<Rightarrow> log_entry \<Rightarrow> bool" where
  "agrees l e \<longleftrightarrow> (case log_view l (unat (eindex e)) of None \<Rightarrow> True | Some x \<Rightarrow> eterm x = eterm e)"

lemma truncate_conflicts_cases:
  assumes "log_ok l"
  shows "contiguous_from m es \<Longrightarrow>
    truncate_conflicts l es = l \<and> (\<forall>e \<in> set es. agrees l e) \<or>
    (\<exists>e \<in> set es. \<exists>x. log_view l (unat (eindex e)) = Some x \<and> eterm x \<noteq> eterm e \<and>
       truncate_conflicts l es = log_truncate l (eindex e) \<and>
       (\<forall>e' \<in> set es. unat (eindex e') < unat (eindex e) \<longrightarrow> agrees l e'))"
proof (induction es arbitrary: m)
  case (Cons e es)
  have view: "log_get l (eindex e) = log_view l (unat (eindex e))" using assms by (rule log_get_view)
  show ?case
  proof (cases "agrees l e")
    case False
    then obtain x where x: "log_view l (unat (eindex e)) = Some x" "eterm x \<noteq> eterm e"
      by (auto simp: agrees_def split: option.splits)
    have "\<not> unat (eindex e') < unat (eindex e)" if "e' \<in> set (e # es)" for e'
      using that Cons.prems contiguous_mem [of "Suc m" es e'] by auto
    then show ?thesis
      using x view by (intro disjI2 bexI [of _ e] exI [of _ x]) auto
  next
    case True
    then have eq: "truncate_conflicts l (e # es) = truncate_conflicts l es"
      using view by (cases "log_view l (unat (eindex e))") (simp_all add: agrees_def)
    have "contiguous_from (Suc m) es" using Cons.prems by simp
    from Cons.IH [OF this] show ?thesis
      unfolding eq using True by (elim disjE) auto
  qed
qed simp

lemma truncate_conflicts_props:
  assumes "log_ok l" and "contiguous_from (p + 1) es" and "p \<le> unat (last_index l)"
  shows "log_ok (truncate_conflicts l es)"
    and "first_index (truncate_conflicts l es) = first_index l"
    and "p \<le> unat (last_index (truncate_conflicts l es))"
    and "unat (last_index (truncate_conflicts l es)) \<le> unat (last_index l)"
    and "i \<le> unat (last_index (truncate_conflicts l es)) \<Longrightarrow> log_view (truncate_conflicts l es) i = log_view l i"
    and "e \<in> set es \<Longrightarrow> agrees (truncate_conflicts l es) e"
    and "snapshot_term (truncate_conflicts l es) = snapshot_term l"
    and "unat (last_index (truncate_conflicts l es)) = unat (last_index l) \<or>
         (\<exists>e \<in> set es. unat (eindex e) = unat (last_index (truncate_conflicts l es)) + 1)"
proof -
  have "log_ok (truncate_conflicts l es) \<and> first_index (truncate_conflicts l es) = first_index l
    \<and> p \<le> unat (last_index (truncate_conflicts l es))
    \<and> unat (last_index (truncate_conflicts l es)) \<le> unat (last_index l)
    \<and> (i \<le> unat (last_index (truncate_conflicts l es)) \<longrightarrow> log_view (truncate_conflicts l es) i = log_view l i)
    \<and> (e \<in> set es \<longrightarrow> agrees (truncate_conflicts l es) e)
    \<and> snapshot_term (truncate_conflicts l es) = snapshot_term l
    \<and> (unat (last_index (truncate_conflicts l es)) = unat (last_index l) \<or>
         (\<exists>e \<in> set es. unat (eindex e) = unat (last_index (truncate_conflicts l es)) + 1))"
    using truncate_conflicts_cases [OF assms(1,2)]
  proof (elim disjE bexE exE conjE)
    assume "truncate_conflicts l es = l" and "\<forall>e \<in> set es. agrees l e"
    then show ?thesis using assms by simp
  next
    fix f x
    assume 2: "f \<in> set es" "log_view l (unat (eindex f)) = Some x" "eterm x \<noteq> eterm f"
      "truncate_conflicts l es = log_truncate l (eindex f)"
      "\<forall>e' \<in> set es. unat (eindex e') < unat (eindex f) \<longrightarrow> agrees l e'"
    have r: "unat (first_index l) \<le> unat (eindex f)" "unat (eindex f) \<le> unat (last_index l)"
      using log_view_Some_range [OF assms(1) 2(2)] by auto
    have last: "unat (last_index (log_truncate l (eindex f))) = unat (eindex f) - 1"
      using r by (intro last_index_truncate assms(1))
    have f: "p < unat (eindex f)" using contiguous_mem [OF assms(2) 2(1)] by simp
    have "agrees (log_truncate l (eindex f)) e'" if "e' \<in> set es" for e'
      using 2(5) that by (auto simp: agrees_def log_view_truncate [OF assms(1)] restrict_map_def split: option.splits)
    with 2 r last f assms(1) show ?thesis
      by (auto simp: log_ok_truncate entries_log_truncate log_view_truncate)
  qed
  then show "log_ok (truncate_conflicts l es)"
    and "first_index (truncate_conflicts l es) = first_index l"
    and "p \<le> unat (last_index (truncate_conflicts l es))"
    and "unat (last_index (truncate_conflicts l es)) \<le> unat (last_index l)"
    and "i \<le> unat (last_index (truncate_conflicts l es)) \<Longrightarrow> log_view (truncate_conflicts l es) i = log_view l i"
    and "e \<in> set es \<Longrightarrow> agrees (truncate_conflicts l es) e"
    and "snapshot_term (truncate_conflicts l es) = snapshot_term l"
    and "unat (last_index (truncate_conflicts l es)) = unat (last_index l) \<or>
         (\<exists>e \<in> set es. unat (eindex e) = unat (last_index (truncate_conflicts l es)) + 1)"
    by blast+
qed

lemma merge_entries_eq:
  assumes "log_ok l" and "contiguous_from (p + 1) es" and "p \<le> unat (last_index l)"
  shows "merge_entries l es =
    log_append (truncate_conflicts l es) (drop (unat (last_index (truncate_conflicts l es)) - p) es)"
proof (cases "es = []")
  case True
  then show ?thesis by (simp add: merge_entries_def log_append_def)
next
  case False
  have "filter (\<lambda>e. last_index (truncate_conflicts l es) < eindex e) es
      = drop (unat (last_index (truncate_conflicts l es)) - p) es"
    unfolding u64_less_nat
    using truncate_conflicts_props(3) [OF assms] by (intro contiguous_filter assms(2))
  with False show ?thesis by (simp add: merge_entries_def Let_def log_append_def)
qed

lemma merge_entries_props:
  assumes "log_ok l" and "contiguous_from (p + 1) es" and "p \<le> unat (last_index l)"
    and "p + length es + 1 < u64_size"
  shows "log_ok (merge_entries l es)"
    and "first_index (merge_entries l es) = first_index l"
    and "snapshot_term (merge_entries l es) = snapshot_term l"
    and "p + length es \<le> unat (last_index (merge_entries l es))"
    and "i \<le> p \<Longrightarrow> log_view (merge_entries l es) i = log_view l i"
    and "e \<in> set es \<Longrightarrow> unat (first_index l) \<le> unat (eindex e) \<Longrightarrow>
      \<exists>x. log_view (merge_entries l es) (unat (eindex e)) = Some x \<and> eterm x = eterm e \<and>
          (x = e \<or> log_view l (unat (eindex e)) = Some x)"
    and "p + length es < i \<Longrightarrow> log_view (merge_entries l es) i = log_view l i \<or>
      log_view (merge_entries l es) i = None"
    and "log_view (merge_entries l es) i = log_view l i \<or> log_view (merge_entries l es) i = None \<or>
      (p < i \<and> i \<le> p + length es \<and> log_view (merge_entries l es) i = Some (es ! (i - p - 1)))"
proof -
  let ?t = "truncate_conflicts l es"
  let ?k = "unat (last_index ?t)"
  note t = truncate_conflicts_props [OF assms(1-3)]
  let ?a = "drop (?k - p) es"
  have eq: "merge_entries l es = log_append ?t ?a" by (rule merge_entries_eq [OF assms(1-3)])
  have contig: "contiguous_from (?k + 1) ?a"
    using contiguous_drop [OF assms(2), of "?k - p"] t(3) by simp
  have room: "?k + length ?a + 1 < u64_size"
    using assms(4) t(3) log_ok_bounds [OF t(1)] unat_last_index [OF t(1)]
    by (cases "?k - p \<le> length es") auto
  have view: "log_view (merge_entries l es) i =
      (if ?k < i \<and> i \<le> ?k + length ?a then Some (es ! (i - p - 1)) else log_view ?t i)" for i
    using t(3) unfolding eq log_view_append [OF t(1) room] by (auto simp: nth_drop)
  show "log_ok (merge_entries l es)" unfolding eq by (rule log_ok_append [OF t(1) contig room])
  show "first_index (merge_entries l es) = first_index l"
    and "snapshot_term (merge_entries l es) = snapshot_term l"
    using t(2,7) by (simp_all add: eq log_append_eq)
  have last: "unat (last_index (merge_entries l es)) = ?k + length ?a"
    unfolding eq by (rule last_index_append [OF t(1) contig room])
  then show "p + length es \<le> unat (last_index (merge_entries l es))" using t(3) by simp
  have gone: "log_view ?t i = None" if "?k < i" for i by (rule log_view_None [OF t(1) that])
  show "log_view (merge_entries l es) i = log_view l i" if "i \<le> p"
    using that t(3) t(5) [of i] view by simp
  show "log_view (merge_entries l es) i = log_view l i \<or> log_view (merge_entries l es) i = None"
    if "p + length es < i"
    using that t(3) t(5) [of i] gone [of i] view [of i] by (cases "i \<le> ?k") auto
  show "log_view (merge_entries l es) i = log_view l i \<or> log_view (merge_entries l es) i = None \<or>
      (p < i \<and> i \<le> p + length es \<and> log_view (merge_entries l es) i = Some (es ! (i - p - 1)))"
    using t(3) t(5) [of i] gone [of i] view [of i] by (cases "i \<le> ?k") auto
  show "\<exists>x. log_view (merge_entries l es) (unat (eindex e)) = Some x \<and> eterm x = eterm e \<and>
          (x = e \<or> log_view l (unat (eindex e)) = Some x)"
    if e: "e \<in> set es" "unat (first_index l) \<le> unat (eindex e)"
  proof (cases "unat (eindex e) \<le> ?k")
    case True
    then obtain x where x: "log_view ?t (unat (eindex e)) = Some x"
      using e(2) t(2) log_view_dom [OF t(1), of "unat (eindex e)"] by auto
    then have "eterm x = eterm e" using t(6) [OF e(1)] by (simp add: agrees_def)
    moreover have "log_view l (unat (eindex e)) = Some x" using t(5) [OF True] x by (simp only:)
    moreover have "log_view (merge_entries l es) (unat (eindex e)) = Some x" using view True x by simp
    ultimately show ?thesis by blast
  next
    case False
    obtain k where k: "k < length es" "e = es ! k" using e(1) by (metis in_set_conv_nth)
    then have "unat (eindex e) = p + 1 + k" using contiguous_nth [OF assms(2)] by simp
    with False k t(3) view [of "unat (eindex e)"] show ?thesis by simp
  qed
qed

section \<open>Well-formed nodes\<close>

definition timeouts_ok :: "raft_node \<Rightarrow> bool" where
  "timeouts_ok n \<longleftrightarrow> election_timeout_min (raft_conf n) \<le> election_timeout_max (raft_conf n)"

definition roles_ok :: "raft_node \<Rightarrow> bool" where
  "roles_ok n \<longleftrightarrow>
     (rstate n = Leader \<longleftrightarrow> rleader_state n \<noteq> None) \<and>
     (rstate n \<noteq> Follower \<longrightarrow> nvote n = Some (rid n)) \<and>
     distinct (map fst (votes_received n))"

definition node_ok :: "raft_node \<Rightarrow> bool" where
  "node_ok n \<longleftrightarrow> timeouts_ok n \<and> roles_ok n \<and> log_ok (rlog n)"

text \<open>The part of the state no handler but a configuration change touches.\<close>

definition same_group :: "raft_node \<Rightarrow> raft_node \<Rightarrow> bool" where
  "same_group n n' \<longleftrightarrow>
     rid n' = rid n \<and> rspace_id n' = rspace_id n \<and> rpart_id n' = rpart_id n \<and>
     rconfig n' = rconfig n \<and> raft_conf n' = raft_conf n"

named_theorems raft_defs

lemmas [raft_defs] = become_follower_def reset_election_timeout_def random_election_deadline_def
  same_group_def timeouts_ok_def roles_ok_def

lemma node_ok_new:
  assumes "raft_node_new tm i s p c conf = Some n"
  shows "node_ok n"
  using assms by (auto simp: raft_node_new_def node_ok_def log_ok_new raft_defs split: if_splits)

lemma request_vote_result:
  assumes "handle_request_vote tm n req = Some (resp, n')"
  shows "same_group n n'" and "rlog n' = rlog n" and "volatile n' = volatile n"
    and "nterm n' = max (nterm n) (rv_term req)" and "rvr_term resp = nterm n'"
    and "rvr_vote_granted resp \<longleftrightarrow>
      nterm n \<le> rv_term req \<and>
      (nterm n < rv_term req \<or> nvote n = None \<or> nvote n = Some (rv_candidate_id req)) \<and>
      is_up_to_date (rlog n) (rv_last_log_index req) (rv_last_log_term req)"
    and "nvote n' = (if rvr_vote_granted resp then Some (rv_candidate_id req)
                     else if nterm n < rv_term req then None else nvote n)"
    and "rstate n' = (if nterm n < rv_term req then Follower else rstate n)"
    and "rleader_state n' = (if nterm n < rv_term req then None else rleader_state n)"
    and "votes_received n' = votes_received n"
  using assms
  by (auto simp: handle_request_vote_def raft_defs max_def split: if_splits bind_splits)

lemma request_vote_total: "timeouts_ok n \<Longrightarrow> \<exists>resp n'. handle_request_vote tm n req = Some (resp, n')"
  by (auto simp: handle_request_vote_def raft_defs)

lemma node_ok_request_vote:
  assumes "handle_request_vote tm n req = Some (resp, n')" and "node_ok n"
  shows "node_ok n'"
proof -
  note r = request_vote_result [OF assms(1)]
  have "nvote n' = Some (rid n')" if "rstate n' \<noteq> Follower"
    using that assms(2) r(1,6-8) by (auto simp: node_ok_def raft_defs split: if_splits)
  then show ?thesis
    using assms(2) r by (auto simp: node_ok_def raft_defs split: if_splits)
qed

lemma become_leader_result:
  shows "same_group n (become_leader n)" and "rlog (become_leader n) = snd (append_entry (rlog n) (nterm n) Noop)"
    and "volatile (become_leader n) = volatile n" and "persistent (become_leader n) = persistent n"
    and "rstate (become_leader n) = Leader" and "leader_id (become_leader n) = Some (rid n)"
    and "rleader_state (become_leader n) =
      Some (init_leader_state (rid n) (last_index (rlog n)) (voters (rconfig n)))"
    and "votes_received (become_leader n) = votes_received n"
  by (simp_all add: become_leader_def Let_def same_group_def)

lemma vote_response_result:
  assumes "handle_request_vote_response tm n from_id resp = Some (won, n')"
  shows "same_group n n'" and "volatile n' = volatile n"
    and "nterm n' = (if rstate n = Candidate then max (nterm n) (rvr_term resp) else nterm n)"
    and "won \<Longrightarrow> rstate n = Candidate \<and> rvr_term resp \<le> nterm n \<and> rstate n' = Leader \<and>
           majority (rconfig n) \<le> votes_for n' \<and> nvote n' = nvote n \<and>
           votes_received n' = AList.update from_id (rvr_vote_granted resp) (votes_received n)"
    and "\<not> won \<Longrightarrow> rlog n' = rlog n \<and> (rstate n' = Leader \<longleftrightarrow> rstate n = Leader)"
    and "rlog n' = rlog n \<or> rlog n' = snd (append_entry (rlog n) (nterm n) Noop)"
    and "nterm n' = nterm n \<Longrightarrow> nvote n' = nvote n"
  using assms become_leader_result
  by (auto simp: handle_request_vote_response_def raft_defs votes_for_def max_def Let_def
      split: if_splits bind_splits)

lemma vote_response_total:
  "timeouts_ok n \<Longrightarrow> \<exists>won n'. handle_request_vote_response tm n from_id resp = Some (won, n')"
  by (auto simp: handle_request_vote_response_def raft_defs Let_def)

lemma node_ok_vote_response:
  assumes "handle_request_vote_response tm n from_id resp = Some (won, n')" and "node_ok n" and "log_room (rlog n)"
  shows "node_ok n'"
  using assms(1,2) log_ok_append_entry [OF _ assms(3)] become_leader_result
  by (auto simp: handle_request_vote_response_def node_ok_def raft_defs Let_def distinct_update
      split: if_splits bind_splits)

lemma candidate_result:
  assumes "become_candidate tm n = Some (reqs, n')"
  shows "same_group n n'" and "rlog n' = rlog n" and "volatile n' = volatile n"
    and "nterm n' = nterm n + 1" and "rstate n' = Candidate" and "nvote n' = Some (rid n)"
    and "votes_received n' = [(rid n, True)]" and "rleader_state n' = None"
    and "reqs = map (\<lambda>v. (v, \<lparr>rv_term = nterm n', rv_candidate_id = rid n,
                rv_last_log_index = last_index (rlog n), rv_last_log_term = last_term (rlog n)\<rparr>))
              (filter (\<lambda>v. v \<noteq> rid n) (voters (rconfig n)))"
  using assms by (auto simp: become_candidate_def raft_defs Let_def split: if_splits bind_splits)

lemma candidate_total: "timeouts_ok n \<Longrightarrow> \<exists>reqs n'. become_candidate tm n = Some (reqs, n')"
  by (auto simp: become_candidate_def raft_defs Let_def)

lemma node_ok_candidate: "become_candidate tm n = Some (reqs, n') \<Longrightarrow> node_ok n \<Longrightarrow> node_ok n'"
  using candidate_result [of tm n reqs n'] by (auto simp: node_ok_def raft_defs)

definition prev_matches :: "raft_log \<Rightarrow> append_entries_request \<Rightarrow> bool" where
  "prev_matches l req \<longleftrightarrow>
     ae_prev_log_index req = 0 \<or> log_term l (ae_prev_log_index req) = Some (ae_prev_log_term req)"

definition steps_down :: "raft_node \<Rightarrow> append_entries_request \<Rightarrow> bool" where
  "steps_down n req \<longleftrightarrow> nterm n < ae_term req \<or> ae_term req = nterm n \<and> rstate n = Candidate"

lemma append_entries_result:
  assumes "handle_append_entries tm n req = Some (resp, n')"
  shows "same_group n n'" and "nterm n' = max (nterm n) (ae_term req)" and "aer_term resp = nterm n'"
    and "votes_received n' = votes_received n" and "napplied n' = napplied n"
    and "aer_success resp \<longleftrightarrow> nterm n \<le> ae_term req \<and> prev_matches (rlog n) req"
    and "rlog n' =
      (if ae_term req < nterm n then rlog n
       else if prev_matches (rlog n) req then merge_entries (rlog n) (ae_entries req)
       else if log_term (rlog n) (ae_prev_log_index req) = None then rlog n
       else log_truncate (rlog n) (ae_prev_log_index req))"
    and "ncommit n' =
      (if aer_success resp \<and> ncommit n < ae_leader_commit req
       then min (ae_leader_commit req) (last_index (rlog n')) else ncommit n)"
    and "aer_match_index resp = (if ae_term req < nterm n then 0 else last_index (rlog n'))"
    and "nvote n' = (if steps_down n req then None else nvote n)"
    and "rstate n' = (if steps_down n req then Follower else rstate n)"
    and "rleader_state n' = (if steps_down n req then None else rleader_state n)"
  using assms
  by (auto simp: handle_append_entries_def raft_defs max_def Let_def prev_matches_def steps_down_def word_gt_0
      split: if_splits bind_splits)

lemma append_entries_total: "timeouts_ok n \<Longrightarrow> \<exists>resp n'. handle_append_entries tm n req = Some (resp, n')"
  by (auto simp: handle_append_entries_def raft_defs Let_def)

section \<open>Replication\<close>

text \<open>A request whose entries follow its previous index, one index after the other.\<close>

definition ae_ok :: "append_entries_request \<Rightarrow> bool" where
  "ae_ok req \<longleftrightarrow>
     contiguous_from (unat (ae_prev_log_index req) + 1) (ae_entries req) \<and>
     unat (ae_prev_log_index req) + length (ae_entries req) + 1 < u64_size"

lemma prev_matches_le:
  "log_ok l \<Longrightarrow> prev_matches l req \<Longrightarrow> unat (ae_prev_log_index req) \<le> unat (last_index l)"
  by (auto simp: prev_matches_def intro: log_term_le_last)

lemma node_ok_append_entries:
  assumes "handle_append_entries tm n req = Some (resp, n')" and "node_ok n" and "ae_ok req"
  shows "node_ok n'"
proof -
  note r = append_entries_result [OF assms(1)]
  have l: "log_ok (rlog n)" using assms(2) by (simp add: node_ok_def)
  have "log_ok (merge_entries (rlog n) (ae_entries req))" if "prev_matches (rlog n) req"
    using assms(3) merge_entries_props(1) [OF l _ prev_matches_le [OF l that]] by (simp add: ae_ok_def)
  then have "log_ok (rlog n')" using l by (simp add: r(7) log_ok_truncate)
  moreover have "roles_ok n'" "timeouts_ok n'"
    using assms(2) r(1,4,10-12) by (auto simp: node_ok_def raft_defs)
  ultimately show ?thesis by (simp add: node_ok_def)
qed

text \<open>The commit index is within the log and nothing is applied beyond it.\<close>

definition commit_ok :: "raft_node \<Rightarrow> bool" where
  "commit_ok n \<longleftrightarrow> ncommit n \<le> last_index (rlog n) \<and> napplied n \<le> ncommit n"

text \<open>A request that contradicts no committed entry.\<close>

definition respects_commit :: "raft_node \<Rightarrow> append_entries_request \<Rightarrow> bool" where
  "respects_commit n req \<longleftrightarrow>
     (prev_matches (rlog n) req \<or> log_term (rlog n) (ae_prev_log_index req) = None \<or>
      ncommit n < ae_prev_log_index req) \<and>
     list_all (\<lambda>e. eindex e \<le> ncommit n \<longrightarrow> agrees (rlog n) e) (ae_entries req)"

lemma truncate_conflicts_keeps:
  assumes "log_ok l" and "contiguous_from m es"
    and "list_all (\<lambda>e. unat (eindex e) \<le> c \<longrightarrow> agrees l e) es" and "c \<le> unat (last_index l)"
  shows "c \<le> unat (last_index (truncate_conflicts l es))"
  using truncate_conflicts_cases [OF assms(1,2)]
proof (elim disjE bexE exE conjE)
  fix f x
  assume f: "f \<in> set es" "log_view l (unat (eindex f)) = Some x" "eterm x \<noteq> eterm f"
    "truncate_conflicts l es = log_truncate l (eindex f)"
  then have "\<not> agrees l f" by (simp add: agrees_def)
  with assms(3) f(1) have "c < unat (eindex f)" by (auto simp: list_all_iff)
  moreover have "unat (last_index (log_truncate l (eindex f))) = unat (eindex f) - 1"
    using log_view_Some_range [OF assms(1) f(2)] by (intro last_index_truncate assms(1)) auto
  ultimately show ?thesis using f(4) by simp
qed (use assms(4) in simp)

lemma merge_keeps:
  assumes "log_ok l" and "contiguous_from (p + 1) es" and "p \<le> unat (last_index l)"
    and "p + length es + 1 < u64_size"
    and "list_all (\<lambda>e. unat (eindex e) \<le> c \<longrightarrow> agrees l e) es" and "c \<le> unat (last_index l)"
  shows "c \<le> unat (last_index (merge_entries l es))"
    and "i \<le> c \<Longrightarrow> log_view (merge_entries l es) i = log_view l i"
proof -
  let ?t = "truncate_conflicts l es"
  let ?k = "unat (last_index ?t)"
  note t = truncate_conflicts_props [OF assms(1-3)]
  have c: "c \<le> ?k" by (rule truncate_conflicts_keeps [OF assms(1,2,5,6)])
  have eq: "merge_entries l es = log_append ?t (drop (?k - p) es)" by (rule merge_entries_eq [OF assms(1-3)])
  have contig: "contiguous_from (?k + 1) (drop (?k - p) es)"
    using contiguous_drop [OF assms(2), of "?k - p"] t(3) by simp
  have room: "?k + length (drop (?k - p) es) + 1 < u64_size"
    using assms(4) t(3) log_ok_bounds [OF t(1)] unat_last_index [OF t(1)]
    by (cases "?k - p \<le> length es") auto
  show "c \<le> unat (last_index (merge_entries l es))"
    unfolding eq last_index_append [OF t(1) contig room] using c by simp
  show "log_view (merge_entries l es) i = log_view l i" if "i \<le> c"
    unfolding eq log_view_append [OF t(1) room] using that c t(5) [of i] by simp
qed

lemma append_entries_keeps_committed:
  assumes "handle_append_entries tm n req = Some (resp, n')" and "node_ok n" and "ae_ok req"
    and "commit_ok n" and "respects_commit n req"
  shows "commit_ok n'" and "ncommit n \<le> ncommit n'"
    and "i \<le> unat (ncommit n) \<Longrightarrow> log_view (rlog n') i = log_view (rlog n) i"
proof -
  note r = append_entries_result [OF assms(1)]
  have l: "log_ok (rlog n)" using assms(2) by (simp add: node_ok_def)
  have c: "unat (ncommit n) \<le> unat (last_index (rlog n))"
    using assms(4) by (simp add: commit_ok_def u64_le_nat)
  have m: "unat (ncommit n) \<le> unat (last_index (merge_entries (rlog n) (ae_entries req)))"
    "i \<le> unat (ncommit n) \<Longrightarrow> log_view (merge_entries (rlog n) (ae_entries req)) i = log_view (rlog n) i"
    if "prev_matches (rlog n) req" for i
    using assms(3,5) c merge_keeps [OF l _ prev_matches_le [OF l that]]
    by (auto simp: ae_ok_def respects_commit_def u64_le_nat)
  have t: "unat (ncommit n) \<le> unat (last_index (log_truncate (rlog n) (ae_prev_log_index req)))"
    "i \<le> unat (ncommit n) \<Longrightarrow> log_view (log_truncate (rlog n) (ae_prev_log_index req)) i = log_view (rlog n) i"
    if "unat (ncommit n) < unat (ae_prev_log_index req)" for i
    using that c l last_index_truncate [OF l, of "ae_prev_log_index req"] first_le_last [OF l]
    by (auto simp: log_view_truncate restrict_map_def unat_last_index log_ok_truncate entries_log_truncate)
  have last: "unat (ncommit n) \<le> unat (last_index (rlog n'))"
    using m(1) t(1) c assms(5) unfolding r(7) by (auto simp: respects_commit_def u64_less_nat)
  show "log_view (rlog n') i = log_view (rlog n) i" if "i \<le> unat (ncommit n)"
    using that m(2) t(2) assms(5) unfolding r(7) by (auto simp: respects_commit_def u64_less_nat)
  show "ncommit n \<le> ncommit n'"
    using last unfolding r(8) by (auto simp: u64_le_nat u64_less_nat min_def)
  with last assms(4) show "commit_ok n'"
    unfolding commit_ok_def r(5) by (auto simp: r(8) u64_le_nat u64_less_nat min_def)
qed

text \<open>
  Log matching between two logs: wherever both hold an entry of the same term, they hold the
  same entries up to there.
\<close>

definition log_matching :: "(nat \<Rightarrow> log_entry option) \<Rightarrow> (nat \<Rightarrow> log_entry option) \<Rightarrow> bool" where
  "log_matching l L \<longleftrightarrow>
     (\<forall>i x y. l i = Some x \<and> L i = Some y \<and> eterm x = eterm y \<longrightarrow>
        (\<forall>j \<le> i. \<forall>x' y'. l j = Some x' \<and> L j = Some y' \<longrightarrow> x' = y'))"

lemma log_matchingD:
  "log_matching l L \<Longrightarrow> l i = Some x \<Longrightarrow> L i = Some y \<Longrightarrow> eterm x = eterm y \<Longrightarrow>
   j \<le> i \<Longrightarrow> l j = Some x' \<Longrightarrow> L j = Some y' \<Longrightarrow> x' = y'"
  unfolding log_matching_def by blast

text \<open>The entries of the request are those of the log \<open>L\<close> it was made from.\<close>

definition request_from :: "(nat \<Rightarrow> log_entry option) \<Rightarrow> append_entries_request \<Rightarrow> bool" where
  "request_from L req \<longleftrightarrow>
     (\<forall>e \<in> set (ae_entries req). L (unat (eindex e)) = Some e) \<and>
     (ae_prev_log_index req \<noteq> 0 \<longrightarrow>
        map_option eterm (L (unat (ae_prev_log_index req))) = Some (ae_prev_log_term req))"

lemma merge_log_matching:
  assumes l: "log_ok l" and req: "ae_ok req" and p: "prev_matches l req"
    and L: "request_from L req" and lm: "log_matching (log_view l) L"
  shows "log_matching (log_view (merge_entries l (ae_entries req))) L"
  unfolding log_matching_def
proof (intro allI impI, elim conjE)
  let ?p = "unat (ae_prev_log_index req)" and ?es = "ae_entries req"
  let ?l' = "merge_entries l ?es"
  note m = merge_entries_props [OF l _ prev_matches_le [OF l p], of ?es]
  have contig: "contiguous_from (?p + 1) ?es" "?p + length ?es + 1 < u64_size"
    using req by (auto simp: ae_ok_def)
  fix i x y j x' y'
  assume i: "log_view ?l' i = Some x" "L i = Some y" "eterm x = eterm y"
    and j: "j \<le> i" "log_view ?l' j = Some x'" "L j = Some y'"
  show "x' = y'"
  proof (cases "?p < j \<and> j \<le> ?p + length ?es")
    case True
    define e where "e = ?es ! (j - ?p - 1)"
    have e: "e \<in> set ?es" "unat (eindex e) = j"
      using True contiguous_nth [OF contig(1), of "j - ?p - 1"] by (auto simp: e_def)
    have "unat (first_index l) \<le> j"
      using log_view_Some_range [OF m(1) j(2)] m(2) contig by simp
    with m(6) [OF contig e(1)] e(2) j(2) have x': "eterm x' = eterm e" "x' = e \<or> log_view l j = Some x'"
      by auto
    moreover have "y' = e" using L e j(3) by (auto simp: request_from_def)
    ultimately show ?thesis using log_matchingD [OF lm, of j x' y' j x' y'] j(3) by auto
  next
    case out: False
    then have lj: "log_view l j = Some x'"
      using j(2) m(8) [OF contig, of j] by auto
    show ?thesis
    proof (cases "i \<le> ?p \<or> ?p + length ?es < i")
      case True
      then have "log_view l i = Some x" using i(1) m(5,7) [OF contig] by (metis option.distinct(1))
      from log_matchingD [OF lm this i(2,3) j(1) lj j(3)] show ?thesis .
    next
      case False
      with out j(1) have jp: "j \<le> ?p" by auto
      have fi: "unat (first_index l) \<le> j" using log_view_Some_range [OF l lj] by simp
      have "ae_prev_log_index req \<noteq> 0"
        using jp fi log_ok_bounds [OF l] by auto
      then obtain z w where "log_view l ?p = Some z" "L ?p = Some w" "eterm z = eterm w"
        using p L fi jp log_term_view [OF l, of "ae_prev_log_index req"]
        by (auto simp: prev_matches_def request_from_def)
      from log_matchingD [OF lm this jp lj j(3)] show ?thesis .
    qed
  qed
qed

end
