(* ===== verification/RaftSteps.thy ===== *)
theory RaftSteps
  imports RaftNode
begin

text \<open>
  What the handlers of a Raft node do, one after the other: the leader's commit rule, the requests it
  sends, applying committed entries, snapshots, configuration changes and ticks; then the node
  as a machine that takes events, and what holds along every run of it.

  \<open>guarded_runs\<close> is the contract of such a machine: an invariant that each admissible step keeps and
  a relation between the states before and after, both of which then hold along whole runs.
  It is provided by \<open>node_step\<close>.
\<close>

section \<open>Commitment\<close>

lemma sorted_count_ge:
  fixes s :: "'a::linorder list"
  assumes "sorted s" and "0 < m" and "m \<le> length s"
  shows "m \<le> length (filter (\<lambda>v. i \<le> v) s) \<longleftrightarrow> i \<le> s ! (length s - m)"
proof
  let ?k = "length s - m"
  assume le: "i \<le> s ! ?k"
  have "i \<le> v" if v: "v \<in> set (drop ?k s)" for v
  proof -
    from v obtain j where j: "j < length (drop ?k s)" "drop ?k s ! j = v" by (metis in_set_conv_nth)
    then have "?k + j < length s" "v = s ! (?k + j)" by simp_all
    with assms(1) have "s ! ?k \<le> v" by (simp add: sorted_iff_nth_mono)
    with le show ?thesis by simp
  qed
  then have "filter (\<lambda>v. i \<le> v) (drop ?k s) = drop ?k s" by (simp add: filter_id_conv)
  then have "m = length (filter (\<lambda>v. i \<le> v) (drop ?k s))" using assms(3) by simp
  also have "\<dots> \<le> length (filter (\<lambda>v. i \<le> v) (take ?k s @ drop ?k s))"
    unfolding filter_append length_append by simp
  finally show "m \<le> length (filter (\<lambda>v. i \<le> v) s)" by simp
next
  let ?k = "length s - m"
  assume m: "m \<le> length (filter (\<lambda>v. i \<le> v) s)"
  show "i \<le> s ! ?k"
  proof (rule ccontr)
    assume "\<not> i \<le> s ! ?k"
    have "\<not> i \<le> v" if v: "v \<in> set (take (Suc ?k) s)" for v
    proof -
      from v obtain j where "j < length (take (Suc ?k) s)" "take (Suc ?k) s ! j = v" by (metis in_set_conv_nth)
      then have "j \<le> ?k" "v = s ! j" by simp_all
      moreover have "?k < length s" using assms by simp
      ultimately have "v \<le> s ! ?k" using assms(1) by (simp add: sorted_iff_nth_mono)
      with \<open>\<not> i \<le> s ! ?k\<close> show ?thesis by auto
    qed
    then have "filter (\<lambda>v. i \<le> v) (take (Suc ?k) s) = []" by (simp add: filter_empty_conv)
    then have "length (filter (\<lambda>v. i \<le> v) (take (Suc ?k) s @ drop (Suc ?k) s)) \<le> length (drop (Suc ?k) s)"
      unfolding filter_append length_append
      using length_filter_le [of "\<lambda>v. i \<le> v" "drop (Suc ?k) s"] by simp
    with m assms show False by simp
  qed
qed

text \<open>The leader knows of voter \<open>v\<close> that its log reaches index \<open>i\<close>.\<close>

definition replicated :: "raft_node \<Rightarrow> leader_state \<Rightarrow> log_index \<Rightarrow> node_id \<Rightarrow> bool" where
  "replicated n ls i v \<longleftrightarrow>
     (if v = rid n then i \<le> last_index (rlog n)
      else (case map_of (match_index ls) v of None \<Rightarrow> False | Some m \<Rightarrow> i \<le> m))"

definition leader_tracks :: "raft_node \<Rightarrow> leader_state \<Rightarrow> bool" where
  "leader_tracks n ls \<longleftrightarrow>
     distinct (voters (rconfig n)) \<and> rid n \<in> set (voters (rconfig n)) \<and>
     distinct (map fst (match_index ls)) \<and>
     fst ` set (match_index ls) = set (voters (rconfig n)) - {rid n}"

lemma count_replicated:
  assumes "leader_tracks n ls"
  shows "length (filter (\<lambda>m. i \<le> m) (map snd (match_index ls) @ [last_index (rlog n)]))
       = card {v \<in> set (voters (rconfig n)). replicated n ls i v}"
proof -
  let ?m = "match_index ls"
  have d: "distinct (map fst ?m)" and dom: "fst ` set ?m = set (voters (rconfig n)) - {rid n}"
    and self: "rid n \<in> set (voters (rconfig n))" using assms by (auto simp: leader_tracks_def)
  let ?S = "fst ` set (filter (\<lambda>p. i \<le> snd p) ?m)"
  have "distinct (map fst (filter (\<lambda>p. i \<le> snd p) ?m))" using d by (rule distinct_map_filter)
  then have cS: "card ?S = length (filter (\<lambda>p. i \<le> snd p) ?m)"
    using distinct_card [of "map fst (filter (\<lambda>p. i \<le> snd p) ?m)"] by simp
  have others: "?S = {v \<in> set (voters (rconfig n)). v \<noteq> rid n \<and> replicated n ls i v}"
  proof (rule set_eqI)
    fix v
    have "v \<in> ?S \<longleftrightarrow> (\<exists>m. map_of ?m v = Some m \<and> i \<le> m)"
      using d by (auto simp: map_of_eq_Some_iff image_iff Bex_def)
    moreover have "map_of ?m v \<noteq> None \<longleftrightarrow> v \<in> set (voters (rconfig n)) - {rid n}"
      using dom by (simp add: map_of_eq_None_iff)
    ultimately show "v \<in> ?S \<longleftrightarrow> v \<in> {v \<in> set (voters (rconfig n)). v \<noteq> rid n \<and> replicated n ls i v}"
      by (auto simp: replicated_def split: option.splits)
  qed
  have "{v \<in> set (voters (rconfig n)). replicated n ls i v}
      = (if i \<le> last_index (rlog n) then insert (rid n) ?S else ?S)"
    unfolding others using self by (auto simp: replicated_def)
  moreover have "rid n \<notin> ?S" unfolding others by simp
  moreover have "finite ?S" by simp
  ultimately show ?thesis using cS by (auto simp: filter_map comp_def)
qed

lemma leader_tracks_length:
  assumes "leader_tracks n ls"
  shows "length (match_index ls) + 1 = length (voters (rconfig n))"
proof -
  have "length (match_index ls) = card (set (voters (rconfig n)) - {rid n})"
    using assms distinct_card [of "map fst (match_index ls)"] by (simp add: leader_tracks_def)
  also have "\<dots> + 1 = card (set (voters (rconfig n)))"
    using assms card_Suc_Diff1 [of "set (voters (rconfig n))" "rid n"] by (simp add: leader_tracks_def)
  finally show ?thesis using assms by (simp add: leader_tracks_def distinct_card)
qed

lemma majority_match_index_correct:
  assumes "leader_tracks n ls"
  obtains m where "majority_match_index n ls = Some m"
    and "\<And>i. majority (rconfig n) \<le> card {v \<in> set (voters (rconfig n)). replicated n ls i v} \<longleftrightarrow> i \<le> m"
proof -
  let ?s = "sort (map snd (match_index ls) @ [last_index (rlog n)])"
  let ?maj = "majority (rconfig n)"
  have len: "length ?s = length (voters (rconfig n))" using leader_tracks_length [OF assms] by simp
  then have maj: "0 < ?maj" "?maj \<le> length ?s"
    using assms unfolding len majority_def by (auto simp: leader_tracks_def Suc_le_eq dest: length_pos_if_in_set)
  then have eq: "majority_match_index n ls = Some (?s ! (length ?s - ?maj))"
    by (simp add: majority_match_index_def Let_def vec_get_def del: length_sort)
  moreover have "?maj \<le> card {v \<in> set (voters (rconfig n)). replicated n ls i v} \<longleftrightarrow> i \<le> ?s ! (length ?s - ?maj)" for i
  proof -
    have "length (filter (\<lambda>m. i \<le> m) ?s)
        = length (filter (\<lambda>m. i \<le> m) (map snd (match_index ls) @ [last_index (rlog n)]))"
      unfolding filter_sort length_sort by (rule refl)
    then show ?thesis
      using sorted_count_ge [OF sorted_sort maj, of i] count_replicated [OF assms, of i] by (simp only:)
  qed
  ultimately show thesis by (rule that)
qed

lemma try_advance_result:
  assumes "try_advance_commit_index n = Some n'"
  shows "n' = n \<or> (\<exists>m ls. n' = n\<lparr>volatile := (volatile n)\<lparr>commit_index := m\<rparr>\<rparr> \<and> ncommit n < m \<and>
    log_term (rlog n) m = Some (nterm n) \<and> rleader_state n = Some ls \<and> majority_match_index n ls = Some m)"
  using assms
  by (auto simp: try_advance_commit_index_def split: option.splits bind_splits if_splits)

lemma try_advance_total:
  assumes "rleader_state n = Some ls" and "leader_tracks n ls"
  shows "\<exists>n'. try_advance_commit_index n = Some n'"
proof -
  obtain m where "majority_match_index n ls = Some m"
    using majority_match_index_correct [OF assms(2)] by blast
  with assms(1) show ?thesis by (auto simp: try_advance_commit_index_def split: option.splits)
qed

lemma init_leader_state_match:
  "map_of (match_index (init_leader_state self i vs)) = (\<lambda>v. if v \<in> set vs \<and> v \<noteq> self then Some 0 else None) \<and>
   map_of (next_index (init_leader_state self i vs)) = (\<lambda>v. if v \<in> set vs \<and> v \<noteq> self then Some (i + 1) else None)"
  unfolding init_leader_state_def
  by (induction vs rule: rev_induct) (simp_all add: update_conv' fun_eq_iff)

lemma init_leader_state_distinct:
  "distinct (map fst (match_index (init_leader_state self i vs)))"
  unfolding init_leader_state_def
  by (induction vs rule: rev_induct) (simp_all add: distinct_update)

lemma leader_tracks_init:
  assumes "distinct (voters (rconfig n))" and "rid n \<in> set (voters (rconfig n))"
  shows "leader_tracks n (init_leader_state (rid n) i (voters (rconfig n)))"
proof -
  let ?m = "match_index (init_leader_state (rid n) i (voters (rconfig n)))"
  have "fst ` set ?m = {v. map_of ?m v \<noteq> None}" by (auto simp: map_of_eq_None_iff)
  also have "\<dots> = set (voters (rconfig n)) - {rid n}"
    unfolding init_leader_state_match [of "rid n" i "voters (rconfig n)", THEN conjunct1] by auto
  finally show ?thesis
    using assms init_leader_state_distinct by (simp add: leader_tracks_def)
qed

lemma append_response_result:
  assumes "handle_append_entries_response tm n from_id resp = Some n'"
  shows "same_group n n'" and "rlog n' = rlog n" and "napplied n' = napplied n"
    and "nterm n' = (if rstate n = Leader then max (nterm n) (aer_term resp) else nterm n)"
    and "nterm n' = nterm n \<Longrightarrow> nvote n' = nvote n"
    and "votes_received n' = votes_received n"
    and "rstate n' = (if rstate n = Leader \<and> nterm n < aer_term resp then Follower else rstate n)"
    and "rleader_state n' = None \<longleftrightarrow> rleader_state n = None \<or> rstate n = Leader \<and> nterm n < aer_term resp"
    and "ncommit n \<le> ncommit n'"
    and "ncommit n' = ncommit n \<or> log_term (rlog n) (ncommit n') = Some (nterm n)"
  using assms
  by (auto simp: handle_append_entries_response_def raft_defs max_def Let_def
      split: if_splits bind_splits option.splits dest!: try_advance_result)

lemma node_ok_append_response:
  assumes "handle_append_entries_response tm n from_id resp = Some n'" and "node_ok n"
  shows "node_ok n'"
proof -
  note r = append_response_result [OF assms(1)]
  have "nvote n' = Some (rid n')" if "rstate n' \<noteq> Follower"
    using that assms(2) r(1,4,5,7)
    by (auto simp: node_ok_def raft_defs max_def split: if_splits)
  then show ?thesis using assms(2) r by (auto simp: node_ok_def raft_defs split: if_splits)
qed

lemma append_response_commit_ok:
  assumes "handle_append_entries_response tm n from_id resp = Some n'" and "node_ok n" and "commit_ok n"
  shows "commit_ok n'"
proof -
  note r = append_response_result [OF assms(1)]
  have "unat (ncommit n') \<le> unat (last_index (rlog n))"
    using r(10) assms(2,3) log_term_le_last [of "rlog n" "ncommit n'"]
    by (auto simp: node_ok_def commit_ok_def u64_le_nat)
  then show ?thesis using assms(3) r(2,3,9) by (auto simp: commit_ok_def u64_le_nat)
qed

lemma node_ok_propose:
  "node_ok n \<Longrightarrow> log_room (rlog n) \<Longrightarrow> propose n c = (r, n') \<Longrightarrow> node_ok n'"
  using log_ok_append_entry [of "rlog n" "nterm n" c]
  by (auto simp: propose_def node_ok_def raft_defs split: if_splits prod.splits)

lemma node_ok_propose_config_change:
  "node_ok n \<Longrightarrow> log_room (rlog n) \<Longrightarrow> propose_config_change n c = (r, n') \<Longrightarrow> node_ok n'"
  using log_ok_append_entry [of "rlog n" "nterm n" "ConfigChange c"]
  by (auto simp: propose_config_change_def node_ok_def raft_defs split: if_splits prod.splits)

lemma propose_result:
  assumes "propose n c = (r, n')"
  shows "same_group n n'" and "persistent n' = persistent n" and "volatile n' = volatile n"
    and "rstate n' = rstate n" and "rleader_state n' = rleader_state n"
    and "rstate n \<noteq> Leader \<Longrightarrow> r = Inl (NotLeader (leader_id n)) \<and> n' = n"
    and "rstate n = Leader \<Longrightarrow> r = Inr (last_index (rlog n) + 1) \<and>
           rlog n' = snd (append_entry (rlog n) (nterm n) c)"
  using assms by (auto simp: propose_def same_group_def append_entry_def Let_def split: if_splits)

subsection \<open>Requests the leader sends\<close>

lemma append_request_for_correct:
  assumes "log_ok (rlog n)" and nxt: "map_of (next_index ls) v = Some i"
    and "first_index (rlog n) \<le> i"
    and "unat i + max_entries_per_request (raft_conf n) < u64_size"
  obtains req where "append_request_for n ls v = Some req" and "ae_ok req"
    and "unat (ae_prev_log_index req) = unat i - 1"
    and "ae_entries req = view_slice (rlog n) (unat i)
           (min (unat i + max_entries_per_request (raft_conf n)) (unat (last_index (rlog n)) + 1))"
    and "ae_term req = nterm n" and "ae_leader_id req = rid n" and "ae_leader_commit req = ncommit n"
    and "i = 1 \<or> first_index (rlog n) < i \<and> unat i \<le> unat (last_index (rlog n)) + 1 \<Longrightarrow>
           request_from (log_view (rlog n)) req"
proof -
  let ?l = "rlog n" and ?k = "max_entries_per_request (raft_conf n)"
  let ?p = "saturating_sub i 1"
  let ?es = "view_slice ?l (unat i) (min (unat i + ?k) (unat (last_index ?l) + 1))"
  have i1: "1 \<le> unat i" "unat (first_index ?l) \<le> unat i"
    using assms(3) log_ok_bounds [OF assms(1)] by (auto simp: u64_le_nat)
  have stop: "unat (i + of_nat ?k) = unat i + ?k"
    using assms(4) by (subst unat_u64_add) (auto simp: unat_u64_of_nat)
  have "entries_range ?l i (i + of_nat ?k) = Some ?es"
    using i1 stop by (subst entries_range_correct [OF assms(1)]) (auto simp: u64_le_nat)
  note range = this
  define req where "req =
    \<lparr>ae_term = nterm n, ae_leader_id = rid n, ae_prev_log_index = ?p,
     ae_prev_log_term = (case log_term ?l ?p of Some t \<Rightarrow> t | None \<Rightarrow> 0),
     ae_entries = ?es, ae_leader_commit = ncommit n\<rparr>"
  have req: "append_request_for n ls v = Some req" "ae_entries req = ?es"
    "ae_prev_log_index req = ?p" "ae_term req = nterm n" "ae_leader_id req = rid n"
    "ae_leader_commit req = ncommit n"
    "ae_prev_log_term req = (case log_term ?l ?p of Some t \<Rightarrow> t | None \<Rightarrow> 0)"
    unfolding append_request_for_def Let_def nxt option.case range bind.bind_lunit req_def by simp_all
  have p: "unat ?p = unat i - 1" by (simp add: wordnat)
  have contig: "contiguous_from (unat i) ?es" by (rule contiguous_view_slice [OF assms(1) i1(2)])
  have mem: "log_view ?l (unat (eindex e)) = Some e" if "e \<in> set ?es" for e
  proof -
    from that obtain j where "log_view ?l j = Some e" by (auto simp: view_slice_def List.map_filter_def)
    with log_view_eindex [OF assms(1) this] show ?thesis by simp
  qed
  have len: "length ?es \<le> ?k"
    using length_filter_le [of "\<lambda>x. log_view ?l x \<noteq> None" "[unat i..<min (unat i + ?k) (unat (last_index ?l) + 1)]"]
    by (simp add: view_slice_def List.map_filter_def del: upt_Suc)
  show thesis
  proof (rule that [OF req(1)])
    show "ae_ok req" using contig len i1 assms(4) unfolding ae_ok_def req(2,3) p by simp
    show "unat (ae_prev_log_index req) = unat i - 1" using p req(3) by simp
    show "request_from (log_view ?l) req"
      if "i = 1 \<or> first_index ?l < i \<and> unat i \<le> unat (last_index ?l) + 1"
      using that mem log_view_dom [OF assms(1), of "unat i - 1"] log_term_view [OF assms(1), of ?p] p
      by (auto simp: request_from_def req(2,3,7) u64_less_nat u64_eq_nat [of ?p 0])
  qed (use req in simp_all)
qed

subsection \<open>Applying committed entries\<close>

lemma view_slice_Cons:
  "a < b \<Longrightarrow> view_slice l a b =
     (case log_view l a of Some e \<Rightarrow> e # view_slice l (Suc a) b | None \<Rightarrow> view_slice l (Suc a) b)"
  by (simp add: view_slice_def upt_conv_Cons List.map_filter_simps del: upt_Suc split: option.splits)

lemma apply_loop_eq:
  "log_ok l \<Longrightarrow> apply_loop l c a = (view_slice l (unat a + 1) (unat c + 1), max a c)"
proof (induction l c a rule: apply_loop.induct)
  case (1 l c a)
  show ?case
  proof (cases "a < c")
    case True
    then have s: "unat (a + 1) = unat a + 1"
      using unat_u64_bound [of c] by (intro unat_u64_Suc) (simp add: u64_less_nat)
    have m: "max (a + 1) c = c" "max a c = c"
      using True s by (simp_all add: max_def u64_less_nat u64_le_nat)
    have "apply_loop l c a =
        ((case log_get l (a + 1) of Some e \<Rightarrow> e # view_slice l (Suc (Suc (unat a))) (unat c + 1)
          | None \<Rightarrow> view_slice l (Suc (Suc (unat a))) (unat c + 1)), c)"
      using True "1.IH" [OF True refl "1.prems"] s m
      by (simp add: apply_loop.simps [of l c a] cong: option.case_cong)
    also have "\<dots> = (view_slice l (unat a + 1) (unat c + 1), c)"
      using True s view_slice_Cons [of "unat a + 1" "unat c + 1" l]
      by (simp add: log_get_view [OF "1.prems"] u64_less_nat cong: option.case_cong)
    finally show ?thesis using m by simp
  next
    case False
    then have "[unat a + 1..<unat c + 1] = []" by (simp add: u64_less_nat)
    with False show ?thesis
      by (simp add: apply_loop.simps [of l c a] view_slice_def List.map_filter_simps max_def)
  qed
qed

lemma get_entries_to_apply_eq:
  assumes "log_ok (rlog n)" and "napplied n \<le> ncommit n"
  shows "get_entries_to_apply n =
    (view_slice (rlog n) (unat (napplied n) + 1) (unat (ncommit n) + 1),
     n\<lparr>volatile := (volatile n)\<lparr>last_applied := ncommit n\<rparr>\<rparr>)"
  using assms by (simp add: get_entries_to_apply_def apply_loop_eq max_def)

lemma view_slice_full:
  assumes "log_ok l" and "unat (first_index l) \<le> a" and "a \<le> b" and "b \<le> unat (last_index l) + 1"
  shows "map (\<lambda>e. unat (eindex e)) (view_slice l a b) = [a..<b]"
proof -
  have "length (view_slice l a b) = b - a"
    using view_slice_entries [OF assms(1,2,4,3)] assms log_ok_bounds [OF assms(1)] unat_last_index [OF assms(1)]
    by simp
  with contiguous_view_slice [OF assms(1,2), of b] assms(3) show ?thesis
    by (simp add: contiguous_from_def)
qed

subsection \<open>Snapshots\<close>

lemma install_snapshot_result:
  assumes "handle_install_snapshot tm n req = Some ((resp, act), n')"
  shows "same_group n n'" and "rlog n' = rlog n" and "volatile n' = volatile n"
    and "nterm n' = max (nterm n) (is_term req)" and "isr_term resp = nterm n'"
    and "votes_received n' = votes_received n"
    and "rstate n' = (if nterm n < is_term req then Follower else rstate n)"
    and "rleader_state n' = (if nterm n < is_term req then None else rleader_state n)"
    and "nvote n' = (if nterm n < is_term req then None else nvote n)"
    and "act = None \<longleftrightarrow> is_term req < nterm n"
  using assms
  by (auto simp: handle_install_snapshot_def raft_defs max_def Let_def split: if_splits bind_splits)

lemma install_snapshot_total: "timeouts_ok n \<Longrightarrow> \<exists>r n'. handle_install_snapshot tm n req = Some (r, n')"
  by (auto simp: handle_install_snapshot_def raft_defs Let_def)

lemma apply_snapshot_result:
  "same_group n (apply_snapshot n i t)" "persistent (apply_snapshot n i t) = persistent n"
  "rstate (apply_snapshot n i t) = rstate n" "rleader_state (apply_snapshot n i t) = rleader_state n"
  "votes_received (apply_snapshot n i t) = votes_received n"
  "rlog (apply_snapshot n i t) = compact (rlog n) i t"
  "ncommit (apply_snapshot n i t) = max (ncommit n) i"
  "napplied (apply_snapshot n i t) = max (napplied n) i"
  by (auto simp: apply_snapshot_def Let_def same_group_def max_def)

lemma node_ok_apply_snapshot:
  "node_ok n \<Longrightarrow> unat i + 1 < u64_size \<Longrightarrow> node_ok (apply_snapshot n i t)"
  using apply_snapshot_result [of n i t]
  by (auto simp: node_ok_def raft_defs log_ok_compact)

lemma commit_ok_apply_snapshot:
  assumes "node_ok n" and "commit_ok n" and "unat i + 1 < u64_size"
  shows "commit_ok (apply_snapshot n i t)"
proof -
  have "log_ok (rlog n)" using assms(1) by (simp add: node_ok_def)
  from last_index_compact [OF this assms(3)] assms(2) show ?thesis
    by (auto simp: commit_ok_def apply_snapshot_result u64_le_nat max_def)
qed

subsection \<open>Configuration changes and ticks\<close>

lemma apply_config_change_result:
  assumes "apply_config_change tm n c = Some n'"
  shows "rid n' = rid n" and "raft_conf n' = raft_conf n" and "rlog n' = rlog n" and "volatile n' = volatile n"
    and "nterm n' = nterm n" and "votes_received n' = votes_received n"
    and "rconfig n' = (case c of AddNode i a \<Rightarrow> add_node (rconfig n) \<lparr>ni_id = i, ni_addr = a, ni_port = extract_port a\<rparr>
                        | RemoveNode i \<Rightarrow> remove_node (rconfig n) i)"
    and "rstate n' = rstate n \<and> nvote n' = nvote n \<and> (rleader_state n' = None \<longleftrightarrow> rleader_state n = None) \<or>
         rstate n = Leader \<and> c = RemoveNode (rid n) \<and> rstate n' = Follower \<and> nvote n' = None \<and> rleader_state n' = None"
  using assms
  by (cases c; auto simp: raft_defs Let_def split: option.splits if_splits)+

lemma node_ok_apply_config_change: "apply_config_change tm n c = Some n' \<Longrightarrow> node_ok n \<Longrightarrow> node_ok n'"
  using apply_config_change_result [of tm n c n'] by (auto simp: node_ok_def raft_defs)

lemma apply_config_change_total: "timeouts_ok n \<Longrightarrow> \<exists>n'. apply_config_change tm n c = Some n'"
  by (cases c; auto simp: raft_defs Let_def split: option.splits)

lemma append_requests_nonempty:
  "append_requests n ls vs = Some reqs \<Longrightarrow> map fst reqs = filter (\<lambda>v. v \<noteq> rid n) vs"
  by (induction vs arbitrary: reqs) (auto split: if_splits bind_splits)

lemma tick_cases:
  assumes "tick tm n = Some (a, n')"
  obtains (append) reqs where "rstate n = Leader" and "generate_append_entries n = Some reqs" and "reqs \<noteq> []"
      and "a = SendAppendEntries reqs" and "n' = n"
  | (candidate) reqs where "rstate n \<noteq> Leader" and "election_timeout_elapsed tm n"
      and "become_candidate tm n = Some (reqs, n')" and "a = SendRequestVote reqs"
  | (committed) "(a, n') = apply_committed n"
  using assms
  by (cases "rstate n") (auto simp: tick_def split: if_splits bind_splits)

lemma apply_committed_result:
  assumes "apply_committed n = (a, n')" and "log_ok (rlog n)" and "napplied n \<le> ncommit n"
  shows "n' = n\<lparr>volatile := (volatile n)\<lparr>last_applied := ncommit n\<rparr>\<rparr>"
    and "a = (let es = view_slice (rlog n) (unat (napplied n) + 1) (unat (ncommit n) + 1)
              in if es \<noteq> [] then ApplyEntries es else NoAction)"
  using assms by (auto simp: apply_committed_def get_entries_to_apply_eq)

lemma apply_committed_frame:
  assumes "apply_committed n = (a, n')"
  shows "same_group n n'" "rlog n' = rlog n" "persistent n' = persistent n" "rstate n' = rstate n"
    "rleader_state n' = rleader_state n" "votes_received n' = votes_received n" "ncommit n' = ncommit n"
  using assms
  by (auto simp: apply_committed_def get_entries_to_apply_def same_group_def split: prod.splits)

lemma node_ok_tick:
  assumes "tick tm n = Some (a, n')" and "node_ok n"
  shows "node_ok n'"
  using assms(1)
proof (cases rule: tick_cases)
  case (candidate reqs)
  then show ?thesis using assms(2) by (auto intro: node_ok_candidate)
next
  case committed
  with apply_committed_frame [OF committed [symmetric]] assms(2) show ?thesis
    by (auto simp: node_ok_def raft_defs)
qed (use assms(2) in simp)

lemma commit_ok_tick:
  assumes "tick tm n = Some (a, n')" and "node_ok n" and "commit_ok n"
  shows "commit_ok n'"
  using assms(1)
proof (cases rule: tick_cases)
  case (candidate reqs)
  with candidate_result [OF candidate(3)] assms(3) show ?thesis by (simp add: commit_ok_def)
next
  case committed
  have "n' = n\<lparr>volatile := (volatile n)\<lparr>last_applied := ncommit n\<rparr>\<rparr>"
    using assms(2,3)
    by (intro apply_committed_result [OF committed [symmetric]]) (auto simp: node_ok_def commit_ok_def)
  with assms(3) show ?thesis by (simp add: commit_ok_def)
qed (use assms(3) in simp)

section \<open>A node as a machine\<close>

datatype raft_event =
    EvRequestVote request_vote_request
  | EvRequestVoteResponse node_id request_vote_response
  | EvAppendEntries append_entries_request
  | EvAppendEntriesResponse node_id append_entries_response
  | EvInstallSnapshot install_snapshot_request
  | EvApplySnapshot log_index raft_term
  | EvPropose command
  | EvProposeConfigChange config_change
  | EvApplyConfigChange config_change
  | EvTick

fun node_step :: "timing \<Rightarrow> raft_node \<Rightarrow> raft_event \<Rightarrow> raft_node option" where
  "node_step tm n (EvRequestVote req) = map_option snd (handle_request_vote tm n req)"
| "node_step tm n (EvRequestVoteResponse v resp) = map_option snd (handle_request_vote_response tm n v resp)"
| "node_step tm n (EvAppendEntries req) = map_option snd (handle_append_entries tm n req)"
| "node_step tm n (EvAppendEntriesResponse v resp) = handle_append_entries_response tm n v resp"
| "node_step tm n (EvInstallSnapshot req) = map_option snd (handle_install_snapshot tm n req)"
| "node_step tm n (EvApplySnapshot i t) = Some (apply_snapshot n i t)"
| "node_step tm n (EvPropose c) = Some (snd (propose n c))"
| "node_step tm n (EvProposeConfigChange c) = Some (snd (propose_config_change n c))"
| "node_step tm n (EvApplyConfigChange c) = apply_config_change tm n c"
| "node_step tm n EvTick = map_option snd (tick tm n)"

text \<open>
  The events a run may hold: a log that grows has an index left, a term that grows has one
  left, requests are contiguous and contradict no committed entry.
\<close>

fun event_ok :: "raft_node \<Rightarrow> raft_event \<Rightarrow> bool" where
  "event_ok n (EvRequestVote req) = True"
| "event_ok n (EvRequestVoteResponse v resp) = log_room (rlog n)"
| "event_ok n (EvAppendEntries req) = (ae_ok req \<and> respects_commit n req)"
| "event_ok n (EvAppendEntriesResponse v resp) = True"
| "event_ok n (EvInstallSnapshot req) = True"
| "event_ok n (EvApplySnapshot i t) = (unat i + 1 < u64_size)"
| "event_ok n (EvPropose c) = log_room (rlog n)"
| "event_ok n (EvProposeConfigChange c) = log_room (rlog n)"
| "event_ok n (EvApplyConfigChange c) = True"
| "event_ok n EvTick = (unat (nterm n) + 1 < u64_size)"

definition node_inv :: "raft_node \<Rightarrow> bool" where
  "node_inv n \<longleftrightarrow> node_ok n \<and> commit_ok n"

text \<open>Within a term, a vote given to another node stays.\<close>

definition vote_kept :: "raft_node \<Rightarrow> raft_node \<Rightarrow> bool" where
  "vote_kept n n' \<longleftrightarrow>
     (nterm n' = nterm n \<longrightarrow> nvote n = None \<or> nvote n = Some (rid n) \<or> nvote n' = nvote n)"

definition committed_kept :: "raft_node \<Rightarrow> raft_node \<Rightarrow> bool" where
  "committed_kept n n' \<longleftrightarrow>
     (\<forall>i \<le> unat (ncommit n). log_view (rlog n') i = log_view (rlog n) i \<or> log_view (rlog n') i = None)"

definition progress :: "raft_node \<Rightarrow> raft_node \<Rightarrow> bool" where
  "progress n n' \<longleftrightarrow>
     rid n' = rid n \<and> nterm n \<le> nterm n' \<and> ncommit n \<le> ncommit n' \<and> napplied n \<le> napplied n' \<and>
     vote_kept n n' \<and> committed_kept n n'"

lemma progress_refl: "progress n n"
  by (simp add: progress_def vote_kept_def committed_kept_def)

lemma progress_trans: "progress n n' \<Longrightarrow> progress n' n'' \<Longrightarrow> progress n n''"
proof -
  assume a: "progress n n'" and b: "progress n' n''"
  have "vote_kept n n''"
  proof (cases "nterm n'' = nterm n")
    case True
    with a b have "nterm n' = nterm n" by (auto simp: progress_def)
    with True a b show ?thesis by (auto simp: progress_def vote_kept_def)
  qed (simp add: vote_kept_def)
  moreover have "committed_kept n n''"
    unfolding committed_kept_def
  proof (intro allI impI)
    fix i assume i: "i \<le> unat (ncommit n)"
    with a have "i \<le> unat (ncommit n')" by (simp add: progress_def u64_le_nat)
    with i a b have "log_view (rlog n') i = log_view (rlog n) i \<or> log_view (rlog n') i = None"
      and "log_view (rlog n'') i = log_view (rlog n') i \<or> log_view (rlog n'') i = None"
      by (auto simp: progress_def committed_kept_def)
    then show "log_view (rlog n'') i = log_view (rlog n) i \<or> log_view (rlog n'') i = None" by metis
  qed
  ultimately show ?thesis using a b by (auto simp: progress_def)
qed

lemma committed_kept_log: "rlog n' = rlog n \<Longrightarrow> committed_kept n n'"
  by (simp add: committed_kept_def)

lemma committed_kept_append:
  assumes "node_inv n" and "log_room (rlog n)" and "rlog n' = snd (append_entry (rlog n) t c)"
  shows "committed_kept n n'"
  using assms log_view_append_entry [of "rlog n" t c]
  by (auto simp: committed_kept_def node_inv_def node_ok_def commit_ok_def u64_le_nat)

lemma commit_ok_grow:
  assumes "commit_ok n" and "volatile n' = volatile n" and "last_index (rlog n) \<le> last_index (rlog n')"
  shows "commit_ok n'"
  using assms by (auto simp: commit_ok_def)

lemma last_index_append_entry:
  assumes "log_ok l" and "log_room l"
  shows "unat (last_index (snd (append_entry l t c))) = unat (last_index l) + 1"
  using unat_last_index [OF log_ok_append_entry [OF assms, of t c]] unat_last_index [OF assms(1)]
    log_ok_bounds [OF assms(1)]
  by (simp add: append_entry_eq log_append_eq)

lemma commit_ok_append:
  assumes "node_inv n" and "log_room (rlog n)" and "rlog n' = snd (append_entry (rlog n) t c)"
    and "volatile n' = volatile n"
  shows "commit_ok n'"
proof (rule commit_ok_grow [of n])
  have l: "log_ok (rlog n)" using assms(1) by (simp add: node_inv_def node_ok_def)
  show "last_index (rlog n) \<le> last_index (rlog n')"
    unfolding assms(3) u64_le_nat last_index_append_entry [OF l assms(2)] by simp
qed (use assms in \<open>simp_all add: node_inv_def\<close>)

lemma step_request_vote:
  assumes "node_inv n" and "handle_request_vote tm n req = Some (resp, n')"
  shows "node_inv n' \<and> progress n n'"
proof -
  note r = request_vote_result [OF assms(2)]
  have "node_ok n'" using assms by (auto simp: node_inv_def intro: node_ok_request_vote)
  moreover have "vote_kept n n'" using r(4,6,7) by (auto simp: vote_kept_def max_def)
  ultimately show ?thesis
    using assms(1) r(1-4) committed_kept_log [of n' n]
    by (auto simp: node_inv_def commit_ok_def progress_def same_group_def)
qed

lemma step_vote_response:
  assumes "node_inv n" and "log_room (rlog n)"
    and "handle_request_vote_response tm n v resp = Some (won, n')"
  shows "node_inv n' \<and> progress n n'"
proof -
  note r = vote_response_result [OF assms(3)]
  have "node_ok n'" using assms by (auto simp: node_inv_def intro: node_ok_vote_response)
  moreover have "commit_ok n'" and "committed_kept n n'"
    using r(2,6) assms(1,2) commit_ok_append committed_kept_append committed_kept_log [of n' n]
    by (auto simp: node_inv_def commit_ok_def)
  moreover have "vote_kept n n'" using r(7) by (auto simp: vote_kept_def)
  ultimately show ?thesis using r(1-3) by (auto simp: node_inv_def progress_def same_group_def)
qed

lemma step_append_entries:
  assumes "node_inv n" and "ae_ok req" and "respects_commit n req"
    and "handle_append_entries tm n req = Some (resp, n')"
  shows "node_inv n' \<and> progress n n'"
proof -
  note r = append_entries_result [OF assms(4)]
  have ok: "node_ok n" "commit_ok n" using assms(1) by (simp_all add: node_inv_def)
  note k = append_entries_keeps_committed [OF assms(4) ok(1) assms(2) ok(2) assms(3)]
  have "vote_kept n n'"
    using r(2,10) ok(1) by (auto simp: vote_kept_def steps_down_def node_ok_def roles_ok_def max_def)
  moreover have "committed_kept n n'" using k(3) by (simp add: committed_kept_def)
  ultimately show ?thesis
    using node_ok_append_entries [OF assms(4) ok(1) assms(2)] k(1,2) r(1,2,5)
    by (auto simp: node_inv_def progress_def same_group_def)
qed

lemma step_append_response:
  assumes "node_inv n" and "handle_append_entries_response tm n v resp = Some n'"
  shows "node_inv n' \<and> progress n n'"
proof -
  note r = append_response_result [OF assms(2)]
  have "node_ok n'" "commit_ok n'"
    using assms by (auto simp: node_inv_def intro: node_ok_append_response append_response_commit_ok)
  then show ?thesis
    using r(1-5,9) committed_kept_log [of n' n]
    by (auto simp: node_inv_def progress_def same_group_def vote_kept_def)
qed

lemma step_install_snapshot:
  assumes "node_inv n" and "handle_install_snapshot tm n req = Some (r, n')"
  shows "node_inv n' \<and> progress n n'"
proof -
  obtain resp act where r: "r = (resp, act)" by (cases r)
  note i = install_snapshot_result [OF assms(2) [unfolded r]]
  have "node_ok n'"
    using assms(1) i by (auto simp: node_inv_def node_ok_def raft_defs split: if_splits)
  then show ?thesis
    using assms(1) i committed_kept_log [of n' n]
    by (auto simp: node_inv_def commit_ok_def progress_def same_group_def vote_kept_def max_def)
qed

lemma step_apply_snapshot:
  assumes "node_inv n" and "unat i + 1 < u64_size"
  shows "node_inv (apply_snapshot n i t) \<and> progress n (apply_snapshot n i t)"
proof -
  have l: "log_ok (rlog n)" using assms(1) by (simp add: node_inv_def node_ok_def)
  have "committed_kept n (apply_snapshot n i t)"
    using log_view_compact [OF l assms(2)]
    by (auto simp: committed_kept_def apply_snapshot_result restrict_map_def)
  then show ?thesis
    using assms node_ok_apply_snapshot commit_ok_apply_snapshot apply_snapshot_result [of n i t]
    by (auto simp: node_inv_def progress_def same_group_def vote_kept_def)
qed

lemma step_propose:
  assumes "node_inv n" and "log_room (rlog n)"
  shows "node_inv (snd (propose n c)) \<and> progress n (snd (propose n c))"
proof (cases "rstate n = Leader")
  case True
  obtain r n' where p: "propose n c = (r, n')" by (cases "propose n c")
  note q = propose_result [OF p]
  have "rlog n' = snd (append_entry (rlog n) (nterm n) c)" using q(7) True by blast
  then have "commit_ok n'" "committed_kept n n'"
    using assms q(3) commit_ok_append committed_kept_append by blast+
  moreover have "node_ok n'" using assms p by (auto simp: node_inv_def intro: node_ok_propose)
  ultimately show ?thesis
    using q(1-3) p by (simp add: node_inv_def progress_def same_group_def vote_kept_def)
qed (use assms progress_refl in \<open>simp add: propose_def\<close>)

lemma propose_config_change_eq: "propose_config_change n c = propose n (ConfigChange c)"
  by (simp add: propose_config_change_def propose_def)

lemma step_apply_config_change:
  assumes "node_inv n" and "apply_config_change tm n c = Some n'"
  shows "node_inv n' \<and> progress n n'"
proof -
  note r = apply_config_change_result [OF assms(2)]
  have "node_ok n'" using assms by (auto simp: node_inv_def intro: node_ok_apply_config_change)
  moreover have "vote_kept n n'"
    using r(8) assms(1) by (auto simp: vote_kept_def node_inv_def node_ok_def roles_ok_def)
  ultimately show ?thesis
    using assms(1) r(1-5) committed_kept_log [of n' n]
    by (auto simp: node_inv_def commit_ok_def progress_def)
qed

lemma step_tick:
  assumes "node_inv n" and "unat (nterm n) + 1 < u64_size" and "tick tm n = Some (a, n')"
  shows "node_inv n' \<and> progress n n'"
proof -
  have inv: "node_inv n'"
    using assms by (auto simp: node_inv_def intro: node_ok_tick commit_ok_tick)
  have ok: "log_ok (rlog n)" "napplied n \<le> ncommit n"
    using assms(1) by (simp_all add: node_inv_def node_ok_def commit_ok_def)
  from assms(3) have "progress n n'"
  proof (cases rule: tick_cases)
    case (candidate reqs)
    note c = candidate_result [OF candidate(3)]
    have "unat (nterm n') = unat (nterm n) + 1" using assms(2) by (simp add: c(4) unat_u64_Suc)
    with c committed_kept_log [of n' n] show ?thesis
      by (auto simp: progress_def same_group_def u64_le_nat vote_kept_def)
  next
    case committed
    note c = apply_committed_frame [OF committed [symmetric]]
    have "napplied n' = ncommit n"
      using apply_committed_result(1) [OF committed [symmetric] ok] by simp
    with ok c committed_kept_log [of n' n] show ?thesis
      by (simp add: progress_def same_group_def vote_kept_def)
  qed (use progress_refl in simp)
  with inv show ?thesis by simp
qed

lemma node_step_inv:
  assumes "node_inv n" and "event_ok n ev" and "node_step tm n ev = Some n'"
  shows "node_inv n' \<and> progress n n'"
  using assms
  by (cases ev)
    (auto simp: propose_config_change_eq
      dest: step_request_vote step_vote_response step_append_entries step_append_response
        step_install_snapshot step_apply_config_change step_tick step_apply_snapshot step_propose)

section \<open>Runs\<close>

inductive guarded_run ::
  "('t \<Rightarrow> 's \<Rightarrow> 'e \<Rightarrow> 's option) \<Rightarrow> ('s \<Rightarrow> 'e \<Rightarrow> bool) \<Rightarrow> 's \<Rightarrow> ('t \<times> 'e) list \<Rightarrow> 's \<Rightarrow> bool"
  for step :: "'t \<Rightarrow> 's \<Rightarrow> 'e \<Rightarrow> 's option" and adm :: "'s \<Rightarrow> 'e \<Rightarrow> bool" where
  run_nil: "guarded_run step adm s [] s"
| run_cons: "adm s e \<Longrightarrow> step t s e = Some s' \<Longrightarrow> guarded_run step adm s' es s'' \<Longrightarrow>
    guarded_run step adm s ((t, e) # es) s''"

inductive_cases guarded_run_ConsE: "guarded_run step adm s ((t, e) # es) s''"
inductive_simps guarded_run_Nil [simp]: "guarded_run step adm s [] s'"

locale guarded_runs =
  fixes step :: "'t \<Rightarrow> 's \<Rightarrow> 'e \<Rightarrow> 's option" and adm :: "'s \<Rightarrow> 'e \<Rightarrow> bool"
    and inv :: "'s \<Rightarrow> bool" and rel :: "'s \<Rightarrow> 's \<Rightarrow> bool"
  assumes step_inv: "inv s \<Longrightarrow> adm s e \<Longrightarrow> step t s e = Some s' \<Longrightarrow> inv s'"
    and step_rel: "inv s \<Longrightarrow> adm s e \<Longrightarrow> step t s e = Some s' \<Longrightarrow> rel s s'"
    and rel_refl: "rel s s"
    and rel_trans: "rel s s' \<Longrightarrow> rel s' s'' \<Longrightarrow> rel s s''"
begin

lemma run_inv: "guarded_run step adm s es s' \<Longrightarrow> inv s \<Longrightarrow> inv s'"
  by (induction rule: guarded_run.induct) (auto intro: step_inv)

lemma run_rel: "guarded_run step adm s es s' \<Longrightarrow> inv s \<Longrightarrow> rel s s'"
  by (induction rule: guarded_run.induct) (auto intro: rel_refl rel_trans step_inv step_rel)

end

interpretation node_machine: guarded_runs node_step event_ok node_inv progress
  using node_step_inv progress_refl progress_trans
  by unfold_locales blast+

lemma run_simps:
  "guarded_run step adm s ((t, e) # es) s'' \<longleftrightarrow>
     adm s e \<and> (\<exists>s'. step t s e = Some s' \<and> guarded_run step adm s' es s'')"
  by (auto intro: run_cons elim: guarded_run_ConsE)

end
