(* ===== verification/RaftSafety.thy ===== *)
theory RaftSafety
  imports RaftSteps
begin

text \<open>
  The properties of the Raft node, over the handlers and runs of the node: what the log operations
  do to the log as a map, votes and elections, replication and log matching, the commit rule,
  applying in order, panics. The last section holds the behaviours that fall short of
  Raft, each as a theorem about the code as it is.
\<close>

section \<open>Sample nodes\<close>

definition sample_timing :: "int \<Rightarrow> timing" where
  "sample_timing t = \<lparr>now = t, gen_range = (\<lambda>a b. a)\<rparr>"

definition sample_cluster :: cluster_config where
  "sample_cluster =
     foldl add_node cluster_config_new
       [\<lparr>ni_id = 1, ni_addr = ''a'', ni_port = 1\<rparr>, \<lparr>ni_id = 2, ni_addr = ''b'', ni_port = 2\<rparr>,
        \<lparr>ni_id = 3, ni_addr = ''c'', ni_port = 3\<rparr>]"

definition sample_node :: "node_id \<Rightarrow> raft_node" where
  "sample_node i = the (raft_node_new (sample_timing 0) i 1 1 sample_cluster raft_config_default)"

definition sample_request :: append_entries_request where
  "sample_request =
     \<lparr>ae_term = 2, ae_leader_id = 3, ae_prev_log_index = 0, ae_prev_log_term = 0,
      ae_entries = [\<lparr>eterm = 1, eindex = 1, ecommand = Noop\<rparr>, \<lparr>eterm = 2, eindex = 2, ecommand = Noop\<rparr>],
      ae_leader_commit = 1\<rparr>"

lemma sample_node_ok: "node_inv (sample_node i)"
  by (simp add: sample_node_def raft_node_new_def random_election_deadline_def raft_config_default_def
      node_inv_def node_ok_def timeouts_ok_def roles_ok_def log_ok_new commit_ok_def)

definition sample_vote :: request_vote_request where
  "sample_vote = \<lparr>rv_term = 1, rv_candidate_id = 1, rv_last_log_index = 0, rv_last_log_term = 0\<rparr>"

lemma sample_request_ok: "ae_ok sample_request" "respects_commit (sample_node i) sample_request"
  by (simp_all add: ae_ok_def sample_request_def contiguous_from_def respects_commit_def prev_matches_def
      sample_node_def raft_node_new_def random_election_deadline_def raft_config_default_def
      raft_log_new_def agrees_def log_view_def)

definition sample_candidate :: "node_id \<Rightarrow> raft_node" where
  "sample_candidate i = snd (the (become_candidate (sample_timing 0) (sample_node i)))"

definition sample_granted :: request_vote_response where
  "sample_granted = \<lparr>rvr_term = 1, rvr_vote_granted = True\<rparr>"

definition sample_leader :: "node_id \<Rightarrow> raft_node" where
  "sample_leader i =
     snd (the (handle_request_vote_response (sample_timing 0) (sample_candidate i) 2 sample_granted))"

lemma sample_candidate_inv: "node_inv (sample_candidate i)"
proof -
  have "timeouts_ok (sample_node i)" using sample_node_ok [of i] by (simp add: node_inv_def node_ok_def)
  then obtain reqs n' where "become_candidate (sample_timing 0) (sample_node i) = Some (reqs, n')"
    using candidate_total by blast
  with node_ok_candidate [OF this] candidate_result(2,3) [OF this] sample_node_ok [of i] show ?thesis
    by (simp add: sample_candidate_def node_inv_def commit_ok_def)
qed

lemma pair_the: "map_option fst x = Some a \<Longrightarrow> x = Some (a, snd (the x))"
  by (cases x) auto

lemma sample_leader_won:
  "handle_request_vote_response (sample_timing 0) (sample_candidate 1) 2 sample_granted = Some (True, sample_leader 1)"
  "handle_request_vote_response (sample_timing 0) (sample_candidate 3) 2 sample_granted = Some (True, sample_leader 3)"
  unfolding sample_leader_def by (rule pair_the, code_simp)+

lemma sample_leader_inv: "node_inv (sample_leader 1)"
proof -
  have "log_room (rlog (sample_candidate 1))"
  proof -
    have "first_index (rlog (sample_candidate 1)) = 1" "entries (rlog (sample_candidate 1)) = []" by code_simp+
    then show ?thesis by (simp add: log_room_def)
  qed
  with step_vote_response [OF sample_candidate_inv _ sample_leader_won(1)] show ?thesis by simp
qed

lemma node_ok_timeouts: "node_ok n \<Longrightarrow> timeouts_ok n"
  by (simp add: node_ok_def)

lemma empty_log_matching:
  assumes "entries l = []"
  shows "log_matching (log_view l) L"
proof -
  have "log_view l i = None" for i using assms by (auto simp: log_view_def)
  then show ?thesis by (simp add: log_matching_def)
qed

lemma log_matching_step:
  assumes "node_ok n" and "ae_ok req" and "request_from L req"
    and "log_matching (log_view (rlog n)) L"
    and "handle_append_entries tm n req = Some (resp, n')"
  shows "log_matching (log_view (rlog n')) L"
proof -
  have l: "log_ok (rlog n)" using assms(1) by (simp add: node_ok_def)
  have "log_matching (log_view (log_truncate (rlog n) i)) L" for i
    using assms(4) unfolding log_matching_def log_view_truncate [OF l]
    by (auto simp: restrict_map_def split: if_splits)
  then show ?thesis
    using assms(4) merge_log_matching [OF l assms(2) _ assms(3,4)]
    unfolding append_entries_result(7) [OF assms(5)] by simp
qed

section \<open>Properties\<close>

text \<open>
  C1. Along every run of a node whose events keep to the protocol (contiguous requests that contradict
  no committed entry, indices and terms within a \<open>u64\<close>) the term, the commit index and the applied
  index never decrease, nothing is applied beyond the commit index nor committed beyond the log,
  the log stays contiguous, and no committed entry is replaced (it is kept, or compacted away).
\<close>

theorem raft_run_safe:
  assumes "node_inv n" and "guarded_run node_step event_ok n evs n'"
  shows "nterm n \<le> nterm n' \<and> ncommit n \<le> ncommit n' \<and> napplied n \<le> napplied n' \<and>
    napplied n' \<le> ncommit n' \<and> ncommit n' \<le> last_index (rlog n') \<and> log_ok (rlog n') \<and>
    (\<forall>i \<le> unat (ncommit n). log_view (rlog n') i = log_view (rlog n) i \<or> log_view (rlog n') i = None)"
  using node_machine.run_inv [OF assms(2,1)] node_machine.run_rel [OF assms(2,1)]
  by (auto simp: node_inv_def node_ok_def commit_ok_def progress_def committed_kept_def)

theorem raft_run_safe_witness:
  "\<exists>n'. node_inv (sample_node 2) \<and>
    guarded_run node_step event_ok (sample_node 2) [(sample_timing 0, EvAppendEntries sample_request)] n' \<and>
    ncommit (sample_node 2) \<le> ncommit n' \<and> log_ok (rlog n')"
proof -
  have "timeouts_ok (sample_node 2)" using sample_node_ok [of 2] by (simp add: node_inv_def node_ok_def)
  then obtain resp n' where "handle_append_entries (sample_timing 0) (sample_node 2) sample_request = Some (resp, n')"
    using append_entries_total by blast
  then have run: "guarded_run node_step event_ok (sample_node 2) [(sample_timing 0, EvAppendEntries sample_request)] n'"
    by (simp add: run_simps sample_request_ok)
  from raft_run_safe [OF sample_node_ok run] run sample_node_ok show ?thesis by blast
qed

text \<open>
  C6. A node that granted its vote to another node grants it, in that term, to no third one, whatever
  it handles in between.
\<close>

theorem one_vote_per_term:
  assumes "node_inv n" and "handle_request_vote tm n r1 = Some (resp1, n1)" and "rvr_vote_granted resp1"
    and "rv_candidate_id r1 \<noteq> rid n" and "guarded_run node_step event_ok n1 evs n2"
    and "handle_request_vote tm' n2 r2 = Some (resp2, n3)" and "rvr_vote_granted resp2"
    and "rv_term r2 = rv_term r1"
  shows "rv_candidate_id r2 = rv_candidate_id r1"
proof -
  note a = request_vote_result [OF assms(2)] and b = request_vote_result [OF assms(6)]
  have n1: "nterm n1 = rv_term r1" "nvote n1 = Some (rv_candidate_id r1)" "rid n1 = rid n"
    using a(1,4,6,7) assms(3) by (auto simp: same_group_def max_def)
  have "node_inv n1" using step_request_vote [OF assms(1,2)] by simp
  from node_machine.run_rel [OF assms(5) this]
  have p: "nterm n1 \<le> nterm n2" "vote_kept n1 n2" by (auto simp: progress_def)
  have le: "nterm n2 \<le> rv_term r2" using b(6) assms(7) by blast
  with p(1) n1(1) assms(8) have t: "nterm n2 = nterm n1" by simp
  with p(2) n1 assms(4) have "nvote n2 = Some (rv_candidate_id r1)" by (auto simp: vote_kept_def)
  with b(6) assms(7,8) t n1(1) show ?thesis by auto
qed

theorem one_vote_per_term_witness:
  "\<exists>resp n1. handle_request_vote (sample_timing 0) (sample_node 2) sample_vote = Some (resp, n1) \<and>
    rvr_vote_granted resp \<and> rv_candidate_id sample_vote = 1"
proof -
  have "map_option fst (handle_request_vote (sample_timing 0) (sample_node 2) sample_vote)
      = Some \<lparr>rvr_term = 1, rvr_vote_granted = True\<rparr>"
    by code_simp
  then obtain n1 where n1: "handle_request_vote (sample_timing 0) (sample_node 2) sample_vote
      = Some (\<lparr>rvr_term = 1, rvr_vote_granted = True\<rparr>, n1)" by auto
  have "timeouts_ok n1"
    using step_request_vote [OF sample_node_ok n1] by (simp add: node_inv_def node_ok_def)
  then obtain resp n3 where n3: "handle_request_vote (sample_timing 0) n1 sample_vote = Some (resp, n3)"
    using request_vote_total by blast
  have "rid (sample_node 2) = 2" by code_simp
  moreover have "rvr_vote_granted resp"
    using request_vote_result [OF n1] request_vote_result(6) [OF n3]
    by (auto simp: max_def)
  ultimately have "rv_candidate_id sample_vote = rv_candidate_id sample_vote"
    using one_vote_per_term [OF sample_node_ok n1 _ _ run_nil n3] by (simp add: sample_vote_def)
  with n1 show ?thesis by (auto simp: sample_vote_def)
qed



text \<open>
  C2. A successful AppendEntries: the request was not stale and its previous entry matched; afterwards
  the log is contiguous, unchanged up to the previous index, and holds at the index of every entry
  of the request (that a snapshot does not cover) an entry of the same term; the reported
  match index is the last index, at or beyond the request's last entry; and the commit index
  follows the leader's, within the log.
\<close>

theorem append_entries_correct:
  assumes "node_ok n" and "ae_ok req" and "handle_append_entries tm n req = Some (resp, n')"
    and "aer_success resp"
  shows "nterm n \<le> ae_term req \<and> prev_matches (rlog n) req \<and> node_ok n' \<and>
    (\<forall>i \<le> unat (ae_prev_log_index req). log_view (rlog n') i = log_view (rlog n) i) \<and>
    (\<forall>e \<in> set (ae_entries req). first_index (rlog n) \<le> eindex e \<longrightarrow>
       map_option eterm (log_view (rlog n') (unat (eindex e))) = Some (eterm e)) \<and>
    aer_match_index resp = last_index (rlog n') \<and>
    unat (ae_prev_log_index req) + length (ae_entries req) \<le> unat (aer_match_index resp) \<and>
    ncommit n' = (if ncommit n < ae_leader_commit req
                  then min (ae_leader_commit req) (last_index (rlog n')) else ncommit n)"
proof -
  note r = append_entries_result [OF assms(3)]
  have l: "log_ok (rlog n)" using assms(1) by (simp add: node_ok_def)
  have s: "nterm n \<le> ae_term req" "prev_matches (rlog n) req" using r(6) assms(4) by auto
  then have lg: "rlog n' = merge_entries (rlog n) (ae_entries req)" by (simp add: r(7))
  have req: "contiguous_from (unat (ae_prev_log_index req) + 1) (ae_entries req)"
    "unat (ae_prev_log_index req) + length (ae_entries req) + 1 < u64_size"
    using assms(2) by (auto simp: ae_ok_def)
  note m = merge_entries_props [OF l req(1) prev_matches_le [OF l s(2)] req(2)]
  have "map_option eterm (log_view (rlog n') (unat (eindex e))) = Some (eterm e)"
    if "e \<in> set (ae_entries req)" "first_index (rlog n) \<le> eindex e" for e
    using m(6) [OF that(1)] that(2) by (auto simp: lg u64_le_nat)
  moreover have "node_ok n'" by (rule node_ok_append_entries [OF assms(3,1,2)])
  moreover have "aer_match_index resp = last_index (rlog n')" using s(1) r(9) by (simp add: not_less [symmetric])
  ultimately show ?thesis using s m(4,5) lg r(8) assms(4) by simp
qed

theorem append_entries_correct_witness:
  "\<exists>resp n'. node_ok (sample_node 2) \<and> ae_ok sample_request \<and> aer_success resp \<and>
    handle_append_entries (sample_timing 0) (sample_node 2) sample_request = Some (resp, n') \<and>
    aer_match_index resp = last_index (rlog n')"
proof -
  have ok: "node_ok (sample_node 2)" using sample_node_ok by (simp add: node_inv_def)
  have "map_option fst (handle_append_entries (sample_timing 0) (sample_node 2) sample_request)
      = Some \<lparr>aer_term = 2, aer_success = True, aer_match_index = 2\<rparr>" by code_simp
  from pair_the [OF this] obtain n' where n': "handle_append_entries (sample_timing 0) (sample_node 2) sample_request
      = Some (\<lparr>aer_term = 2, aer_success = True, aer_match_index = 2\<rparr>, n')" by blast
  from append_entries_correct [OF ok sample_request_ok(1) n'] have "2 = last_index (rlog n')" by simp
  with ok n' sample_request_ok(1) show ?thesis by fastforce
qed

text \<open>
  C3. Replicating from a leader keeps log matching: when the follower's log matches the leader's (an
  entry of the same index and term in both means the same entries up to it) and the request
  holds entries of the leader's log, the follower's log matches the leader's after the handler,
  on every path through it.
\<close>

theorem append_entries_log_matching:
  assumes "node_ok n" and "ae_ok req" and "request_from L req"
    and "log_matching (log_view (rlog n)) L"
    and "handle_append_entries tm n req = Some (resp, n')"
  shows "log_matching (log_view (rlog n')) L"
  using assms by (rule log_matching_step)

definition sample_leader_view :: "nat \<Rightarrow> log_entry option" where
  "sample_leader_view = map_of [(1, \<lparr>eterm = 1, eindex = 1, ecommand = Noop\<rparr>), (2, \<lparr>eterm = 2, eindex = 2, ecommand = Noop\<rparr>)]"

theorem append_entries_log_matching_witness:
  "\<exists>resp n'. request_from sample_leader_view sample_request \<and>
    handle_append_entries (sample_timing 0) (sample_node 2) sample_request = Some (resp, n') \<and>
    log_matching (log_view (rlog n')) sample_leader_view"
proof -
  have ok: "node_ok (sample_node 2)" using sample_node_ok by (simp add: node_inv_def)
  then obtain resp n' where n': "handle_append_entries (sample_timing 0) (sample_node 2) sample_request = Some (resp, n')"
    using append_entries_total [OF node_ok_timeouts [OF ok]] by blast
  have "entries (rlog (sample_node 2)) = []" by code_simp
  then have "log_matching (log_view (rlog (sample_node 2))) sample_leader_view"
    by (rule empty_log_matching)
  moreover have "request_from sample_leader_view sample_request"
    by (simp add: request_from_def sample_request_def sample_leader_view_def)
  ultimately show ?thesis using append_entries_log_matching [OF ok sample_request_ok(1) _ _ n'] n' by blast
qed

text \<open>
  C5. A leader advances its commit index only to an entry of its own term that is on a majority of the
  voters by what the followers reported, itself included; no index on a majority lies above
  the index it considers; and with a tracked follower the handler never panics.
\<close>

theorem commit_needs_majority:
  assumes "rleader_state n = Some ls" and "leader_tracks n ls" and "v \<in> set (voters (rconfig n))"
    and "v \<noteq> rid n" and "timeouts_ok n"
  shows "\<exists>n'. handle_append_entries_response tm n v resp = Some n' \<and>
    (ncommit n' \<noteq> ncommit n \<longrightarrow>
       ncommit n < ncommit n' \<and> log_term (rlog n) (ncommit n') = Some (nterm n) \<and>
       (\<exists>ls'. rleader_state n' = Some ls' \<and>
          (\<forall>i. majority (rconfig n) \<le> card {u \<in> set (voters (rconfig n)). replicated n' ls' i u} \<longleftrightarrow>
               i \<le> ncommit n')))"
proof -
  let ?ls = "ls\<lparr>match_index := AList.update v (aer_match_index resp) (match_index ls),
                next_index := AList.update v (aer_match_index resp + 1) (next_index ls)\<rparr>"
  let ?n = "n\<lparr>rleader_state := Some ?ls\<rparr>"
  have tr: "leader_tracks ?n ?ls"
    using assms(2-4) by (auto simp: leader_tracks_def distinct_update dom_update)
  obtain m where m: "majority_match_index ?n ?ls = Some m"
    "\<And>i. majority (rconfig ?n) \<le> card {u \<in> set (voters (rconfig ?n)). replicated ?n ?ls i u} \<longleftrightarrow> i \<le> m"
    using majority_match_index_correct [OF tr] by blast
  show ?thesis
  proof (cases "rstate n = Leader \<and> aer_term resp \<le> nterm n \<and> aer_success resp")
    case False
    have "\<exists>n'. become_follower tm n (aer_term resp) None = Some n'" using assms(5) by (simp add: raft_defs)
    with False assms(1) show ?thesis
      by (auto simp: handle_append_entries_response_def raft_defs Let_def split: if_splits)
  next
    case True
    then have eq: "handle_append_entries_response tm n v resp = try_advance_commit_index ?n"
      using assms(1) by (auto simp: handle_append_entries_response_def)
    obtain n' where n': "try_advance_commit_index ?n = Some n'" using try_advance_total [OF _ tr] by auto
    from try_advance_result [OF n'] show ?thesis
    proof (elim disjE exE conjE)
      assume "n' = ?n"
      then show ?thesis unfolding eq n' by simp
    next
      fix k ls'
      assume k: "n' = ?n\<lparr>volatile := (volatile ?n)\<lparr>commit_index := k\<rparr>\<rparr>" "ncommit ?n < k"
        "log_term (rlog ?n) k = Some (nterm ?n)" "rleader_state ?n = Some ls'"
        "majority_match_index ?n ls' = Some k"
      then have "ls' = ?ls" "k = m" using m(1) by simp_all
      moreover have "replicated n' ?ls = replicated ?n ?ls" by (simp add: k(1) replicated_def fun_eq_iff)
      ultimately show ?thesis
        unfolding eq n' using k m(2) by (intro exI [of _ n'] conjI impI exI [of _ ?ls]) simp_all
    qed
  qed
qed

definition sample_ack :: append_entries_response where
  "sample_ack = \<lparr>aer_term = 1, aer_success = True, aer_match_index = 1\<rparr>"

theorem commit_needs_majority_witness:
  "\<exists>n'. handle_append_entries_response (sample_timing 0) (sample_leader 1) 2 sample_ack = Some n' \<and>
    ncommit n' = 1 \<and> log_term (rlog (sample_leader 1)) 1 = Some (nterm (sample_leader 1))"
proof -
  let ?n = "sample_leader 1"
  obtain ls where ls: "rleader_state ?n = Some ls"
    using sample_leader_inv vote_response_result(4) [OF sample_leader_won(1)]
    by (auto simp: node_inv_def node_ok_def roles_ok_def)
  then have "ls = the (rleader_state ?n)" by simp
  moreover have "leader_tracks ?n (the (rleader_state ?n))" unfolding leader_tracks_def by code_simp
  ultimately have tr: "leader_tracks ?n ls" by simp
  have v: "2 \<in> set (voters (rconfig ?n))" "2 \<noteq> rid ?n" by code_simp+
  have to: "timeouts_ok ?n" using sample_leader_inv by (simp add: node_inv_def node_ok_def)
  obtain n' where n': "handle_append_entries_response (sample_timing 0) ?n 2 sample_ack = Some n'"
    "ncommit n' \<noteq> ncommit ?n \<longrightarrow> log_term (rlog ?n) (ncommit n') = Some (nterm ?n)"
    using commit_needs_majority [OF ls tr v to, of "sample_timing 0" sample_ack] by blast
  have "map_option ncommit (handle_append_entries_response (sample_timing 0) ?n 2 sample_ack) = Some 1"
    and "ncommit ?n = 0" by code_simp+
  with n' show ?thesis by auto
qed



text \<open>
  Committed entries are applied once and in index order: \<open>get_entries_to_apply\<close> returns exactly the
  entries after the last applied index up to the commit index, records them as applied, and
  a second call returns nothing.
\<close>

theorem apply_once_in_order:
  assumes "node_inv n" and "unat (first_index (rlog n)) \<le> unat (napplied n) + 1"
    and "get_entries_to_apply n = (es, n')"
  shows "map (\<lambda>e. unat (eindex e)) es = [unat (napplied n) + 1..<unat (ncommit n) + 1] \<and>
    (\<forall>e \<in> set es. log_view (rlog n) (unat (eindex e)) = Some e) \<and>
    napplied n' = ncommit n \<and> rlog n' = rlog n \<and> get_entries_to_apply n' = ([], n')"
proof -
  have l: "log_ok (rlog n)" "napplied n \<le> ncommit n" "ncommit n \<le> last_index (rlog n)"
    using assms(1) by (simp_all add: node_inv_def node_ok_def commit_ok_def)
  have es: "es = view_slice (rlog n) (unat (napplied n) + 1) (unat (ncommit n) + 1)"
    and n': "n' = n\<lparr>volatile := (volatile n)\<lparr>last_applied := ncommit n\<rparr>\<rparr>"
    using get_entries_to_apply_eq [OF l(1,2)] assms(3) by simp_all
  have "map (\<lambda>e. unat (eindex e)) es = [unat (napplied n) + 1..<unat (ncommit n) + 1]"
    unfolding es using assms(2) l by (intro view_slice_full) (simp_all add: u64_le_nat)
  moreover have "log_view (rlog n) (unat (eindex e)) = Some e" if "e \<in> set es" for e
    using that log_view_eindex [OF l(1)] unfolding es view_slice_def by (auto simp: List.map_filter_def)
  moreover have "get_entries_to_apply n' = ([], n')"
    using l(1) by (simp add: n' get_entries_to_apply_eq view_slice_def List.map_filter_simps)
  ultimately show ?thesis by (simp add: n')
qed

definition sample_committed :: raft_node where
  "sample_committed = snd (the (handle_append_entries (sample_timing 0) (sample_node 2) sample_request))"

lemma sample_committed_inv: "node_inv sample_committed"
proof -
  obtain resp n' where n': "handle_append_entries (sample_timing 0) (sample_node 2) sample_request = Some (resp, n')"
    using append_entries_total [of "sample_node 2"] sample_node_ok [of 2] unfolding node_inv_def node_ok_def by blast
  with step_append_entries [OF sample_node_ok sample_request_ok n'] show ?thesis
    by (simp add: sample_committed_def)
qed

theorem apply_once_in_order_witness:
  "map (\<lambda>e. unat (eindex e)) (fst (get_entries_to_apply sample_committed)) = [1]"
proof -
  have c: "first_index (rlog sample_committed) = 1" "napplied sample_committed = 0" "ncommit sample_committed = 1"
    by code_simp+
  obtain es n' where g: "get_entries_to_apply sample_committed = (es, n')" by (cases "get_entries_to_apply sample_committed")
  have "unat (first_index (rlog sample_committed)) \<le> unat (napplied sample_committed) + 1" by (simp add: c)
  from apply_once_in_order [OF sample_committed_inv this g] show ?thesis by (simp add: g c)
qed

text \<open>
  C21. The log operations refine those on a map from indices to entries: truncation restricts it below
  an index, an appended entry extends it at the next index, compaction restricts it above an index, and
  each keeps the log well formed; \<open>get\<close> is the lookup.
\<close>

theorem log_refines_map:
  assumes "log_ok l"
  shows "log_get l i = log_view l (unat i) \<and>
    log_ok (log_truncate l i) \<and> log_view (log_truncate l i) = log_view l |` {..<unat i} \<and>
    (log_room l \<longrightarrow> log_ok (snd (append_entry l t c)) \<and>
       log_view (snd (append_entry l t c)) =
         (log_view l)(unat (last_index l) + 1 \<mapsto> \<lparr>eterm = t, eindex = last_index l + 1, ecommand = c\<rparr>)) \<and>
    (unat i + 1 < u64_size \<longrightarrow> log_ok (compact l i t) \<and> log_view (compact l i t) = log_view l |` {unat i<..})"
  using assms
  by (simp add: log_get_view log_ok_truncate log_view_truncate log_ok_append_entry log_view_append_entry
      log_ok_compact log_view_compact)

theorem log_refines_map_witness:
  "log_ok (rlog sample_committed) \<and> log_get (rlog sample_committed) 1 = log_view (rlog sample_committed) (unat (1::u64))"
  using log_refines_map [of "rlog sample_committed" 1] sample_committed_inv by (simp add: node_inv_def node_ok_def)

text \<open>
  \<open>find_conflict\<close> on an index that holds another term returns the first index of the run of that
  term ending there, and that term; on any other index it returns its arguments.
\<close>

theorem find_conflict_correct:
  assumes "log_ok l"
  shows "case log_view l (unat i) of
      Some e \<Rightarrow>
        (if eterm e = t then find_conflict l i t = (i, t)
         else \<exists>j. find_conflict l i t = (j, eterm e) \<and> unat (first_index l) \<le> unat j \<and> unat j \<le> unat i \<and>
           (\<forall>k. unat j \<le> k \<and> k \<le> unat i \<longrightarrow> map_option eterm (log_view l k) = Some (eterm e)) \<and>
           (unat j = unat (first_index l) \<or> map_option eterm (log_view l (unat j - 1)) \<noteq> Some (eterm e)))
    | None \<Rightarrow> find_conflict l i t = (i, t)"
  using assms find_conflict_loop_run [OF assms, of i]
  by (auto simp: find_conflict_def log_get_view split: option.splits)

theorem find_conflict_correct_witness:
  "log_ok (rlog sample_committed) \<and> find_conflict (rlog sample_committed) 7 9 = (7, 9)"
proof -
  have ok: "log_ok (rlog sample_committed)" using sample_committed_inv by (simp add: node_inv_def node_ok_def)
  have "log_get (rlog sample_committed) 7 = None" by code_simp
  then have v: "log_view (rlog sample_committed) (unat (7::u64)) = None" by (simp only: log_get_view [OF ok])
  have "find_conflict (rlog sample_committed) 7 9 = (7, 9)"
    using find_conflict_correct [OF ok, of 7 9] unfolding v option.case .
  with ok show ?thesis by simp
qed



section \<open>Where the node falls short of Raft\<close>

text \<open>
  C24. \<open>entries_range\<close> panics exactly when the range is not empty and ends before the first entry the
  log still holds: the end offset underflows. A leader whose log was compacted past
  a follower's next index by more than a request's worth of entries panics on its tick.
\<close>

theorem entries_range_panics_iff:
  assumes "log_ok l"
  shows "entries_range l start stop = None \<longleftrightarrow> start < stop \<and> stop < first_index l"
proof (cases "first_index l \<le> stop \<or> stop \<le> start \<or> last_index l < start")
  case True
  then have "entries_range l start stop \<noteq> None" using entries_range_correct [OF assms] by auto
  moreover have "\<not> (start < stop \<and> stop < first_index l)"
    using True first_le_last [OF assms] by (auto simp: u64_less_nat u64_le_nat)
  ultimately show ?thesis by blast
next
  case False
  then have f: "start < stop" "stop < first_index l" "\<not> (last_index l < start \<or> stop \<le> start)" by auto
  have ns: "\<not> last_index l + 1 < stop"
    using f(2) first_le_last [OF assms] last_index_Suc [OF assms] by (simp add: u64_less_nat)
  have b: "unat (first_index l) + length (entries l) < u64_size" using log_ok_bounds [OF assms] by blast
  have "unat (stop - first_index l) = u64_size + unat stop - unat (first_index l)"
    using f(2) by (intro unat_u64_sub_wrap) (simp add: u64_less_nat)
  with b f(2) have "length (entries l) < unat (stop - first_index l)" by (simp add: u64_less_nat)
  with f ns show ?thesis by (simp add: entries_range_def Let_def subslice_def)
qed

theorem entries_range_panics_iff_witness:
  "log_ok (compact (raft_log_new 1 1) 200 3) \<and> entries_range (compact (raft_log_new 1 1) 200 3) 1 101 = None"
proof -
  have "log_ok (compact (raft_log_new 1 1) 200 3)" by (intro log_ok_compact log_ok_new) simp
  moreover have "first_index (compact (raft_log_new 1 1) 200 3) = 201" by code_simp
  ultimately show ?thesis using entries_range_panics_iff [of "compact (raft_log_new 1 1) 200 3" 1 101] by simp
qed

text \<open>
  C25. A leader with another voter never applies: each tick returns the requests it sends and leaves the
  node as it was, so its last applied index stays behind however far it commits.
\<close>

theorem leader_with_peers_never_applies:
  assumes "node_ok n" and "rstate n = Leader" and "v \<in> set (voters (rconfig n))" and "v \<noteq> rid n"
    and "tick tm n = Some (a, n')"
  shows "n' = n \<and> (\<exists>reqs. a = SendAppendEntries reqs \<and> v \<in> fst ` set reqs)"
proof -
  obtain ls where ls: "rleader_state n = Some ls" using assms(1,2) by (auto simp: node_ok_def roles_ok_def)
  from assms(5,2) obtain reqs where g: "generate_append_entries n = Some reqs"
    by (auto simp: tick_def split: bind_splits)
  with assms(2) ls have "append_requests n ls (voters (rconfig n)) = Some reqs"
    by (simp add: generate_append_entries_def)
  from append_requests_nonempty [OF this] have "set (map fst reqs) = set (filter (\<lambda>v. v \<noteq> rid n) (voters (rconfig n)))"
    by (simp only:)
  with assms(3,4) have v: "v \<in> fst ` set reqs" by simp
  then have "reqs \<noteq> []" by auto
  with assms(2,5) g v show ?thesis by (auto simp: tick_def)
qed

theorem leader_with_peers_never_applies_witness:
  "\<exists>a n'. tick (sample_timing 0) (sample_leader 1) = Some (a, n') \<and> n' = sample_leader 1"
proof -
  have v: "2 \<in> set (voters (rconfig (sample_leader 1)))" "2 \<noteq> rid (sample_leader 1)"
    and st: "rstate (sample_leader 1) = Leader" by code_simp+
  have ok: "node_ok (sample_leader 1)" using sample_leader_inv by (simp add: node_inv_def)
  have "map_option (\<lambda>_. ()) (tick (sample_timing 0) (sample_leader 1)) = Some ()" by code_simp
  then obtain a n' where "tick (sample_timing 0) (sample_leader 1) = Some (a, n')" by auto
  with leader_with_peers_never_applies [OF ok st v this] show ?thesis by blast
qed


text \<open>
  Stepping down forgets the vote of the current term: a candidate, which has voted for itself,
  that hears from a leader of its own term is left with no vote, and grants the next
  request of that term that is up to date. The node has voted twice in one term.
\<close>

theorem step_down_forgets_vote:
  assumes "node_ok n" and "rstate n = Candidate" and "ae_term req = nterm n"
    and "handle_append_entries tm n req = Some (resp, n')"
    and "rv_term r = nterm n" and "is_up_to_date (rlog n') (rv_last_log_index r) (rv_last_log_term r)"
  shows "nvote n = Some (rid n) \<and> nterm n' = nterm n \<and>
    (\<exists>g n''. handle_request_vote tm' n' r = Some (g, n'') \<and> rvr_vote_granted g)"
proof -
  note a = append_entries_result [OF assms(4)]
  have v: "nvote n = Some (rid n)" using assms(1,2) by (simp add: node_ok_def roles_ok_def)
  have n': "nterm n' = nterm n" "nvote n' = None"
    using a(2,10) assms(2,3) by (simp_all add: steps_down_def)
  have "timeouts_ok n'" using a(1) assms(1) by (simp add: node_ok_def raft_defs)
  then obtain g n'' where g: "handle_request_vote tm' n' r = Some (g, n'')" using request_vote_total by blast
  with request_vote_result(6) [OF g] n' assms(5,6) v show ?thesis by auto
qed

theorem step_down_forgets_vote_witness:
  "\<exists>resp n' g n''. handle_append_entries (sample_timing 0) (sample_candidate 1) (sample_request\<lparr>ae_term := 1, ae_entries := []\<rparr>)
       = Some (resp, n') \<and>
     handle_request_vote (sample_timing 0) n' (sample_vote\<lparr>rv_candidate_id := 3\<rparr>) = Some (g, n'') \<and> rvr_vote_granted g"
proof -
  let ?r = "sample_request\<lparr>ae_term := 1, ae_entries := []\<rparr>"
  have c: "rstate (sample_candidate 1) = Candidate" "nterm (sample_candidate 1) = 1" by code_simp+
  have ok: "node_ok (sample_candidate 1)" using sample_candidate_inv by (simp add: node_inv_def)
  obtain resp n' where n': "handle_append_entries (sample_timing 0) (sample_candidate 1) ?r = Some (resp, n')"
    using append_entries_total [OF node_ok_timeouts [OF ok]] by blast
  have "map_option (\<lambda>p. is_up_to_date (rlog (snd p)) 0 0)
      (handle_append_entries (sample_timing 0) (sample_candidate 1) ?r) = Some True" by code_simp
  with n' have u: "is_up_to_date (rlog n') 0 0" by simp
  from step_down_forgets_vote [OF ok c(1) _ n', of "sample_vote\<lparr>rv_candidate_id := 3\<rparr>" "sample_timing 0"] u c(2) n'
  show ?thesis by (simp add: sample_vote_def)
qed

end
