(* ===== verification/RaftGroup.thy ===== *)
theory RaftGroup
  imports RaftSteps
begin

text \<open>
  The Raft groups of a storage node: \<open>RaftGroupManager\<close> (\<^verbatim>\<open>byoridb-storage/src/raft/mod.rs\<close>), which holds one
  \<open>RaftNode\<close> per partition, and \<open>RaftDriver\<close> (\<^verbatim>\<open>driver.rs\<close>), which ticks the groups, sends what they
  ask for and hands committed commands to the callback. A group is reached through an
  \<open>Arc<RwLock<RaftNode>>\<close>; every method holds the write lock for the whole handler, so a method is
  one step that reads the node from the map and writes it back. Iteration over the map is in
  the order of the association list.

  The theory shows that the manager keeps every group well formed and under its own key, that a method
  touches no group but the one it names, and what the driver sends and applies.
\<close>

section \<open>RaftGroupManager\<close>

type_synonym group_key = "u32 \<times> u32"

record raft_group_manager =
  gm_node_id :: node_id
  groups :: "(group_key, raft_node) hash_map"
  default_config :: cluster_config
  gm_raft_config :: raft_config

datatype raft_error =
    GroupNotFound u32 u32
  | NotLeaderHint bytes
  | LogCompacted
  | StorageError bytes

definition manager_new :: "node_id \<Rightarrow> cluster_config \<Rightarrow> raft_group_manager" where
  "manager_new i c = \<lparr>gm_node_id = i, groups = [], default_config = c, gm_raft_config = raft_config_default\<rparr>"

definition manager_with_config :: "node_id \<Rightarrow> cluster_config \<Rightarrow> raft_config \<Rightarrow> raft_group_manager" where
  "manager_with_config i c conf = \<lparr>gm_node_id = i, groups = [], default_config = c, gm_raft_config = conf\<rparr>"

definition set_group :: "raft_group_manager \<Rightarrow> group_key \<Rightarrow> raft_node \<Rightarrow> raft_group_manager" where
  "set_group m k n = m\<lparr>groups := AList.update k n (groups m)\<rparr>"

definition get_group :: "raft_group_manager \<Rightarrow> u32 \<Rightarrow> u32 \<Rightarrow> raft_node option" where
  "get_group m space_id part_id = map_of (groups m) (space_id, part_id)"

definition get_or_create_group ::
  "timing \<Rightarrow> raft_group_manager \<Rightarrow> u32 \<Rightarrow> u32 \<Rightarrow> (raft_node \<times> raft_group_manager) option" where
  "get_or_create_group tm m space_id part_id =
     (case map_of (groups m) (space_id, part_id) of
        Some n \<Rightarrow> Some (n, m)
      | None \<Rightarrow>
          do {
            n \<leftarrow> raft_node_new tm (gm_node_id m) space_id part_id (default_config m) (gm_raft_config m);
            Some (n, set_group m (space_id, part_id) n)
          })"

definition remove_group :: "raft_group_manager \<Rightarrow> u32 \<Rightarrow> u32 \<Rightarrow> raft_node option \<times> raft_group_manager" where
  "remove_group m space_id part_id =
     (map_of (groups m) (space_id, part_id), m\<lparr>groups := AList.delete (space_id, part_id) (groups m)\<rparr>)"

definition debug_node_id :: "node_id option \<Rightarrow> bytes" where
  "debug_node_id i =
     (case i of None \<Rightarrow> ascii ''None'' | Some i \<Rightarrow> ascii ''Some('' @ dec_nat (unat i) @ ascii '')'')"

fun raft_node_error_to_string :: "raft_node_error \<Rightarrow> bytes" where
  "raft_node_error_to_string (NotLeader l) = ascii ''Not the leader (leader is '' @ debug_node_id l @ ascii '')''"
| "raft_node_error_to_string (ProposalFailed s) = ascii ''Proposal failed: '' @ ascii s"

definition not_leader :: "raft_node_error + log_index \<Rightarrow> raft_error + log_index" where
  "not_leader r = (case r of Inl e \<Rightarrow> Inl (NotLeaderHint (raft_node_error_to_string e)) | Inr i \<Rightarrow> Inr i)"

definition manager_propose ::
  "raft_group_manager \<Rightarrow> u32 \<Rightarrow> u32 \<Rightarrow> command \<Rightarrow> (raft_error + log_index) \<times> raft_group_manager" where
  "manager_propose m space_id part_id c =
     (case get_group m space_id part_id of
        None \<Rightarrow> (Inl (GroupNotFound space_id part_id), m)
      | Some n \<Rightarrow> (case propose n c of (r, n') \<Rightarrow> (not_leader r, set_group m (space_id, part_id) n')))"

definition manager_is_leader :: "raft_group_manager \<Rightarrow> u32 \<Rightarrow> u32 \<Rightarrow> bool" where
  "manager_is_leader m space_id part_id =
     (case get_group m space_id part_id of None \<Rightarrow> False | Some n \<Rightarrow> is_leader n)"

definition manager_get_leader :: "raft_group_manager \<Rightarrow> u32 \<Rightarrow> u32 \<Rightarrow> node_id option" where
  "manager_get_leader m space_id part_id =
     (case get_group m space_id part_id of None \<Rightarrow> None | Some n \<Rightarrow> leader_id n)"

definition manager_request_vote ::
  "timing \<Rightarrow> raft_group_manager \<Rightarrow> u32 \<Rightarrow> u32 \<Rightarrow> request_vote_request \<Rightarrow>
   ((raft_error + request_vote_response) \<times> raft_group_manager) option" where
  "manager_request_vote tm m space_id part_id req =
     do {
       (n, m) \<leftarrow> get_or_create_group tm m space_id part_id;
       (resp, n) \<leftarrow> handle_request_vote tm n req;
       Some (Inr resp, set_group m (space_id, part_id) n)
     }"

definition manager_append_entries ::
  "timing \<Rightarrow> raft_group_manager \<Rightarrow> u32 \<Rightarrow> u32 \<Rightarrow> append_entries_request \<Rightarrow>
   ((raft_error + append_entries_response) \<times> raft_group_manager) option" where
  "manager_append_entries tm m space_id part_id req =
     do {
       (n, m) \<leftarrow> get_or_create_group tm m space_id part_id;
       (resp, n) \<leftarrow> handle_append_entries tm n req;
       Some (Inr resp, set_group m (space_id, part_id) n)
     }"

definition manager_install_snapshot ::
  "timing \<Rightarrow> raft_group_manager \<Rightarrow> u32 \<Rightarrow> u32 \<Rightarrow> install_snapshot_request \<Rightarrow>
   ((raft_error + install_snapshot_response \<times> install_snapshot_action option) \<times> raft_group_manager) option" where
  "manager_install_snapshot tm m space_id part_id req =
     do {
       (n, m) \<leftarrow> get_or_create_group tm m space_id part_id;
       (resp, n) \<leftarrow> handle_install_snapshot tm n req;
       Some (Inr resp, set_group m (space_id, part_id) n)
     }"

definition propose_change ::
  "raft_group_manager \<Rightarrow> u32 \<Rightarrow> u32 \<Rightarrow> config_change \<Rightarrow> (raft_error + log_index) \<times> raft_group_manager" where
  "propose_change m space_id part_id change =
     (case get_group m space_id part_id of
        None \<Rightarrow> (Inl (GroupNotFound space_id part_id), m)
      | Some n \<Rightarrow> (case propose_config_change n change of
                     (r, n') \<Rightarrow> (not_leader r, set_group m (space_id, part_id) n')))"

definition propose_add_node ::
  "raft_group_manager \<Rightarrow> u32 \<Rightarrow> u32 \<Rightarrow> node_id \<Rightarrow> string \<Rightarrow> (raft_error + log_index) \<times> raft_group_manager" where
  "propose_add_node m space_id part_id i addr = propose_change m space_id part_id (AddNode i addr)"

definition propose_remove_node ::
  "raft_group_manager \<Rightarrow> u32 \<Rightarrow> u32 \<Rightarrow> node_id \<Rightarrow> (raft_error + log_index) \<times> raft_group_manager" where
  "propose_remove_node m space_id part_id i = propose_change m space_id part_id (RemoveNode i)"

text \<open>Each tick reads the clock for itself: \<open>tms\<close> gives the reading of each group.\<close>

fun tick_groups ::
  "(group_key \<Rightarrow> timing) \<Rightarrow> (group_key, raft_node) hash_map \<Rightarrow>
   ((group_key \<times> raft_action) list \<times> (group_key, raft_node) hash_map) option" where
  "tick_groups tms [] = Some ([], [])"
| "tick_groups tms ((k, n) # gs) =
     do {
       (action, n) \<leftarrow> tick (tms k) n;
       (actions, gs) \<leftarrow> tick_groups tms gs;
       Some (case action of NoAction \<Rightarrow> actions | _ \<Rightarrow> (k, action) # actions, (k, n) # gs)
     }"

definition tick_all ::
  "(group_key \<Rightarrow> timing) \<Rightarrow> raft_group_manager \<Rightarrow> ((group_key \<times> raft_action) list \<times> raft_group_manager) option" where
  "tick_all tms m =
     do { (actions, gs) \<leftarrow> tick_groups tms (groups m); Some (actions, m\<lparr>groups := gs\<rparr>) }"

definition get_all_partitions :: "raft_group_manager \<Rightarrow> group_key list" where
  "get_all_partitions m = map fst (groups m)"

definition group_count :: "raft_group_manager \<Rightarrow> nat" where
  "group_count m = length (groups m)"

section \<open>RaftDriver\<close>

text \<open>
  What a driver tick sets off: a task per request, which sends it and feeds the answer back to the
  group, and a call of the apply callback per committed command.
\<close>

datatype driver_effect =
    SpawnRequestVote u32 u32 node_id request_vote_request
  | SpawnAppendEntries u32 u32 node_id append_entries_request
  | ApplyCallback u32 u32 command

fun action_effects :: "bool \<Rightarrow> group_key \<times> raft_action \<Rightarrow> driver_effect list" where
  "action_effects callback ((space_id, part_id), NoAction) = []"
| "action_effects callback ((space_id, part_id), SendRequestVote requests) =
     map (\<lambda>(i, req). SpawnRequestVote space_id part_id i req) requests"
| "action_effects callback ((space_id, part_id), SendAppendEntries requests) =
     map (\<lambda>(i, req). SpawnAppendEntries space_id part_id i req) requests"
| "action_effects callback ((space_id, part_id), ApplyEntries es) =
     (if callback then map (\<lambda>e. ApplyCallback space_id part_id (ecommand e)) es else [])"

definition process_tick ::
  "(group_key \<Rightarrow> timing) \<Rightarrow> raft_group_manager \<Rightarrow> bool \<Rightarrow> (driver_effect list \<times> raft_group_manager) option" where
  "process_tick tms m callback =
     do { (actions, m) \<leftarrow> tick_all tms m; Some (concat (map (action_effects callback) actions), m) }"

text \<open>The tasks when their answer arrives: the group may be gone by then.\<close>

definition on_vote_response ::
  "timing \<Rightarrow> raft_group_manager \<Rightarrow> u32 \<Rightarrow> u32 \<Rightarrow> node_id \<Rightarrow> request_vote_response \<Rightarrow> raft_group_manager option" where
  "on_vote_response tm m space_id part_id i resp =
     (case get_group m space_id part_id of
        None \<Rightarrow> Some m
      | Some n \<Rightarrow> do { (_, n) \<leftarrow> handle_request_vote_response tm n i resp; Some (set_group m (space_id, part_id) n) })"

definition on_append_response ::
  "timing \<Rightarrow> raft_group_manager \<Rightarrow> u32 \<Rightarrow> u32 \<Rightarrow> node_id \<Rightarrow> append_entries_response \<Rightarrow> raft_group_manager option" where
  "on_append_response tm m space_id part_id i resp =
     (case get_group m space_id part_id of
        None \<Rightarrow> Some m
      | Some n \<Rightarrow> do { n \<leftarrow> handle_append_entries_response tm n i resp; Some (set_group m (space_id, part_id) n) })"

fun raft_error_to_string :: "raft_error \<Rightarrow> bytes" where
  "raft_error_to_string (GroupNotFound s p) =
     ascii ''Raft group not found for space='' @ dec_nat (unat s) @ ascii '', partition='' @ dec_nat (unat p)"
| "raft_error_to_string (NotLeaderHint h) = ascii ''Not leader, leader hint: '' @ h"
| "raft_error_to_string LogCompacted = ascii ''Log compacted, need snapshot''"
| "raft_error_to_string (StorageError e) = ascii ''Storage error: '' @ e"

datatype raft_driver_error = ProposeFailed bytes

definition driver_propose ::
  "raft_group_manager \<Rightarrow> u32 \<Rightarrow> u32 \<Rightarrow> command \<Rightarrow> (raft_driver_error + log_index) \<times> raft_group_manager" where
  "driver_propose m space_id part_id c =
     (case manager_propose m space_id part_id c of
        (Inl e, m') \<Rightarrow> (Inl (ProposeFailed (raft_error_to_string e)), m')
      | (Inr i, m') \<Rightarrow> (Inr i, m'))"

section \<open>Well-formed managers\<close>

definition group_ok :: "raft_group_manager \<Rightarrow> group_key \<times> raft_node \<Rightarrow> bool" where
  "group_ok m g \<longleftrightarrow>
     node_ok (snd g) \<and> rid (snd g) = gm_node_id m \<and> (rspace_id (snd g), rpart_id (snd g)) = fst g"

definition manager_ok :: "raft_group_manager \<Rightarrow> bool" where
  "manager_ok m \<longleftrightarrow>
     election_timeout_min (gm_raft_config m) \<le> election_timeout_max (gm_raft_config m) \<and>
     distinct (map fst (groups m)) \<and> list_all (group_ok m) (groups m)"

lemma manager_ok_new: "manager_ok (manager_new i c)"
  by (simp add: manager_ok_def manager_new_def raft_config_default_def)

lemma set_update_subset: "set (AList.update k v m) \<subseteq> insert (k, v) (set m)"
  by (induction m) auto

lemma manager_ok_set_group:
  assumes "manager_ok m" and "group_ok m (k, n)"
  shows "manager_ok (set_group m k n)"
  using assms set_update_subset [of k n "groups m"]
  by (auto simp: manager_ok_def set_group_def distinct_update list_all_iff group_ok_def)

lemma get_group_set [simp]:
  "get_group (set_group m (s, p) n) s' p' = (if s' = s \<and> p' = p then Some n else get_group m s' p')"
  by (simp add: get_group_def set_group_def update_conv')

lemma get_group_ok:
  "manager_ok m \<Longrightarrow> get_group m s p = Some n \<Longrightarrow> group_ok m ((s, p), n)"
  by (auto simp: get_group_def manager_ok_def list_all_iff dest: map_of_SomeD)

lemma gm_set_group [simp]:
  "gm_node_id (set_group m k n) = gm_node_id m" "gm_raft_config (set_group m k n) = gm_raft_config m"
  "default_config (set_group m k n) = default_config m"
  by (simp_all add: set_group_def)

lemma group_ok_set [simp]: "group_ok (set_group m k n) g = group_ok m g"
  by (simp add: group_ok_def)

lemma group_ok_same: "group_ok m (k, n) \<Longrightarrow> same_group n n' \<Longrightarrow> node_ok n' \<Longrightarrow> group_ok m (k, n')"
  by (auto simp: group_ok_def same_group_def)

lemma get_or_create_group_result:
  assumes "manager_ok m"
  obtains n m' where "get_or_create_group tm m s p = Some (n, m')" and "manager_ok m'" and "group_ok m' ((s, p), n)"
    and "get_group m' s p = Some n" and "gm_node_id m' = gm_node_id m"
    and "\<And>k. k \<noteq> (s, p) \<Longrightarrow> get_group m' (fst k) (snd k) = get_group m (fst k) (snd k)"
    and "\<And>n0. get_group m s p = Some n0 \<Longrightarrow> n = n0 \<and> m' = m"
    and "get_group m s p = None \<Longrightarrow> rstate n = Follower \<and> nterm n = 0 \<and> ncommit n = 0 \<and> entries (rlog n) = []"
proof (cases "get_group m s p")
  case (Some n)
  then show ?thesis
    using assms get_group_ok [OF assms Some]
    by (intro that [of n m]) (auto simp: get_or_create_group_def get_group_def)
next
  case None
  have "election_timeout_min (gm_raft_config m) \<le> election_timeout_max (gm_raft_config m)"
    using assms by (simp add: manager_ok_def)
  then obtain n where n: "raft_node_new tm (gm_node_id m) s p (default_config m) (gm_raft_config m) = Some n"
    by (auto simp: raft_node_new_def random_election_deadline_def)
  have fields: "rid n = gm_node_id m" "rspace_id n = s" "rpart_id n = p" "rstate n = Follower" "nterm n = 0"
    "ncommit n = 0" "entries (rlog n) = []"
    using n by (auto simp: raft_node_new_def raft_log_new_def split: bind_splits)
  then have ok: "group_ok m ((s, p), n)" using node_ok_new [OF n] by (simp add: group_ok_def)
  show ?thesis
    using None n ok fields assms manager_ok_set_group [OF assms ok]
    by (intro that [of n "set_group m (s, p) n"]) (auto simp: get_or_create_group_def get_group_def set_group_def update_conv' group_ok_def)
qed

section \<open>Handlers behind the manager\<close>

text \<open>
  What the manager relies on of a node's RPC handler: it returns, and on an admissible request it keeps
  the node well formed and in its group.
\<close>

locale group_handler =
  fixes handle :: "timing \<Rightarrow> raft_node \<Rightarrow> 'req \<Rightarrow> ('resp \<times> raft_node) option" and req_ok :: "'req \<Rightarrow> bool"
  assumes total: "node_ok n \<Longrightarrow> \<exists>resp n'. handle tm n req = Some (resp, n')"
    and keeps: "node_ok n \<Longrightarrow> req_ok req \<Longrightarrow> handle tm n req = Some (resp, n') \<Longrightarrow> node_ok n' \<and> same_group n n'"
begin

lemma through_manager:
  assumes "manager_ok m" and "req_ok req"
  shows "\<exists>resp m'. do {
           (n, m) \<leftarrow> get_or_create_group tm m s p;
           (resp, n) \<leftarrow> handle tm n req;
           Some (Inr resp, set_group m (s, p) n)
         } = Some (Inr resp, m') \<and> manager_ok m' \<and>
         (\<forall>s' p'. (s', p') \<noteq> (s, p) \<longrightarrow> get_group m' s' p' = get_group m s' p')"
proof -
  obtain n m1 where g: "get_or_create_group tm m s p = Some (n, m1)" "manager_ok m1" "group_ok m1 ((s, p), n)"
    "\<And>k. k \<noteq> (s, p) \<Longrightarrow> get_group m1 (fst k) (snd k) = get_group m (fst k) (snd k)"
    by (rule get_or_create_group_result [OF assms(1), of tm s p]) (rule that)
  have n: "node_ok n" using g(3) by (simp add: group_ok_def)
  obtain resp n' where h: "handle tm n req = Some (resp, n')" using total [OF n] by blast
  have "group_ok m1 ((s, p), n')" using group_ok_same [OF g(3)] keeps [OF n assms(2) h] by blast
  then have "manager_ok (set_group m1 (s, p) n')" by (rule manager_ok_set_group [OF g(2)])
  moreover have "get_group (set_group m1 (s, p) n') s' p' = get_group m s' p'" if "(s', p') \<noteq> (s, p)" for s' p'
    using that g(4) [of "(s', p')"] by auto
  ultimately show ?thesis using g(1) h by auto
qed

end

interpretation vote_handler: group_handler handle_request_vote "\<lambda>_. True"
proof
  show "\<exists>resp n'. handle_request_vote tm n req = Some (resp, n')" if "node_ok n" for tm n req
    using that request_vote_total by (simp add: node_ok_def)
qed (auto intro: node_ok_request_vote request_vote_result(1))

interpretation append_handler: group_handler handle_append_entries ae_ok
proof
  show "\<exists>resp n'. handle_append_entries tm n req = Some (resp, n')" if "node_ok n" for tm n req
    using that append_entries_total by (simp add: node_ok_def)
qed (auto intro: node_ok_append_entries append_entries_result(1))

lemma node_ok_install_snapshot:
  assumes "handle_install_snapshot tm n req = Some (r, n')" and "node_ok n"
  shows "node_ok n' \<and> same_group n n'"
proof -
  obtain resp act where r: "r = (resp, act)" by (cases r)
  note i = install_snapshot_result [OF assms(1) [unfolded r]]
  show ?thesis using assms(2) i by (auto simp: node_ok_def raft_defs split: if_splits)
qed

interpretation snapshot_handler: group_handler handle_install_snapshot "\<lambda>_. True"
proof
  show "\<exists>resp n'. handle_install_snapshot tm n req = Some (resp, n')" if "node_ok n" for tm n req
    using that install_snapshot_total by (simp add: node_ok_def)
qed (blast dest: node_ok_install_snapshot)

lemma tick_groups_result:
  assumes "tick_groups tms gs = Some (actions, gs')" and "distinct (map fst gs)"
  shows "map fst gs' = map fst gs \<and> fst ` set actions \<subseteq> fst ` set gs \<and>
    (\<forall>k n. map_of gs k = Some n \<longrightarrow>
       (\<exists>a n'. tick (tms k) n = Some (a, n') \<and> map_of gs' k = Some n' \<and>
          (\<forall>b. (k, b) \<in> set actions \<longleftrightarrow> b = a \<and> a \<noteq> NoAction)))"
  using assms
proof (induction gs arbitrary: actions gs')
  case (Cons g gs)
  obtain k n where g: "g = (k, n)" by (cases g)
  from Cons.prems(1) obtain a n' acts gs'' where
    t: "tick (tms k) n = Some (a, n')" "tick_groups tms gs = Some (acts, gs'')"
    and eq: "actions = (case a of NoAction \<Rightarrow> acts | _ \<Rightarrow> (k, a) # acts)" "gs' = (k, n') # gs''"
    by (auto simp: g split: bind_splits)
  have set: "set actions = (if a = NoAction then set acts else insert (k, a) (set acts))"
    by (cases a) (simp_all add: eq)
  have nk: "k \<notin> fst ` set gs" using Cons.prems(2) g by simp
  have ih: "map fst gs'' = map fst gs" "fst ` set acts \<subseteq> fst ` set gs"
    "\<And>j x. map_of gs j = Some x \<Longrightarrow> \<exists>b x'. tick (tms j) x = Some (b, x') \<and> map_of gs'' j = Some x' \<and>
       (\<forall>c. (j, c) \<in> set acts \<longleftrightarrow> c = b \<and> b \<noteq> NoAction)"
    using Cons.IH [OF t(2)] Cons.prems(2) g by auto
  have "k \<notin> fst ` set acts" using ih(2) nk by blast
  then have none: "(k, c) \<notin> set acts" for c by force
  have "\<exists>b x'. tick (tms j) x = Some (b, x') \<and> map_of gs' j = Some x' \<and>
       (\<forall>c. (j, c) \<in> set actions \<longleftrightarrow> c = b \<and> b \<noteq> NoAction)" if "map_of (g # gs) j = Some x" for j x
  proof (cases "j = k")
    case True
    with that g t(1) none show ?thesis by (auto simp: set eq(2))
  next
    case False
    with that g have "map_of gs j = Some x" by simp
    from ih(3) [OF this] False show ?thesis by (auto simp: set eq(2))
  qed
  with ih(1,2) show ?case by (auto simp: g set eq(2) split: if_splits)
qed simp

lemma manager_ok_tick_all:
  assumes "tick_all tms m = Some (actions, m')" and "manager_ok m"
  shows "manager_ok m'"
proof -
  obtain gs where gs: "tick_groups tms (groups m) = Some (actions, gs)" "m' = m\<lparr>groups := gs\<rparr>"
    using assms(1) by (auto simp: tick_all_def split: bind_splits)
  have d: "distinct (map fst (groups m))" using assms(2) by (simp add: manager_ok_def)
  note r = tick_groups_result [OF gs(1) d]
  have "group_ok m (k, n')" if "(k, n') \<in> set gs" for k n'
  proof -
    have dg: "distinct (map fst gs)" using d r by simp
    with that have mk: "map_of gs k = Some n'" by simp
    have "k \<in> set (map fst (groups m))" using that r by (metis in_set_zipE zip_map_fst_snd)
    then obtain n where n: "map_of (groups m) k = Some n" by (metis list.set_map map_of_eq_None_iff not_None_eq)
    obtain a x where "tick (tms k) n = Some (a, x)" "map_of gs k = Some x"
      using r [THEN conjunct2, THEN conjunct2, rule_format, OF n] by blast
    with mk have t: "tick (tms k) n = Some (a, n')" by simp
    have g: "group_ok m (k, n)" using n assms(2) by (auto simp: manager_ok_def list_all_iff dest: map_of_SomeD)
    then have ok: "node_ok n'" using node_ok_tick [OF t] by (simp add: group_ok_def)
    have "same_group n n'"
      using t
    proof (cases rule: tick_cases)
      case (candidate reqs)
      then show ?thesis by (auto intro: candidate_result(1))
    next
      case committed
      then show ?thesis using apply_committed_frame(1) by metis
    qed (simp add: same_group_def)
    from group_ok_same [OF g this ok] show ?thesis .
  qed
  with assms(2) d r show ?thesis
    by (auto simp: gs(2) manager_ok_def list_all_iff group_ok_def)
qed

section \<open>Properties\<close>

text \<open>
  The RPC methods of the manager return, keep every group well formed and under its key, and change
  no group but the one the request names, creating it when it does not exist.
\<close>

theorem manager_requests_isolated:
  assumes "manager_ok m" and "ae_ok req"
  shows "\<exists>r1 m1 r2 m2 r3 m3.
    manager_append_entries tm m s p req = Some (Inr r1, m1) \<and>
    manager_request_vote tm m s p vreq = Some (Inr r2, m2) \<and>
    manager_install_snapshot tm m s p sreq = Some (Inr r3, m3) \<and>
    manager_ok m1 \<and> manager_ok m2 \<and> manager_ok m3 \<and>
    (\<forall>s' p'. (s', p') \<noteq> (s, p) \<longrightarrow>
       get_group m1 s' p' = get_group m s' p' \<and> get_group m2 s' p' = get_group m s' p' \<and>
       get_group m3 s' p' = get_group m s' p')"
proof -
  obtain r1 m1 where 1: "manager_append_entries tm m s p req = Some (Inr r1, m1)" "manager_ok m1"
    "\<forall>s' p'. (s', p') \<noteq> (s, p) \<longrightarrow> get_group m1 s' p' = get_group m s' p'"
    using append_handler.through_manager [OF assms] unfolding manager_append_entries_def by blast
  obtain r2 m2 where 2: "manager_request_vote tm m s p vreq = Some (Inr r2, m2)" "manager_ok m2"
    "\<forall>s' p'. (s', p') \<noteq> (s, p) \<longrightarrow> get_group m2 s' p' = get_group m s' p'"
    using vote_handler.through_manager [OF assms(1) TrueI] unfolding manager_request_vote_def by blast
  obtain r3 m3 where 3: "manager_install_snapshot tm m s p sreq = Some (Inr r3, m3)" "manager_ok m3"
    "\<forall>s' p'. (s', p') \<noteq> (s, p) \<longrightarrow> get_group m3 s' p' = get_group m s' p'"
    using snapshot_handler.through_manager [OF assms(1) TrueI] unfolding manager_install_snapshot_def by blast
  from 1 2 3 show ?thesis by blast
qed

theorem manager_requests_isolated_witness:
  "\<exists>r m. manager_append_entries \<lparr>now = 0, gen_range = (\<lambda>a b. a)\<rparr> (manager_new 1 cluster_config_new) 1 1
     \<lparr>ae_term = 1, ae_leader_id = 2, ae_prev_log_index = 0, ae_prev_log_term = 0, ae_entries = [], ae_leader_commit = 0\<rparr>
   = Some (Inr r, m) \<and> manager_ok m"
proof -
  have "ae_ok \<lparr>ae_term = 1, ae_leader_id = 2, ae_prev_log_index = 0, ae_prev_log_term = 0, ae_entries = [], ae_leader_commit = 0\<rparr>"
    by (simp add: ae_ok_def contiguous_from_def)
  from manager_requests_isolated [OF manager_ok_new this] show ?thesis by blast
qed

text \<open>
  A proposal to a partition without a group is refused as not found; to a group this node does not
  lead, as not leader with the known leader as hint, and the manager is as before; to a group
  it leads, the command is appended at the returned index, the next one of the log.
\<close>

theorem manager_propose_correct:
  "case get_group m s p of
     None \<Rightarrow> manager_propose m s p c = (Inl (GroupNotFound s p), m)
   | Some n \<Rightarrow>
      (if rstate n = Leader
       then fst (manager_propose m s p c) = Inr (last_index (rlog n) + 1) \<and>
            get_group (snd (manager_propose m s p c)) s p = Some (n\<lparr>rlog := snd (append_entry (rlog n) (nterm n) c)\<rparr>)
       else fst (manager_propose m s p c) = Inl (NotLeaderHint (raft_node_error_to_string (NotLeader (leader_id n)))) \<and>
            (\<forall>s' p'. get_group (snd (manager_propose m s p c)) s' p' = get_group m s' p'))"
  by (auto simp: manager_propose_def propose_def not_leader_def append_entry_def Let_def split: option.splits)

text \<open>
  A driver tick ticks every group exactly once, keeps the groups and their keys, and returns the
  action of each group that has one and of no other.
\<close>

theorem tick_all_correct:
  assumes "manager_ok m" and "tick_all tms m = Some (actions, m')"
  shows "manager_ok m' \<and> get_all_partitions m' = get_all_partitions m \<and>
    (\<forall>s p n. get_group m s p = Some n \<longrightarrow>
       (\<exists>a n'. tick (tms (s, p)) n = Some (a, n') \<and> get_group m' s p = Some n' \<and>
          (\<forall>b. ((s, p), b) \<in> set actions \<longleftrightarrow> b = a \<and> a \<noteq> NoAction)))"
proof -
  obtain gs where gs: "tick_groups tms (groups m) = Some (actions, gs)" "m' = m\<lparr>groups := gs\<rparr>"
    using assms(2) by (auto simp: tick_all_def split: bind_splits)
  have d: "distinct (map fst (groups m))" using assms(1) by (simp add: manager_ok_def)
  from tick_groups_result [OF gs(1) d] manager_ok_tick_all [OF assms(2,1)] show ?thesis
    by (simp add: gs(2) get_all_partitions_def get_group_def)
qed

definition sample_manager :: raft_group_manager where
  "sample_manager =
     snd (the (get_or_create_group \<lparr>now = 0, gen_range = (\<lambda>a b. a)\<rparr> (manager_new 1 cluster_config_new) 1 1))"

lemma sample_manager_ok: "manager_ok sample_manager"
  unfolding sample_manager_def
  by (rule get_or_create_group_result [OF manager_ok_new [of 1 cluster_config_new],
        of "\<lparr>now = 0, gen_range = (\<lambda>a b. a)\<rparr>" 1 1]) simp

theorem tick_all_correct_witness:
  "\<exists>actions m'. tick_all (\<lambda>_. \<lparr>now = 0, gen_range = (\<lambda>a b. a)\<rparr>) sample_manager = Some (actions, m') \<and>
    get_all_partitions m' = [(1, 1)]"
proof -
  have "map_option (\<lambda>_. ()) (tick_all (\<lambda>_. \<lparr>now = 0, gen_range = (\<lambda>a b. a)\<rparr>) sample_manager) = Some ()"
    and "get_all_partitions sample_manager = [(1, 1)]" by code_simp+
  then show ?thesis using tick_all_correct [OF sample_manager_ok] by auto
qed

end
