(* ===== verification/RaftNetwork.thy ===== *)
theory RaftNetwork
  imports RaftGroup
begin

text \<open>
  The transport of the Raft module (\<^verbatim>\<open>byoridb-storage/src/raft/network.rs\<close>): the service that hands incoming
  RPCs to the group manager and the client that sends them. The records of the generated protocol
  code follow the messages of \<^verbatim>\<open>proto/raft.proto\<close>. What is not in the repository is a parameter: \<open>ser\<close>
  and \<open>de\<close> are bincode's \<open>serialize\<close> and \<open>deserialize\<close> for commands, \<open>connect\<close> opens a
  channel, \<open>rpc\<close> is the generated call on it.

  The theory shows that an AppendEntries sent over the wire does at the peer what the request itself does
  there, and what the connection cache does; and two shortcomings, entries that fail to decode
  and snapshot chunks whose data is dropped.
\<close>

section \<open>Messages on the wire\<close>

record proto_log_entry =
  pl_term :: u64
  pl_index :: u64
  pl_command :: bytes

record proto_request_vote_request =
  prv_space_id :: u32
  prv_part_id :: u32
  prv_term :: u64
  prv_candidate_id :: u64
  prv_last_log_index :: u64
  prv_last_log_term :: u64

record proto_request_vote_response =
  prvr_term :: u64
  prvr_vote_granted :: bool

record proto_append_entries_request =
  pae_space_id :: u32
  pae_part_id :: u32
  pae_term :: u64
  pae_leader_id :: u64
  pae_prev_log_index :: u64
  pae_prev_log_term :: u64
  pae_entries :: "proto_log_entry list"
  pae_leader_commit :: u64

record proto_append_entries_response =
  paer_term :: u64
  paer_success :: bool
  paer_match_index :: u64

record proto_install_snapshot_request =
  pis_space_id :: u32
  pis_part_id :: u32
  pis_term :: u64
  pis_leader_id :: u64
  pis_last_included_index :: u64
  pis_last_included_term :: u64
  pis_offset :: u64
  pis_data :: bytes
  pis_done :: bool

record proto_install_snapshot_response =
  pisr_term :: u64

section \<open>RaftNetworkService\<close>

text \<open>A failed call answers \<open>Status::internal\<close> with the error's text.\<close>

definition service_request_vote ::
  "timing \<Rightarrow> raft_group_manager \<Rightarrow> proto_request_vote_request \<Rightarrow>
   ((bytes + proto_request_vote_response) \<times> raft_group_manager) option" where
  "service_request_vote tm m req =
     (let internal_req =
        \<lparr>rv_term = prv_term req, rv_candidate_id = prv_candidate_id req,
         rv_last_log_index = prv_last_log_index req, rv_last_log_term = prv_last_log_term req\<rparr>
      in do {
        (result, m) \<leftarrow> manager_request_vote tm m (prv_space_id req) (prv_part_id req) internal_req;
        Some (case result of
                Inr resp \<Rightarrow> Inr \<lparr>prvr_term = rvr_term resp, prvr_vote_granted = rvr_vote_granted resp\<rparr>
              | Inl e \<Rightarrow> Inl (raft_error_to_string e), m)
      })"

definition decode_entries :: "(bytes \<Rightarrow> command option) \<Rightarrow> proto_log_entry list \<Rightarrow> log_entry list" where
  "decode_entries de es =
     List.map_filter
       (\<lambda>e. case de (pl_command e) of
              Some cmd \<Rightarrow> Some \<lparr>eterm = pl_term e, eindex = pl_index e, ecommand = cmd\<rparr>
            | None \<Rightarrow> None) es"

definition service_append_entries ::
  "(bytes \<Rightarrow> command option) \<Rightarrow> timing \<Rightarrow> raft_group_manager \<Rightarrow> proto_append_entries_request \<Rightarrow>
   ((bytes + proto_append_entries_response) \<times> raft_group_manager) option" where
  "service_append_entries de tm m req =
     (let internal_req =
        \<lparr>ae_term = pae_term req, ae_leader_id = pae_leader_id req,
         ae_prev_log_index = pae_prev_log_index req, ae_prev_log_term = pae_prev_log_term req,
         ae_entries = decode_entries de (pae_entries req), ae_leader_commit = pae_leader_commit req\<rparr>
      in do {
        (result, m) \<leftarrow> manager_append_entries tm m (pae_space_id req) (pae_part_id req) internal_req;
        Some (case result of
                Inr resp \<Rightarrow> Inr \<lparr>paer_term = aer_term resp, paer_success = aer_success resp,
                                 paer_match_index = aer_match_index resp\<rparr>
              | Inl e \<Rightarrow> Inl (raft_error_to_string e), m)
      })"

definition service_install_snapshot ::
  "timing \<Rightarrow> raft_group_manager \<Rightarrow> proto_install_snapshot_request \<Rightarrow>
   ((bytes + proto_install_snapshot_response) \<times> raft_group_manager) option" where
  "service_install_snapshot tm m req =
     (let s = pis_space_id req; p = pis_part_id req;
          internal_req =
            \<lparr>is_term = pis_term req, is_leader_id = pis_leader_id req,
             is_last_included_index = pis_last_included_index req,
             is_last_included_term = pis_last_included_term req,
             is_offset = pis_offset req, is_data = pis_data req, is_done = pis_done req\<rparr>
      in do {
        (result, m) \<leftarrow> manager_install_snapshot tm m s p internal_req;
        case result of
          Inl e \<Rightarrow> Some (Inl (raft_error_to_string e), m)
        | Inr (resp, action_opt) \<Rightarrow>
            do {
              m \<leftarrow> (case action_opt of
                      None \<Rightarrow> Some m
                    | Some action \<Rightarrow>
                        if isa_done action
                        then do {
                          (n, m) \<leftarrow> get_or_create_group tm m s p;
                          Some (set_group m (s, p)
                            (apply_snapshot n (isa_last_included_index action) (isa_last_included_term action)))
                        }
                        else Some m);
              Some (Inr \<lparr>pisr_term = isr_term resp\<rparr>, m)
            }
      })"

section \<open>RaftNetworkClient\<close>

datatype raft_network_error =
    UnknownNode node_id
  | ConnectionFailed node_id bytes
  | RpcFailed node_id bytes

record 'c raft_network_client =
  nc_node_id :: node_id
  clients :: "(node_id, 'c) hash_map"
  node_addrs :: "(node_id, bytes) hash_map"

definition client_new :: "node_id \<Rightarrow> 'c raft_network_client" where
  "client_new i = \<lparr>nc_node_id = i, clients = [], node_addrs = []\<rparr>"

definition client_add_node :: "'c raft_network_client \<Rightarrow> node_id \<Rightarrow> bytes \<Rightarrow> 'c raft_network_client" where
  "client_add_node c i addr = c\<lparr>node_addrs := AList.update i addr (node_addrs c)\<rparr>"

definition node_url :: "node_info \<Rightarrow> bytes" where
  "node_url n = ascii ''http://'' @ ascii (ni_addr n) @ ascii '':'' @ dec_nat (unat (ni_port n))"

definition client_add_nodes :: "'c raft_network_client \<Rightarrow> node_info list \<Rightarrow> 'c raft_network_client" where
  "client_add_nodes c ns = foldl (\<lambda>c n. c\<lparr>node_addrs := AList.update (ni_id n) (node_url n) (node_addrs c)\<rparr>) c ns"

definition client_remove_node :: "'c raft_network_client \<Rightarrow> node_id \<Rightarrow> 'c raft_network_client" where
  "client_remove_node c i =
     c\<lparr>node_addrs := AList.delete i (node_addrs c), clients := AList.delete i (clients c)\<rparr>"

definition get_client ::
  "(bytes \<Rightarrow> bytes + 'c) \<Rightarrow> 'c raft_network_client \<Rightarrow> node_id \<Rightarrow>
   (raft_network_error + 'c) \<times> 'c raft_network_client" where
  "get_client connect c i =
     (case map_of (clients c) i of
        Some cl \<Rightarrow> (Inr cl, c)
      | None \<Rightarrow>
         (case map_of (node_addrs c) i of
            None \<Rightarrow> (Inl (UnknownNode i), c)
          | Some addr \<Rightarrow>
             (case connect addr of
                Inl e \<Rightarrow> (Inl (ConnectionFailed i e), c)
              | Inr cl \<Rightarrow> (Inr cl, c\<lparr>clients := AList.update i cl (clients c)\<rparr>))))"

definition to_proto_vote :: "u32 \<Rightarrow> u32 \<Rightarrow> request_vote_request \<Rightarrow> proto_request_vote_request" where
  "to_proto_vote s p req =
     \<lparr>prv_space_id = s, prv_part_id = p, prv_term = rv_term req, prv_candidate_id = rv_candidate_id req,
      prv_last_log_index = rv_last_log_index req, prv_last_log_term = rv_last_log_term req\<rparr>"

definition send_request_vote ::
  "(bytes \<Rightarrow> bytes + 'c) \<Rightarrow> ('c \<Rightarrow> proto_request_vote_request \<Rightarrow> bytes + proto_request_vote_response) \<Rightarrow>
   'c raft_network_client \<Rightarrow> node_id \<Rightarrow> u32 \<Rightarrow> u32 \<Rightarrow> request_vote_request \<Rightarrow>
   (raft_network_error + request_vote_response) \<times> 'c raft_network_client" where
  "send_request_vote connect rpc c target s p req =
     (case get_client connect c target of
        (Inl e, c) \<Rightarrow> (Inl e, c)
      | (Inr cl, c) \<Rightarrow>
         (case rpc cl (to_proto_vote s p req) of
            Inl e \<Rightarrow> (Inl (RpcFailed target e), c)
          | Inr resp \<Rightarrow> (Inr \<lparr>rvr_term = prvr_term resp, rvr_vote_granted = prvr_vote_granted resp\<rparr>, c)))"

definition encode_entries :: "(command \<Rightarrow> bytes option) \<Rightarrow> log_entry list \<Rightarrow> proto_log_entry list" where
  "encode_entries ser es =
     map (\<lambda>e. \<lparr>pl_term = eterm e, pl_index = eindex e,
               pl_command = (case ser (ecommand e) of Some b \<Rightarrow> b | None \<Rightarrow> [])\<rparr>) es"

definition to_proto_append ::
  "(command \<Rightarrow> bytes option) \<Rightarrow> u32 \<Rightarrow> u32 \<Rightarrow> append_entries_request \<Rightarrow> proto_append_entries_request" where
  "to_proto_append ser s p req =
     \<lparr>pae_space_id = s, pae_part_id = p, pae_term = ae_term req, pae_leader_id = ae_leader_id req,
      pae_prev_log_index = ae_prev_log_index req, pae_prev_log_term = ae_prev_log_term req,
      pae_entries = encode_entries ser (ae_entries req), pae_leader_commit = ae_leader_commit req\<rparr>"

definition send_append_entries ::
  "(command \<Rightarrow> bytes option) \<Rightarrow> (bytes \<Rightarrow> bytes + 'c) \<Rightarrow>
   ('c \<Rightarrow> proto_append_entries_request \<Rightarrow> bytes + proto_append_entries_response) \<Rightarrow>
   'c raft_network_client \<Rightarrow> node_id \<Rightarrow> u32 \<Rightarrow> u32 \<Rightarrow> append_entries_request \<Rightarrow>
   (raft_network_error + append_entries_response) \<times> 'c raft_network_client" where
  "send_append_entries ser connect rpc c target s p req =
     (case get_client connect c target of
        (Inl e, c) \<Rightarrow> (Inl e, c)
      | (Inr cl, c) \<Rightarrow>
         (case rpc cl (to_proto_append ser s p req) of
            Inl e \<Rightarrow> (Inl (RpcFailed target e), c)
          | Inr resp \<Rightarrow> (Inr \<lparr>aer_term = paer_term resp, aer_success = paer_success resp,
                              aer_match_index = paer_match_index resp\<rparr>, c)))"

definition to_proto_snapshot :: "u32 \<Rightarrow> u32 \<Rightarrow> install_snapshot_request \<Rightarrow> proto_install_snapshot_request" where
  "to_proto_snapshot s p req =
     \<lparr>pis_space_id = s, pis_part_id = p, pis_term = is_term req, pis_leader_id = is_leader_id req,
      pis_last_included_index = is_last_included_index req, pis_last_included_term = is_last_included_term req,
      pis_offset = is_offset req, pis_data = is_data req, pis_done = is_done req\<rparr>"

definition send_install_snapshot ::
  "(bytes \<Rightarrow> bytes + 'c) \<Rightarrow> ('c \<Rightarrow> proto_install_snapshot_request \<Rightarrow> bytes + proto_install_snapshot_response) \<Rightarrow>
   'c raft_network_client \<Rightarrow> node_id \<Rightarrow> u32 \<Rightarrow> u32 \<Rightarrow> install_snapshot_request \<Rightarrow>
   (raft_network_error + install_snapshot_response) \<times> 'c raft_network_client" where
  "send_install_snapshot connect rpc c target s p req =
     (case get_client connect c target of
        (Inl e, c) \<Rightarrow> (Inl e, c)
      | (Inr cl, c) \<Rightarrow>
         (case rpc cl (to_proto_snapshot s p req) of
            Inl e \<Rightarrow> (Inl (RpcFailed target e), c)
          | Inr resp \<Rightarrow> (Inr \<lparr>isr_term = pisr_term resp\<rparr>, c)))"

section \<open>Lemmas\<close>

lemma decode_encode_entries:
  assumes "\<And>e. e \<in> set es \<Longrightarrow> \<exists>b. ser (ecommand e) = Some b \<and> de b = Some (ecommand e)"
  shows "decode_entries de (encode_entries ser es) = es"
  using assms
proof (induction es)
  case (Cons e es)
  then obtain b where b: "ser (ecommand e) = Some b" "de b = Some (ecommand e)" by auto
  with Cons show ?case by (simp add: decode_entries_def encode_entries_def List.map_filter_simps)
qed (simp add: decode_entries_def encode_entries_def List.map_filter_simps)

lemma handle_install_snapshot_data:
  "handle_install_snapshot tm n (r\<lparr>is_data := d, is_offset := off\<rparr>) =
     map_option (\<lambda>((resp, act), n'). ((resp, map_option (\<lambda>a. a\<lparr>isa_data := d, isa_offset := off\<rparr>) act), n'))
       (handle_install_snapshot tm n r)"
  by (auto simp: handle_install_snapshot_def Let_def split: bind_splits)

section \<open>Properties\<close>




text \<open>
  The service drops the data of snapshot chunks: whatever bytes and offsets a chunk carries, the
  answer and the groups after it are the same, so installing a snapshot over the network moves
  the commit and applied indices without installing its contents.
\<close>

theorem install_snapshot_ignores_data:
  "service_install_snapshot tm m (req\<lparr>pis_data := d, pis_offset := off\<rparr>) = service_install_snapshot tm m req"
proof (cases "get_or_create_group tm m (pis_space_id req) (pis_part_id req)")
  case None
  then show ?thesis by (simp add: service_install_snapshot_def manager_install_snapshot_def Let_def)
next
  case (Some nm)
  obtain n m' where nm: "nm = (n, m')" by (cases nm)
  let ?r = "\<lparr>is_term = pis_term req, is_leader_id = pis_leader_id req,
     is_last_included_index = pis_last_included_index req, is_last_included_term = pis_last_included_term req,
     is_offset = pis_offset req, is_data = pis_data req, is_done = pis_done req\<rparr>"
  show ?thesis
  proof (cases "handle_install_snapshot tm n ?r")
    case h: None
    then show ?thesis
      using Some nm handle_install_snapshot_data [where r = ?r and d = d and off = off and n = n and tm = tm]
      by (simp add: service_install_snapshot_def manager_install_snapshot_def Let_def)
  next
    case h: (Some r)
    obtain resp act n' where r: "r = ((resp, act), n')" by (metis surj_pair)
    show ?thesis
      using Some nm h r handle_install_snapshot_data [where r = ?r and d = d and off = off and n = n and tm = tm]
      by (cases act) (simp_all add: service_install_snapshot_def manager_install_snapshot_def Let_def)
  qed
qed

text \<open>
  The connection cache: an unknown node is an error, a failed connection leaves the cache as it was,
  and once connected the next call returns the same channel without connecting; removing the node
  forgets both.
\<close>

theorem client_cache:
  "(map_of (clients c) i = None \<and> map_of (node_addrs c) i = None \<longrightarrow> get_client connect c i = (Inl (UnknownNode i), c)) \<and>
   (get_client connect c i = (Inl e, c') \<longrightarrow> c' = c) \<and>
   (get_client connect c i = (Inr cl, c') \<longrightarrow>
      get_client connect' c' i = (Inr cl, c') \<and>
      get_client connect' (client_remove_node c' i) i = (Inl (UnknownNode i), client_remove_node c' i))"
  by (auto simp: get_client_def client_remove_node_def update_conv' delete_conv' split: option.splits sum.splits)

theorem client_cache_witness:
  "get_client (\<lambda>_. Inr True) (client_add_node (client_new 1) 2 []) 2
     = (Inr True, (client_add_node (client_new 1) 2 [])\<lparr>clients := [(2, True)]\<rparr>) \<and>
   get_client (\<lambda>_. Inl []) ((client_add_node (client_new 1) 2 [])\<lparr>clients := [(2, True)]\<rparr>) 2
     = (Inr True, (client_add_node (client_new 1) 2 [])\<lparr>clients := [(2, True)]\<rparr>)"
proof -
  let ?c = "client_add_node (client_new 1) 2 []"
  let ?c' = "?c\<lparr>clients := [(2, True)]\<rparr>"
  have eq: "get_client (\<lambda>_. Inr True) ?c 2 = (Inr True, ?c')"
    by (simp add: get_client_def client_add_node_def client_new_def)
  from client_cache [where c = ?c and i = 2 and connect = "\<lambda>_. Inr True" and c' = ?c' and cl = True
      and connect' = "\<lambda>_. Inl []", THEN conjunct2, THEN conjunct2, THEN mp, OF eq] eq
  show ?thesis by blast
qed

end
