(* ===== verification/RaftStorage.thy ===== *)
theory RaftStorage
  imports KvStore RaftTypes
begin

text \<open>
  The persistent state of a Raft group (\<^verbatim>\<open>byoridb-storage/src/raft/storage.rs\<close>) on a key-value store: \<open>ops\<close>
  are the methods of the \<open>Arc<dyn KVStore>\<close>, threaded with the store's state, and \<open>etext\<close> is the
  \<open>Display\<close> of its error. bincode is a parameter: \<open>ser\<close> gives the bytes or the text of the error,
  \<open>de\<close> the value or the text of the error.

  The lemmas are proved for every store that satisfies \<open>kv_contract\<close>: the log keys of a group are injective
  in the index and disjoint from those of other groups, saving reads back, and deleting and
  compacting remove exactly the entries they name.
\<close>

section \<open>Keys\<close>

record raft_persistent_state =
  ps_current_term :: raft_term
  ps_voted_for :: "node_id option"

definition raft_persistent_state_default :: raft_persistent_state where
  "raft_persistent_state_default = \<lparr>ps_current_term = 0, ps_voted_for = None\<rparr>"

record raft_storage =
  rs_space_id :: u32
  rs_part_id :: u32

datatype raft_storage_error =
    StoreError bytes
  | SerializationError bytes
  | DeserializationError bytes

definition STATE_PREFIX :: bytes where
  "STATE_PREFIX = ascii ''raft:state:''"

definition LOG_PREFIX :: bytes where
  "LOG_PREFIX = ascii ''raft:log:''"

definition state_key :: "raft_storage \<Rightarrow> bytes" where
  "state_key rs = STATE_PREFIX @ u32_to_be (rs_space_id rs) @ u32_to_be (rs_part_id rs)"

definition log_key :: "raft_storage \<Rightarrow> log_index \<Rightarrow> bytes" where
  "log_key rs i = LOG_PREFIX @ u32_to_be (rs_space_id rs) @ u32_to_be (rs_part_id rs) @ [58] @ u64_to_be i"

definition log_prefix :: "raft_storage \<Rightarrow> bytes" where
  "log_prefix rs = LOG_PREFIX @ u32_to_be (rs_space_id rs) @ u32_to_be (rs_part_id rs) @ [58]"

section \<open>Operations\<close>

type_synonym 'a serializer = "'a \<Rightarrow> bytes + bytes"
type_synonym 'a deserializer = "bytes \<Rightarrow> bytes + 'a"

definition load_state ::
  "('s, 'e) kvstore \<Rightarrow> ('e \<Rightarrow> bytes) \<Rightarrow> raft_persistent_state deserializer \<Rightarrow> raft_storage \<Rightarrow> 's \<Rightarrow>
   raft_storage_error + raft_persistent_state" where
  "load_state ops etext de rs s =
     (case kv_get ops s (state_key rs) of
        Inr (Some data) \<Rightarrow> (case de data of Inl e \<Rightarrow> Inl (DeserializationError e) | Inr st \<Rightarrow> Inr st)
      | Inr None \<Rightarrow> Inr raft_persistent_state_default
      | Inl e \<Rightarrow> Inl (StoreError (etext e)))"

definition put_bytes ::
  "('s, 'e) kvstore \<Rightarrow> ('e \<Rightarrow> bytes) \<Rightarrow> 's \<Rightarrow> bytes \<Rightarrow> bytes + bytes \<Rightarrow> (raft_storage_error + unit) \<times> 's" where
  "put_bytes ops etext s key data =
     (case data of
        Inl e \<Rightarrow> (Inl (SerializationError e), s)
      | Inr b \<Rightarrow> (case kv_put ops s key b of
                    (Inl e, s') \<Rightarrow> (Inl (StoreError (etext e)), s')
                  | (Inr _, s') \<Rightarrow> (Inr (), s')))"

definition save_state ::
  "('s, 'e) kvstore \<Rightarrow> ('e \<Rightarrow> bytes) \<Rightarrow> raft_persistent_state serializer \<Rightarrow> raft_storage \<Rightarrow> 's \<Rightarrow>
   raft_persistent_state \<Rightarrow> (raft_storage_error + unit) \<times> 's" where
  "save_state ops etext ser rs s st = put_bytes ops etext s (state_key rs) (ser st)"

definition load_entry ::
  "('s, 'e) kvstore \<Rightarrow> ('e \<Rightarrow> bytes) \<Rightarrow> log_entry deserializer \<Rightarrow> raft_storage \<Rightarrow> 's \<Rightarrow> log_index \<Rightarrow>
   raft_storage_error + log_entry option" where
  "load_entry ops etext de rs s i =
     (case kv_get ops s (log_key rs i) of
        Inr (Some data) \<Rightarrow> (case de data of Inl e \<Rightarrow> Inl (DeserializationError e) | Inr e \<Rightarrow> Inr (Some e))
      | Inr None \<Rightarrow> Inr None
      | Inl e \<Rightarrow> Inl (StoreError (etext e)))"

definition save_entry ::
  "('s, 'e) kvstore \<Rightarrow> ('e \<Rightarrow> bytes) \<Rightarrow> log_entry serializer \<Rightarrow> raft_storage \<Rightarrow> 's \<Rightarrow> log_entry \<Rightarrow>
   (raft_storage_error + unit) \<times> 's" where
  "save_entry ops etext ser rs s e = put_bytes ops etext s (log_key rs (eindex e)) (ser e)"

fun save_entries ::
  "('s, 'e) kvstore \<Rightarrow> ('e \<Rightarrow> bytes) \<Rightarrow> log_entry serializer \<Rightarrow> raft_storage \<Rightarrow> 's \<Rightarrow> log_entry list \<Rightarrow>
   (raft_storage_error + unit) \<times> 's" where
  "save_entries ops etext ser rs s [] = (Inr (), s)"
| "save_entries ops etext ser rs s (e # es) =
     (case save_entry ops etext ser rs s e of
        (Inl err, s') \<Rightarrow> (Inl err, s')
      | (Inr _, s') \<Rightarrow> save_entries ops etext ser rs s' es)"

text \<open>The index in a scanned key, where the key is long enough to hold one.\<close>

definition key_index :: "bytes \<Rightarrow> bytes \<Rightarrow> log_index option" where
  "key_index prefix key =
     (if length prefix + 8 \<le> length key
      then map_option u64_from_be (subslice key (length prefix) (length prefix + 8)) else None)"

fun delete_indexed ::
  "('s, 'e) kvstore \<Rightarrow> ('e \<Rightarrow> bytes) \<Rightarrow> bytes \<Rightarrow> (log_index \<Rightarrow> bool) \<Rightarrow> 's \<Rightarrow> nat \<Rightarrow> rows \<Rightarrow>
   (raft_storage_error + nat) \<times> 's" where
  "delete_indexed ops etext prefix sel s n [] = (Inr n, s)"
| "delete_indexed ops etext prefix sel s n ((key, v) # rows) =
     (case key_index prefix key of
        Some i \<Rightarrow>
          (if sel i
           then (case kv_delete ops s key of
                   (Inl e, s') \<Rightarrow> (Inl (StoreError (etext e)), s')
                 | (Inr _, s') \<Rightarrow> delete_indexed ops etext prefix sel s' (Suc n) rows)
           else delete_indexed ops etext prefix sel s n rows)
      | None \<Rightarrow> delete_indexed ops etext prefix sel s n rows)"

definition delete_entries_from ::
  "('s, 'e) kvstore \<Rightarrow> ('e \<Rightarrow> bytes) \<Rightarrow> raft_storage \<Rightarrow> 's \<Rightarrow> log_index \<Rightarrow> (raft_storage_error + unit) \<times> 's" where
  "delete_entries_from ops etext rs s start_index =
     (case kv_scan_prefix ops s (log_prefix rs) of
        Inl e \<Rightarrow> (Inl (StoreError (etext e)), s)
      | Inr rows \<Rightarrow>
         (case delete_indexed ops etext (log_prefix rs) (\<lambda>i. start_index \<le> i) s 0 rows of
            (Inl e, s') \<Rightarrow> (Inl e, s')
          | (Inr _, s') \<Rightarrow> (Inr (), s')))"

fun decode_rows :: "log_entry deserializer \<Rightarrow> rows \<Rightarrow> raft_storage_error + log_entry list" where
  "decode_rows de [] = Inr []"
| "decode_rows de ((k, data) # rows) =
     (case de data of
        Inl e \<Rightarrow> Inl (DeserializationError e)
      | Inr e \<Rightarrow> (case decode_rows de rows of Inl err \<Rightarrow> Inl err | Inr es \<Rightarrow> Inr (e # es)))"

definition load_all_entries ::
  "('s, 'e) kvstore \<Rightarrow> ('e \<Rightarrow> bytes) \<Rightarrow> log_entry deserializer \<Rightarrow> raft_storage \<Rightarrow> 's \<Rightarrow>
   raft_storage_error + log_entry list" where
  "load_all_entries ops etext de rs s =
     (case kv_scan_prefix ops s (log_prefix rs) of
        Inl e \<Rightarrow> Inl (StoreError (etext e))
      | Inr rows \<Rightarrow> (case decode_rows de rows of Inl e \<Rightarrow> Inl e | Inr es \<Rightarrow> Inr (sort_key eindex es)))"

definition compact_log ::
  "('s, 'e) kvstore \<Rightarrow> ('e \<Rightarrow> bytes) \<Rightarrow> raft_storage \<Rightarrow> 's \<Rightarrow> log_index \<Rightarrow> (raft_storage_error + nat) \<times> 's" where
  "compact_log ops etext rs s up_to_index =
     (case kv_scan_prefix ops s (log_prefix rs) of
        Inl e \<Rightarrow> (Inl (StoreError (etext e)), s)
      | Inr rows \<Rightarrow> delete_indexed ops etext (log_prefix rs) (\<lambda>i. i < up_to_index) s 0 rows)"

section \<open>Keys: lemmas\<close>

lemma log_key_eq: "log_key rs i = log_prefix rs @ u64_to_be i"
  by (simp add: log_key_def log_prefix_def)

lemma log_key_inject [simp]: "log_key rs i = log_key rs j \<longleftrightarrow> i = j"
  by (simp add: log_key_eq)

lemma log_key_less: "log_key rs i < log_key rs j \<longleftrightarrow> i < j"
  by (simp add: log_key_eq append_less_append_same u64_to_be_less)

lemma length_log_prefix [simp]: "length (log_prefix rs) = 18"
  by (simp add: log_prefix_def LOG_PREFIX_def ascii_def)

lemma log_prefix_inject: "length (log_prefix rs) = length p \<Longrightarrow> log_prefix rs @ x = p @ y \<longleftrightarrow> log_prefix rs = p \<and> x = y"
  by simp

lemma log_prefix_group:
  "log_prefix rs = log_prefix rs' \<longleftrightarrow> rs_space_id rs = rs_space_id rs' \<and> rs_part_id rs = rs_part_id rs'"
  by (auto simp: log_prefix_def)

lemma log_key_starts [simp]: "starts_with (log_key rs i) (log_prefix rs)"
  by (simp add: log_key_eq)

lemma log_key_other_group:
  assumes "(rs_space_id rs, rs_part_id rs) \<noteq> (rs_space_id rs', rs_part_id rs')"
  shows "\<not> starts_with (log_key rs' i) (log_prefix rs)"
  using assms log_prefix_group [of rs rs']
  by (auto simp: starts_with_iff log_key_eq append_eq_append_conv_if)

lemma state_key_not_log: "\<not> starts_with (state_key rs) (log_prefix rs')"
  by (auto simp: starts_with_iff state_key_def log_prefix_def STATE_PREFIX_def LOG_PREFIX_def ascii_def)

lemma key_index_log_key [simp]: "key_index (log_prefix rs) (log_key rs i) = Some i"
  by (simp add: key_index_def log_key_eq subslice_def)

lemma log_key_inj: "log_key rs i = log_key rs' i' \<Longrightarrow> log_prefix rs = log_prefix rs' \<and> i = i'"
  by (simp add: log_key_eq append_eq_append_conv)

section \<open>Operations on any store\<close>

definition selected :: "bytes \<Rightarrow> (log_index \<Rightarrow> bool) \<Rightarrow> bytes \<Rightarrow> bool" where
  "selected prefix sel key \<longleftrightarrow> (case key_index prefix key of None \<Rightarrow> False | Some i \<Rightarrow> sel i)"

lemma selected_log_key [simp]: "selected (log_prefix rs) sel (log_key rs i) = sel i"
  by (simp add: selected_def)

context kv_contract
begin

lemma put_bytes_ok:
  assumes "wf s" and "put_bytes ops etext s k d = (Inr u, s')"
  shows "\<exists>b. d = Inr b \<and> wf s' \<and> view s' = (view s)(k \<mapsto> b)"
  using assms put_view
  by (auto simp: put_bytes_def split: sum.splits prod.splits)

lemma put_bytes_failed:
  assumes "wf s" and "put_bytes ops etext s k d = (Inl e, s')"
  shows "wf s' \<and> view s' = view s"
  using assms put_error
  by (auto simp: put_bytes_def split: sum.splits prod.splits)

lemma delete_indexed_ok:
  assumes "wf s" and "delete_indexed ops etext p sel s n rows = (Inr m, s')"
  shows "wf s' \<and> m = n + length (filter (\<lambda>r. selected p sel (fst r)) rows) \<and>
    (\<forall>k. view s' k = (if k \<in> fst ` set rows \<and> selected p sel k then None else view s k))"
  using assms
proof (induction rows arbitrary: s n)
  case (Cons r rows)
  obtain key v where r: "r = (key, v)" by (cases r)
  show ?case
  proof (cases "selected p sel key")
    case True
    then obtain i where i: "key_index p key = Some i" "sel i"
      by (auto simp: selected_def split: option.splits)
    obtain q s1 where d: "kv_delete ops s key = (q, s1)" by (cases "kv_delete ops s key")
    with Cons.prems(2) i r obtain u where q: "q = Inr u"
      and rest: "delete_indexed ops etext p sel s1 (Suc n) rows = (Inr m, s')" by (cases q) auto
    have s1: "wf s1" "view s1 = (view s)(key := None)"
      using delete_view [OF Cons.prems(1) d [unfolded q]] by auto
    from Cons.IH [OF s1(1) rest] s1(2) True r show ?thesis by auto
  next
    case False
    then have "delete_indexed ops etext p sel s n (r # rows) = delete_indexed ops etext p sel s n rows"
      by (auto simp: r selected_def split: option.splits)
    with Cons False r show ?thesis by auto
  qed
qed simp

lemma scan_keys:
  assumes "wf s" and "kv_scan_prefix ops s p = Inr rows"
  shows "k \<in> fst ` set rows \<longleftrightarrow> starts_with k p \<and> view s k \<noteq> None"
proof -
  have "map_of rows k = (if starts_with k p then view s k else None)"
    using scan_view [OF assms] by (simp add: rows_of_def)
  then have "map_of rows k \<noteq> None \<longleftrightarrow> starts_with k p \<and> view s k \<noteq> None" by simp
  then show ?thesis by (simp only: map_of_eq_None_iff not_not)
qed

end

context kv_reliable
begin

lemma put_bytes_total:
  assumes "wf s"
  shows "\<exists>s'. put_bytes ops etext s k (Inr b) = (Inr (), s') \<and> wf s' \<and> view s' = (view s)(k \<mapsto> b)"
  using put_eq [OF assms, of k b] by (auto simp: put_bytes_def)

lemma delete_indexed_total:
  "wf s \<Longrightarrow> \<exists>m s'. delete_indexed ops etext p sel s n rows = (Inr m, s')"
proof (induction rows arbitrary: s n)
  case (Cons r rows)
  obtain key v where r: "r = (key, v)" by (cases r)
  obtain s1 where s1: "kv_delete ops s key = (Inr (), s1)" "wf s1"
    using delete_eq [OF Cons.prems, of key] by blast
  show ?case
    using Cons.IH [OF Cons.prems] Cons.IH [OF s1(2)] s1(1) by (auto simp: r split: option.splits)
qed simp

lemma delete_scanned:
  assumes "wf s"
  shows "\<exists>rows m s'. kv_scan_prefix ops s p = Inr rows \<and> delete_indexed ops etext p sel s 0 rows = (Inr m, s') \<and>
    wf s' \<and> m = length (filter (\<lambda>r. selected p sel (fst r)) rows) \<and>
    (\<forall>k. view s' k = (if starts_with k p \<and> selected p sel k then None else view s k))"
proof -
  obtain rows where rows: "kv_scan_prefix ops s p = Inr rows" using scan_eq [OF assms] by blast
  obtain m s' where d: "delete_indexed ops etext p sel s 0 rows = (Inr m, s')"
    using delete_indexed_total [OF assms] by blast
  have "view s' k = (if starts_with k p \<and> selected p sel k then None else view s k)" for k
    using delete_indexed_ok [OF assms d] scan_keys [OF assms rows, of k] by auto
  with rows d delete_indexed_ok [OF assms d] show ?thesis by auto
qed

lemma save_entries_total:
  assumes "wf s" and "\<And>e. e \<in> set es \<Longrightarrow> \<exists>b. ser e = Inr b"
  shows "\<exists>s'. save_entries ops etext ser rs s es = (Inr (), s') \<and> wf s' \<and>
    view s' = view s ++ map_of (rev (map (\<lambda>e. (log_key rs (eindex e), projr (ser e))) es))"
  using assms
proof (induction es arbitrary: s)
  case (Cons e es)
  obtain b where b: "ser e = Inr b" using Cons.prems(2) by auto
  obtain s1 where s1: "put_bytes ops etext s (log_key rs (eindex e)) (ser e) = (Inr (), s1)" "wf s1"
    "view s1 = (view s)(log_key rs (eindex e) \<mapsto> b)"
    using put_bytes_total [OF Cons.prems(1), of etext "log_key rs (eindex e)" b] b by auto
  obtain s' where "save_entries ops etext ser rs s1 es = (Inr (), s')" "wf s'"
    "view s' = view s1 ++ map_of (rev (map (\<lambda>e. (log_key rs (eindex e), projr (ser e))) es))"
    using Cons.IH [OF s1(2)] Cons.prems(2) by auto
  with s1 b show ?case by (auto simp: save_entry_def)
qed simp

lemma load_all_rows:
  assumes "wf s" and "btree_ok R"
    and "\<And>k. starts_with k (log_prefix rs) \<Longrightarrow> view s k = map_of R k"
    and "\<And>r. r \<in> set R \<Longrightarrow> starts_with (fst r) (log_prefix rs)"
  shows "kv_scan_prefix ops s (log_prefix rs) = Inr R"
proof -
  obtain rows where rows: "kv_scan_prefix ops s (log_prefix rs) = Inr rows" "rows_of (view s) (log_prefix rs) rows"
    using scan_eq [OF assms(1)] by blast
  have "map_of rows k = map_of R k" for k
  proof (cases "starts_with k (log_prefix rs)")
    case False
    with assms(4) have "map_of R k = None" by (auto simp: map_of_eq_None_iff)
    with False rows(2) show ?thesis by (simp add: rows_of_def)
  qed (use rows(2) assms(3) in \<open>simp add: rows_of_def\<close>)
  then have "rows = R" using rows(2) assms(2) by (intro btree_ok_eqI) (auto simp: rows_of_def)
  with rows(1) show ?thesis by simp
qed

end

lemma decode_rows_map:
  assumes "\<And>e. e \<in> set es \<Longrightarrow> de (f e) = Inr e"
  shows "decode_rows de (map (\<lambda>e. (g e, f e)) es) = Inr es"
  using assms by (induction es) auto

lemma btree_ok_log_rows:
  "sorted_wrt (<) (map eindex es) \<Longrightarrow> btree_ok (map (\<lambda>e. (log_key rs (eindex e), f e)) es)"
  by (induction es) (auto simp: btree_ok_Cons log_key_less)

lemma map_of_rev_distinct:
  assumes "distinct (map fst xs)"
  shows "map_of (rev xs) = map_of xs"
proof (rule map_of_inject_set [THEN iffD2])
  show "distinct (map fst (rev xs))" using assms by (simp add: rev_map [symmetric])
qed (use assms in simp_all)

section \<open>Properties\<close>

text \<open>
  The term and vote of a group, once saved, are what the next load returns, on every store that keeps
  the contract and does not fail, for an encoding that reads back what it wrote; no other
  key of the store changes.
\<close>

theorem raft_state_roundtrip:
  assumes "kv_reliable ops view ok" and "ok s" and "ser st = Inr b" and "de b = Inr st"
  shows "\<exists>s'. save_state ops etext ser rs s st = (Inr (), s') \<and> ok s' \<and>
    load_state ops etext de rs s' = Inr st \<and> (\<forall>k. k \<noteq> state_key rs \<longrightarrow> view s' k = view s k)"
proof -
  obtain s' where s': "put_bytes ops etext s (state_key rs) (Inr b) = (Inr (), s')" "ok s'"
    "view s' = (view s)(state_key rs \<mapsto> b)"
    using kv_reliable.put_bytes_total [OF assms(1,2)] by blast
  have "kv_get ops s' (state_key rs) = Inr (Some b)"
    using kv_reliable.get_eq [OF assms(1) s'(2)] s'(3) by simp
  with s' assms(3,4) show ?thesis by (auto simp: save_state_def load_state_def)
qed

theorem raft_state_roundtrip_witness:
  "\<exists>s'. save_state memory_ops (\<lambda>_::unit. []) (\<lambda>_. Inr [1]) \<lparr>rs_space_id = 1, rs_part_id = 1\<rparr> memory_new
          \<lparr>ps_current_term = 3, ps_voted_for = Some 2\<rparr> = (Inr (), s') \<and>
    load_state memory_ops (\<lambda>_::unit. []) (\<lambda>_. Inr \<lparr>ps_current_term = 3, ps_voted_for = Some 2\<rparr>)
      \<lparr>rs_space_id = 1, rs_part_id = 1\<rparr> s' = Inr \<lparr>ps_current_term = 3, ps_voted_for = Some 2\<rparr>"
  using raft_state_roundtrip [OF memory.kv_reliable_axioms memory_ok_new,
      of "\<lambda>_. Inr [1]" "\<lparr>ps_current_term = 3, ps_voted_for = Some 2\<rparr>" "[1]"
        "\<lambda>_. Inr \<lparr>ps_current_term = 3, ps_voted_for = Some 2\<rparr>"] by blast

text \<open>
  C29. Saving a log to a store that holds none of the group's entries and loading it gives the log back,
  in index order, and each entry by its index.
\<close>

theorem raft_log_roundtrip:
  assumes "kv_reliable ops view ok" and "ok s" and "sorted_wrt (<) (map eindex es)"
    and "\<And>e. e \<in> set es \<Longrightarrow> \<exists>b. ser e = Inr b \<and> de b = Inr e"
    and "\<And>k. starts_with k (log_prefix rs) \<Longrightarrow> view s k = None"
  shows "\<exists>s'. save_entries ops etext ser rs s es = (Inr (), s') \<and> ok s' \<and>
    load_all_entries ops etext de rs s' = Inr es \<and>
    (\<forall>e \<in> set es. load_entry ops etext de rs s' (eindex e) = Inr (Some e)) \<and>
    (\<forall>k. \<not> starts_with k (log_prefix rs) \<longrightarrow> view s' k = view s k)"
proof -
  let ?R = "map (\<lambda>e. (log_key rs (eindex e), projr (ser e))) es"
  obtain s' where s': "save_entries ops etext ser rs s es = (Inr (), s')" "ok s'" "view s' = view s ++ map_of (rev ?R)"
    using kv_reliable.save_entries_total [OF assms(1,2), of es ser etext rs] assms(4) by blast
  have R: "btree_ok ?R" by (rule btree_ok_log_rows [OF assms(3)])
  then have rev: "map_of (rev ?R) = map_of ?R" by (intro map_of_rev_distinct btree_ok_distinct)
  have scan: "kv_scan_prefix ops s' (log_prefix rs) = Inr ?R"
    using assms(5) by (intro kv_reliable.load_all_rows [OF assms(1) s'(2) R]) (auto simp: s'(3) rev map_add_def split: option.splits)
  have de: "de (projr (ser e)) = Inr e" if "e \<in> set es" for e using assms(4) [OF that] by auto
  have "sort_key eindex es = es"
    using strict_sorted_imp_sorted [OF assms(3)] by (rule sort_key_id_if_sorted)
  then have load: "load_all_entries ops etext de rs s' = Inr es"
    by (simp add: load_all_entries_def scan decode_rows_map [OF de])
  have "load_entry ops etext de rs s' (eindex e) = Inr (Some e)" if "e \<in> set es" for e
  proof -
    have "map_of ?R (log_key rs (eindex e)) = Some (projr (ser e))"
      using that R by (intro map_of_is_SomeI btree_ok_distinct) auto
    then have "kv_get ops s' (log_key rs (eindex e)) = Inr (Some (projr (ser e)))"
      using kv_reliable.get_eq [OF assms(1) s'(2)] by (simp add: s'(3) rev)
    with de [OF that] show ?thesis by (simp add: load_entry_def)
  qed
  moreover have "view s' k = view s k" if "\<not> starts_with k (log_prefix rs)" for k
  proof -
    have "map_of ?R k = None" using that by (auto simp: map_of_eq_None_iff)
    then show ?thesis by (simp add: s'(3) rev map_add_def)
  qed
  ultimately show ?thesis using s'(1,2) load by blast
qed

theorem raft_log_roundtrip_witness:
  "\<exists>s'. save_entries memory_ops (\<lambda>_::unit. []) (\<lambda>_. Inr [1]) \<lparr>rs_space_id = 1, rs_part_id = 1\<rparr> memory_new
          [\<lparr>eterm = 1, eindex = 1, ecommand = Noop\<rparr>] = (Inr (), s') \<and>
    load_all_entries memory_ops (\<lambda>_::unit. []) (\<lambda>_. Inr \<lparr>eterm = 1, eindex = 1, ecommand = Noop\<rparr>)
      \<lparr>rs_space_id = 1, rs_part_id = 1\<rparr> s' = Inr [\<lparr>eterm = 1, eindex = 1, ecommand = Noop\<rparr>]"
proof -
  have "memory_get memory_new k = None" for k by (simp add: memory_get_def memory_new_def)
  then show ?thesis
    using raft_log_roundtrip [OF memory.kv_reliable_axioms memory_ok_new,
        of "[\<lparr>eterm = 1, eindex = 1, ecommand = Noop\<rparr>]" "\<lambda>_. Inr [1]" "\<lambda>_. Inr \<lparr>eterm = 1, eindex = 1, ecommand = Noop\<rparr>"
          "\<lparr>rs_space_id = 1, rs_part_id = 1\<rparr>"] by force
qed

text \<open>
  \<open>delete_entries_from\<close> removes exactly the group's entries at and after the index and \<open>compact_log\<close>
  exactly those before it, returning their number; entries on the other side and every key
  outside the group's log, those of other groups included, stay.
\<close>

theorem raft_log_deletion:
  assumes "kv_reliable ops view ok" and "ok s"
  shows "\<exists>s1 s2 n. delete_entries_from ops etext rs s i = (Inr (), s1) \<and> compact_log ops etext rs s i = (Inr n, s2) \<and>
    ok s1 \<and> ok s2 \<and>
    (\<forall>j. view s1 (log_key rs j) = (if i \<le> j then None else view s (log_key rs j)) \<and>
         view s2 (log_key rs j) = (if j < i then None else view s (log_key rs j))) \<and>
    (\<forall>k. \<not> starts_with k (log_prefix rs) \<longrightarrow> view s1 k = view s k \<and> view s2 k = view s k) \<and>
    n = card {k. starts_with k (log_prefix rs) \<and> selected (log_prefix rs) (\<lambda>j. j < i) k \<and> view s k \<noteq> None}"
proof -
  obtain rows m s1 where 1: "kv_scan_prefix ops s (log_prefix rs) = Inr rows"
    "delete_indexed ops etext (log_prefix rs) (\<lambda>j. i \<le> j) s 0 rows = (Inr m, s1)" "ok s1"
    "\<forall>k. view s1 k = (if starts_with k (log_prefix rs) \<and> selected (log_prefix rs) (\<lambda>j. i \<le> j) k then None else view s k)"
    using kv_reliable.delete_scanned [OF assms, of "log_prefix rs" etext "\<lambda>j. i \<le> j"] by blast
  obtain n s2 where 2: "delete_indexed ops etext (log_prefix rs) (\<lambda>j. j < i) s 0 rows = (Inr n, s2)" "ok s2"
    "n = length (filter (\<lambda>r. selected (log_prefix rs) (\<lambda>j. j < i) (fst r)) rows)"
    "\<forall>k. view s2 k = (if starts_with k (log_prefix rs) \<and> selected (log_prefix rs) (\<lambda>j. j < i) k then None else view s k)"
    using kv_reliable.delete_scanned [OF assms, of "log_prefix rs" etext "\<lambda>j. j < i"] 1(1) by auto
  have c: "kv_contract ops view ok" using assms(1) by (simp add: kv_reliable_def)
  let ?F = "filter (\<lambda>r. selected (log_prefix rs) (\<lambda>j. j < i) (fst r)) rows"
  have "distinct (map fst rows)"
    using kv_contract.scan_view [OF c assms(2) 1(1)] by (simp add: rows_of_def btree_ok_distinct)
  then have "card (fst ` set ?F) = length ?F"
    using distinct_card [OF distinct_map_filter [of fst rows "\<lambda>r. selected (log_prefix rs) (\<lambda>j. j < i) (fst r)"]] by simp
  moreover have "fst ` set ?F = {k. starts_with k (log_prefix rs) \<and> selected (log_prefix rs) (\<lambda>j. j < i) k \<and> view s k \<noteq> None}"
    (is "_ = ?K")
  proof -
    have "fst ` set ?F = {k \<in> fst ` set rows. selected (log_prefix rs) (\<lambda>j. j < i) k}" by auto
    also have "\<dots> = ?K" using kv_contract.scan_keys [OF c assms(2) 1(1)] by blast
    finally show ?thesis .
  qed
  ultimately have "n = card {k. starts_with k (log_prefix rs) \<and> selected (log_prefix rs) (\<lambda>j. j < i) k \<and> view s k \<noteq> None}"
    using 2(3) by simp
  with 1 2 show ?thesis by (auto simp: delete_entries_from_def compact_log_def)
qed

theorem raft_log_deletion_witness:
  "\<exists>s1. delete_entries_from memory_ops (\<lambda>_::unit. []) \<lparr>rs_space_id = 1, rs_part_id = 1\<rparr> memory_new 4 = (Inr (), s1) \<and>
    memory_ok s1"
  using raft_log_deletion [OF memory.kv_reliable_axioms memory_ok_new, of "\<lambda>_::unit. []" "\<lparr>rs_space_id = 1, rs_part_id = 1\<rparr>" 4]
  by blast

end
