(* ===== verification/Snapshot.thy ===== *)
theory Snapshot
  imports RaftStorage
begin

text \<open>
  Snapshots of a Raft group (\<^verbatim>\<open>byoridb-storage/src/raft/snapshot.rs\<close>): the writer that cuts the data into
  chunks of 64 KiB, the reader that puts them together and parses the key-value pairs, and the installer
  that collects the chunks a leader sends. The store is threaded as in \<open>RaftStorage\<close>; \<open>now\<close> is the wall
  clock in seconds since the epoch, and bincode is again a parameter.
\<close>

section \<open>Data\<close>

definition SNAPSHOT_META_PREFIX :: bytes where
  "SNAPSHOT_META_PREFIX = ascii ''raft:snapshot:meta:''"

definition SNAPSHOT_DATA_PREFIX :: bytes where
  "SNAPSHOT_DATA_PREFIX = ascii ''raft:snapshot:data:''"

record snapshot_meta =
  sm_last_included_index :: log_index
  sm_last_included_term :: raft_term
  sm_size :: u64
  sm_chunk_count :: u32
  sm_created_at :: u64

record snapshot_chunk =
  sc_index :: u32
  sc_offset :: u64
  sc_data :: bytes
  sc_is_last :: bool

datatype snapshot_error =
    SnapStorage bytes
  | SnapSerialization bytes
  | SnapDeserialization bytes
  | SnapCorruption bytes
  | SnapInvalidChunk bytes
  | SnapInvalidState bytes

record snapshot_writer =
  sw_space_id :: u32
  sw_part_id :: u32
  sw_last_included_index :: log_index
  sw_last_included_term :: raft_term
  sw_data :: bytes
  sw_chunk_size :: nat

record snapshot_reader =
  sr_space_id :: u32
  sr_part_id :: u32

record snapshot_installer =
  si_space_id :: u32
  si_part_id :: u32
  si_pending_meta :: "snapshot_meta option"
  si_pending_chunks :: "bytes option list"
  si_received_chunks :: u32

definition snapshot_meta_key :: "u32 \<Rightarrow> u32 \<Rightarrow> bytes" where
  "snapshot_meta_key space_id part_id = SNAPSHOT_META_PREFIX @ u32_to_be space_id @ u32_to_be part_id"

definition snapshot_chunk_key :: "u32 \<Rightarrow> u32 \<Rightarrow> u32 \<Rightarrow> bytes" where
  "snapshot_chunk_key space_id part_id chunk_index =
     SNAPSHOT_DATA_PREFIX @ u32_to_be space_id @ u32_to_be part_id @ [58] @ u32_to_be chunk_index"

text \<open>\<open>u64::div_ceil\<close>.\<close>

definition u64_div_ceil :: "u64 \<Rightarrow> u64 \<Rightarrow> u64" where
  "u64_div_ceil a b = (if a mod b = 0 then a div b else a div b + 1)"

section \<open>Writer\<close>

definition snapshot_writer_new :: "u32 \<Rightarrow> u32 \<Rightarrow> log_index \<Rightarrow> raft_term \<Rightarrow> snapshot_writer" where
  "snapshot_writer_new space_id part_id index trm =
     \<lparr>sw_space_id = space_id, sw_part_id = part_id, sw_last_included_index = index,
      sw_last_included_term = trm, sw_data = [], sw_chunk_size = 64 * 1024\<rparr>"

definition snapshot_write :: "bytes \<Rightarrow> snapshot_writer \<Rightarrow> snapshot_writer" where
  "snapshot_write d w = w\<lparr>sw_data := sw_data w @ d\<rparr>"

definition write_kv :: "bytes \<Rightarrow> bytes \<Rightarrow> snapshot_writer \<Rightarrow> snapshot_writer" where
  "write_kv key v w =
     w\<lparr>sw_data := (((sw_data w @ u32_to_le (of_nat (length key))) @ key) @ u32_to_le (of_nat (length v))) @ v\<rparr>"

definition snapshot_put ::
  "('s, 'e) kvstore \<Rightarrow> ('e \<Rightarrow> bytes) \<Rightarrow> 's \<Rightarrow> bytes \<Rightarrow> bytes + bytes \<Rightarrow> (snapshot_error + unit) \<times> 's" where
  "snapshot_put ops etext s key data =
     (case data of
        Inl e \<Rightarrow> (Inl (SnapSerialization e), s)
      | Inr b \<Rightarrow> (case kv_put ops s key b of
                    (Inl e, s') \<Rightarrow> (Inl (SnapStorage (etext e)), s')
                  | (Inr _, s') \<Rightarrow> (Inr (), s')))"

definition chunk_at :: "snapshot_writer \<Rightarrow> u32 \<Rightarrow> nat \<Rightarrow> bytes \<Rightarrow> snapshot_chunk" where
  "chunk_at w chunk_count i chunk_data =
     \<lparr>sc_index = of_nat i, sc_offset = of_nat (i * sw_chunk_size w), sc_data = chunk_data,
      sc_is_last = (of_nat i = chunk_count - 1)\<rparr>"

fun save_chunks ::
  "('s, 'e) kvstore \<Rightarrow> ('e \<Rightarrow> bytes) \<Rightarrow> snapshot_chunk serializer \<Rightarrow> snapshot_writer \<Rightarrow> u32 \<Rightarrow> 's \<Rightarrow> nat \<Rightarrow>
   bytes list \<Rightarrow> (snapshot_error + unit) \<times> 's" where
  "save_chunks ops etext ser w chunk_count s i [] = (Inr (), s)"
| "save_chunks ops etext ser w chunk_count s i (chunk_data # rest) =
     (case snapshot_put ops etext s (snapshot_chunk_key (sw_space_id w) (sw_part_id w) (of_nat i))
             (ser (chunk_at w chunk_count i chunk_data)) of
        (Inl e, s') \<Rightarrow> (Inl e, s')
      | (Inr _, s') \<Rightarrow> save_chunks ops etext ser w chunk_count s' (Suc i) rest)"

definition snapshot_finish ::
  "('s, 'e) kvstore \<Rightarrow> ('e \<Rightarrow> bytes) \<Rightarrow> snapshot_chunk serializer \<Rightarrow> snapshot_meta serializer \<Rightarrow> u64 \<Rightarrow> 's \<Rightarrow>
   snapshot_writer \<Rightarrow> (snapshot_error + snapshot_meta) \<times> 's" where
  "snapshot_finish ops etext ser_chunk ser_meta now s w =
     (let size = of_nat (length (sw_data w));
          chunk_count = ucast (u64_div_ceil size (of_nat (sw_chunk_size w)));
          meta = \<lparr>sm_last_included_index = sw_last_included_index w,
                  sm_last_included_term = sw_last_included_term w,
                  sm_size = size, sm_chunk_count = chunk_count, sm_created_at = now\<rparr>
      in case save_chunks ops etext ser_chunk w chunk_count s 0 (chunks (sw_chunk_size w) (sw_data w)) of
           (Inl e, s') \<Rightarrow> (Inl e, s')
         | (Inr _, s') \<Rightarrow>
            (case snapshot_put ops etext s' (snapshot_meta_key (sw_space_id w) (sw_part_id w)) (ser_meta meta) of
               (Inl e, s'') \<Rightarrow> (Inl e, s'')
             | (Inr _, s'') \<Rightarrow> (Inr meta, s'')))"

section \<open>Reader\<close>

definition load_meta ::
  "('s, 'e) kvstore \<Rightarrow> ('e \<Rightarrow> bytes) \<Rightarrow> snapshot_meta deserializer \<Rightarrow> snapshot_reader \<Rightarrow> 's \<Rightarrow>
   snapshot_error + snapshot_meta option" where
  "load_meta ops etext de rd s =
     (case kv_get ops s (snapshot_meta_key (sr_space_id rd) (sr_part_id rd)) of
        Inr (Some data) \<Rightarrow> (case de data of Inl e \<Rightarrow> Inl (SnapDeserialization e) | Inr m \<Rightarrow> Inr (Some m))
      | Inr None \<Rightarrow> Inr None
      | Inl e \<Rightarrow> Inl (SnapStorage (etext e)))"

definition load_chunk ::
  "('s, 'e) kvstore \<Rightarrow> ('e \<Rightarrow> bytes) \<Rightarrow> snapshot_chunk deserializer \<Rightarrow> snapshot_reader \<Rightarrow> 's \<Rightarrow> u32 \<Rightarrow>
   snapshot_error + snapshot_chunk option" where
  "load_chunk ops etext de rd s index =
     (case kv_get ops s (snapshot_chunk_key (sr_space_id rd) (sr_part_id rd) index) of
        Inr (Some data) \<Rightarrow> (case de data of Inl e \<Rightarrow> Inl (SnapDeserialization e) | Inr c \<Rightarrow> Inr (Some c))
      | Inr None \<Rightarrow> Inr None
      | Inl e \<Rightarrow> Inl (SnapStorage (etext e)))"

fun load_chunks ::
  "('s, 'e) kvstore \<Rightarrow> ('e \<Rightarrow> bytes) \<Rightarrow> snapshot_chunk deserializer \<Rightarrow> snapshot_reader \<Rightarrow> 's \<Rightarrow> nat list \<Rightarrow> bytes \<Rightarrow>
   snapshot_error + bytes" where
  "load_chunks ops etext de rd s [] data = Inr data"
| "load_chunks ops etext de rd s (i # is) data =
     (case load_chunk ops etext de rd s (of_nat i) of
        Inl e \<Rightarrow> Inl e
      | Inr None \<Rightarrow> Inl (SnapCorruption (ascii ''Missing chunk '' @ dec_nat i))
      | Inr (Some c) \<Rightarrow> load_chunks ops etext de rd s is (data @ sc_data c))"

definition load_all_data ::
  "('s, 'e) kvstore \<Rightarrow> ('e \<Rightarrow> bytes) \<Rightarrow> snapshot_chunk deserializer \<Rightarrow> snapshot_meta deserializer \<Rightarrow> snapshot_reader \<Rightarrow> 's \<Rightarrow>
   snapshot_error + bytes option" where
  "load_all_data ops etext de_chunk de_meta rd s =
     (case load_meta ops etext de_meta rd s of
        Inl e \<Rightarrow> Inl e
      | Inr None \<Rightarrow> Inr None
      | Inr (Some meta) \<Rightarrow>
         (case load_chunks ops etext de_chunk rd s [0..<unat (sm_chunk_count meta)] [] of
            Inl e \<Rightarrow> Inl e
          | Inr data \<Rightarrow> Inr (Some data)))"

text \<open>The parsing loop of \<open>iter_kvs\<close>.\<close>

function parse_kvs :: "bytes \<Rightarrow> nat \<Rightarrow> rows \<Rightarrow> snapshot_error + rows" where
  "parse_kvs data offset kvs =
     (if offset + 8 \<le> length data
      then let key_len = unat (u32_from_le (take 4 (drop offset data))); offset = offset + 4
           in if length data < offset + key_len then Inl (SnapCorruption (ascii ''Truncated key''))
              else let key = take key_len (drop offset data); offset = offset + key_len
                   in if length data < offset + 4 then Inl (SnapCorruption (ascii ''Truncated value length''))
                      else let value_len = unat (u32_from_le (take 4 (drop offset data))); offset = offset + 4
                           in if length data < offset + value_len then Inl (SnapCorruption (ascii ''Truncated value''))
                              else parse_kvs data (offset + value_len) (kvs @ [(key, take value_len (drop offset data))])
      else Inr kvs)"
  by pat_completeness auto
termination
  by (relation "measure (\<lambda>(data, offset, kvs). length data - offset)") auto

declare parse_kvs.simps [simp del]

definition iter_kvs ::
  "('s, 'e) kvstore \<Rightarrow> ('e \<Rightarrow> bytes) \<Rightarrow> snapshot_chunk deserializer \<Rightarrow> snapshot_meta deserializer \<Rightarrow> snapshot_reader \<Rightarrow> 's \<Rightarrow>
   snapshot_error + rows" where
  "iter_kvs ops etext de_chunk de_meta rd s =
     (case load_all_data ops etext de_chunk de_meta rd s of
        Inl e \<Rightarrow> Inl e
      | Inr None \<Rightarrow> Inr []
      | Inr (Some data) \<Rightarrow> parse_kvs data 0 [])"

section \<open>Installer\<close>

definition snapshot_installer_new :: "u32 \<Rightarrow> u32 \<Rightarrow> snapshot_installer" where
  "snapshot_installer_new space_id part_id =
     \<lparr>si_space_id = space_id, si_part_id = part_id, si_pending_meta = None, si_pending_chunks = [],
      si_received_chunks = 0\<rparr>"

definition begin_install :: "log_index \<Rightarrow> raft_term \<Rightarrow> u64 \<Rightarrow> u64 \<Rightarrow> snapshot_installer \<Rightarrow> snapshot_installer" where
  "begin_install index trm total_size now si =
     (let chunk_count = ucast (u64_div_ceil total_size (64 * 1024))
      in si\<lparr>si_pending_meta := Some \<lparr>sm_last_included_index = index, sm_last_included_term = trm, sm_size = total_size,
                                     sm_chunk_count = chunk_count, sm_created_at = now\<rparr>,
            si_pending_chunks := replicate (unat chunk_count) None,
            si_received_chunks := 0\<rparr>)"

definition receive_chunk ::
  "u64 \<Rightarrow> bytes \<Rightarrow> bool \<Rightarrow> snapshot_installer \<Rightarrow> (snapshot_error + bool) \<times> snapshot_installer" where
  "receive_chunk offset data done_flag si =
     (let chunk_index = unat (offset div (64 * 1024))
      in if length (si_pending_chunks si) \<le> chunk_index
         then (Inl (SnapInvalidChunk (ascii ''Chunk index '' @ dec_nat chunk_index @ ascii '' out of range'')), si)
         else let si = (if si_pending_chunks si ! chunk_index = None
                        then si\<lparr>si_pending_chunks := (si_pending_chunks si)[chunk_index := Some data],
                                si_received_chunks := si_received_chunks si + 1\<rparr>
                        else si)
              in (Inr (done_flag \<and> of_nat (length (si_pending_chunks si)) \<le> si_received_chunks si), si))"

fun combine_chunks :: "nat \<Rightarrow> bytes option list \<Rightarrow> bytes \<Rightarrow> snapshot_error + bytes" where
  "combine_chunks i [] data = Inr data"
| "combine_chunks i (None # cs) data = Inl (SnapInvalidChunk (ascii ''Missing chunk '' @ dec_nat i))"
| "combine_chunks i (Some c # cs) data = combine_chunks (Suc i) cs (data @ c)"

definition install_snapshot_data ::
  "('s, 'e) kvstore \<Rightarrow> ('e \<Rightarrow> bytes) \<Rightarrow> snapshot_chunk serializer \<Rightarrow> snapshot_meta serializer \<Rightarrow> u64 \<Rightarrow> 's \<Rightarrow>
   snapshot_installer \<Rightarrow> (snapshot_error + snapshot_meta) \<times> snapshot_installer \<times> 's" where
  "install_snapshot_data ops etext ser_chunk ser_meta now s si =
     (case si_pending_meta si of
        None \<Rightarrow> (Inl (SnapInvalidState (ascii ''No pending snapshot'')), si, s)
      | Some meta \<Rightarrow>
         (let si' = si\<lparr>si_pending_meta := None, si_pending_chunks := []\<rparr>
          in case combine_chunks 0 (si_pending_chunks si) [] of
               Inl e \<Rightarrow> (Inl e, si', s)
             | Inr data \<Rightarrow>
                (let w = snapshot_write data
                           (snapshot_writer_new (si_space_id si) (si_part_id si) (sm_last_included_index meta)
                              (sm_last_included_term meta))
                 in case snapshot_finish ops etext ser_chunk ser_meta now s w of
                      (Inl e, s') \<Rightarrow> (Inl e, si', s')
                    | (Inr saved, s') \<Rightarrow> (Inr saved, si'\<lparr>si_received_chunks := 0\<rparr>, s'))))"

definition cancel_install :: "snapshot_installer \<Rightarrow> snapshot_installer" where
  "cancel_install si = si\<lparr>si_pending_meta := None, si_pending_chunks := [], si_received_chunks := 0\<rparr>"

section \<open>Keys and chunk counts: lemmas\<close>

lemma snapshot_chunk_key_inject [simp]:
  "snapshot_chunk_key a b i = snapshot_chunk_key a b j \<longleftrightarrow> i = j"
  by (simp add: snapshot_chunk_key_def)

lemma snapshot_meta_key_not_chunk [simp]: "snapshot_meta_key a b \<noteq> snapshot_chunk_key c d i"
  by (simp add: snapshot_meta_key_def snapshot_chunk_key_def SNAPSHOT_META_PREFIX_def SNAPSHOT_DATA_PREFIX_def ascii_def)

lemma u32_of_nat_inject:
  "a < 4294967296 \<Longrightarrow> b < 4294967296 \<Longrightarrow> (of_nat a :: u32) = of_nat b \<longleftrightarrow> a = b"
  by (simp add: word_unat_eq_iff unat_of_nat)

lemma nat_div_ceil: "(n + 65535) div 65536 = (if n mod 65536 = 0 then n div 65536 else n div 65536 + 1)" for n :: nat
proof -
  define q r where "q = n div 65536" and "r = n mod 65536"
  then have "n = q * 65536 + r" and "r < 65536" by simp_all
  then show ?thesis unfolding q_def [symmetric] r_def [symmetric] by (auto intro!: div_nat_eqI)
qed

lemma chunk_count_eq:
  assumes "length d \<le> 65536 * 4294967295"
  shows "unat (ucast (u64_div_ceil (of_nat (length d)) (64 * 1024)) :: u32) = length (chunks (64 * 1024) d)"
proof -
  let ?n = "length d" and ?size = "of_nat (length d) :: u64"
  have n: "unat ?size = ?n" using assms by (intro unat_u64_of_nat) simp
  have q: "?n div 65536 \<le> 4294967295" using assms by simp
  have "unat (u64_div_ceil ?size 65536) = (?n + 65535) div 65536"
  proof (cases "?n mod 65536 = 0")
    case True
    then have "?size mod 65536 = 0" by (simp add: word_unat_eq_iff unat_mod n)
    with True show ?thesis by (simp add: u64_div_ceil_def unat_div n nat_div_ceil)
  next
    case False
    then have "?size mod 65536 \<noteq> 0" by (simp add: word_unat_eq_iff unat_mod n)
    moreover have "unat (?size div 65536 + 1) = ?n div 65536 + 1"
      using q by (subst unat_u64_Suc) (simp_all add: unat_div n)
    ultimately show ?thesis using False by (simp add: u64_div_ceil_def nat_div_ceil)
  qed
  moreover have "(?n + 65535) div 65536 < 4294967296" using assms by simp
  ultimately show ?thesis by (simp add: unsigned_ucast_eq length_chunks take_bit_nat_eq_self)
qed

lemma chunk_offset:
  assumes "length d \<le> 65536 * 4294967295" and "i < length (chunks (64 * 1024) d)"
  shows "unat ((of_nat (i * 65536) :: u64) div (64 * 1024)) = i"
proof -
  have "i * 65536 < length d + 65536" using assms(2) by (simp add: length_chunks)
  then have "unat (of_nat (i * 65536) :: u64) = i * 65536"
    using assms(1) by (intro unat_u64_of_nat) simp
  then show ?thesis by (simp add: unat_div)
qed

section \<open>Writing and reading chunks: lemmas\<close>

lemma load_chunks_found:
  assumes "\<And>i. i \<in> set is \<Longrightarrow> load_chunk ops etext de rd s (of_nat i) = Inr (Some (c i))"
  shows "load_chunks ops etext de rd s is data = Inr (data @ concat (map (\<lambda>i. sc_data (c i)) is))"
  using assms by (induction "is" arbitrary: data) auto

context kv_reliable
begin

lemma snapshot_put_total:
  assumes "wf s"
  shows "\<exists>s'. snapshot_put ops etext s k (Inr b) = (Inr (), s') \<and> wf s' \<and> view s' = (view s)(k \<mapsto> b)"
  using put_eq [OF assms, of k b] by (auto simp: snapshot_put_def)

lemma save_chunks_total:
  assumes "wf s" and "\<And>c. length (sc_data c) \<le> m \<Longrightarrow> \<exists>b. ser c = Inr b"
    and "\<And>d. d \<in> set cs \<Longrightarrow> length d \<le> m" and "i + length cs \<le> 4294967296"
  shows "\<exists>s'. save_chunks ops etext ser w cc s i cs = (Inr (), s') \<and> wf s' \<and>
    (\<forall>j < length cs. view s' (snapshot_chunk_key (sw_space_id w) (sw_part_id w) (of_nat (i + j))) =
       Some (projr (ser (chunk_at w cc (i + j) (cs ! j))))) \<and>
    (\<forall>k. (\<forall>j < length cs. k \<noteq> snapshot_chunk_key (sw_space_id w) (sw_part_id w) (of_nat (i + j))) \<longrightarrow>
       view s' k = view s k)"
  using assms(1,3,4)
proof (induction cs arbitrary: s i)
  case (Cons d cs)
  let ?key = "\<lambda>n. snapshot_chunk_key (sw_space_id w) (sw_part_id w) (of_nat n)"
  obtain b where b: "ser (chunk_at w cc i d) = Inr b"
    using assms(2) [of "chunk_at w cc i d"] Cons.prems(2) [of d] by (auto simp: chunk_at_def)
  obtain s1 where s1: "snapshot_put ops etext s (?key i) (ser (chunk_at w cc i d)) = (Inr (), s1)" "wf s1"
    "view s1 = (view s)(?key i \<mapsto> b)"
    using snapshot_put_total [OF Cons.prems(1), of etext "?key i" b] b by auto
  have "\<exists>s'. save_chunks ops etext ser w cc s1 (Suc i) cs = (Inr (), s') \<and> wf s' \<and>
    (\<forall>j < length cs. view s' (?key (Suc i + j)) = Some (projr (ser (chunk_at w cc (Suc i + j) (cs ! j))))) \<and>
    (\<forall>k. (\<forall>j < length cs. k \<noteq> ?key (Suc i + j)) \<longrightarrow> view s' k = view s1 k)"
    by (rule Cons.IH [OF s1(2)]) (use Cons.prems(2,3) in auto)
  then obtain s' where s': "save_chunks ops etext ser w cc s1 (Suc i) cs = (Inr (), s')" "wf s'"
    "\<forall>j < length cs. view s' (?key (Suc i + j)) = Some (projr (ser (chunk_at w cc (Suc i + j) (cs ! j))))"
    "\<forall>k. (\<forall>j < length cs. k \<noteq> ?key (Suc i + j)) \<longrightarrow> view s' k = view s1 k" by blast
  have "?key i \<noteq> ?key (Suc i + j)" if "j < length cs" for j
    using that Cons.prems(3) u32_of_nat_inject [of i "Suc i + j"] by simp
  then have head: "view s' (?key i) = Some b" using s'(4) s1(3) by simp
  have "view s' (?key (i + j)) = Some (projr (ser (chunk_at w cc (i + j) ((d # cs) ! j))))" if "j < length (d # cs)" for j
    using that head b s'(3) by (cases j) auto
  moreover have "view s' k = view s k" if "\<forall>j < length (d # cs). k \<noteq> ?key (i + j)" for k
  proof -
    have "k \<noteq> ?key i" using that [rule_format, of 0] by simp
    moreover have "k \<noteq> ?key (Suc i + j)" if "j < length cs" for j
      using \<open>\<forall>j < length (d # cs). k \<noteq> ?key (i + j)\<close> [rule_format, of "Suc j"] that by simp
    ultimately show ?thesis using s'(4) s1(3) by simp
  qed
  ultimately show ?case using s1(1) s'(1,2) by auto
qed simp

lemma snapshot_finish_total:
  fixes w :: snapshot_writer
  defines "cs \<equiv> chunks (64 * 1024) (sw_data w)"
  assumes "wf s" and "sw_chunk_size w = 64 * 1024" and "length (sw_data w) \<le> 65536 * 4294967295"
    and "\<And>c. length (sc_data c) \<le> 65536 \<Longrightarrow> \<exists>b. ser_chunk c = Inr b \<and> de_chunk b = Inr c"
    and "\<And>m. \<exists>b. ser_meta m = Inr b \<and> de_meta b = Inr m"
  shows "\<exists>meta s'. snapshot_finish ops etext ser_chunk ser_meta now s w = (Inr meta, s') \<and> wf s' \<and>
    sm_last_included_index meta = sw_last_included_index w \<and> sm_last_included_term meta = sw_last_included_term w \<and>
    unat (sm_chunk_count meta) = length cs \<and> unat (sm_size meta) = length (sw_data w) \<and>
    load_all_data ops etext de_chunk de_meta \<lparr>sr_space_id = sw_space_id w, sr_part_id = sw_part_id w\<rparr> s' =
      Inr (Some (sw_data w))"
proof -
  let ?rd = "\<lparr>sr_space_id = sw_space_id w, sr_part_id = sw_part_id w\<rparr>"
  let ?mk = "snapshot_meta_key (sw_space_id w) (sw_part_id w)"
  let ?ck = "\<lambda>n. snapshot_chunk_key (sw_space_id w) (sw_part_id w) (of_nat n)"
  define cc :: u32 where "cc = ucast (u64_div_ceil (of_nat (length (sw_data w))) (64 * 1024))"
  define meta where "meta = \<lparr>sm_last_included_index = sw_last_included_index w, sm_last_included_term = sw_last_included_term w,
    sm_size = of_nat (length (sw_data w)), sm_chunk_count = cc, sm_created_at = now\<rparr>"
  have cc: "unat cc = length cs" unfolding cc_def cs_def by (rule chunk_count_eq [OF assms(4)])
  have len: "length d \<le> 65536" if "d \<in> set cs" for d
    using that by (auto simp: cs_def in_set_conv_nth nth_chunks)
  have ser: "\<exists>b. ser_chunk c = Inr b" if "length (sc_data c) \<le> 65536" for c
    using assms(5) [OF that] by blast
  have "0 + length cs \<le> 4294967296" using unat_u32_bound [of cc] by (simp add: cc)
  from save_chunks_total [where ser = ser_chunk and etext = etext and w = w and cc = cc, OF assms(2) ser len this]
  obtain s1 where s1: "save_chunks ops etext ser_chunk w cc s 0 cs = (Inr (), s1)" "wf s1"
    "\<forall>j < length cs. view s1 (?ck j) = Some (projr (ser_chunk (chunk_at w cc j (cs ! j))))"
    by auto
  obtain b where b: "ser_meta meta = Inr b" "de_meta b = Inr meta" using assms(6) by blast
  obtain s' where s': "snapshot_put ops etext s1 ?mk (Inr b) = (Inr (), s')" "wf s'" "view s' = (view s1)(?mk \<mapsto> b)"
    using snapshot_put_total [OF s1(2)] by blast
  have fin: "snapshot_finish ops etext ser_chunk ser_meta now s w = (Inr meta, s')"
    using s1(1) s'(1) b(1) by (simp add: snapshot_finish_def assms(3) cs_def cc_def meta_def Let_def)
  have m: "load_meta ops etext de_meta ?rd s' = Inr (Some meta)"
    using get_eq [OF s'(2), of ?mk] s'(3) b(2) by (simp add: load_meta_def)
  have "load_chunk ops etext de_chunk ?rd s' (of_nat i) = Inr (Some (chunk_at w cc i (cs ! i)))"
    if "i \<in> set [0..<length cs]" for i
  proof -
    have "length (cs ! i) \<le> 65536" using that by (auto simp: cs_def nth_chunks)
    then obtain b' where "ser_chunk (chunk_at w cc i (cs ! i)) = Inr b'" "de_chunk b' = Inr (chunk_at w cc i (cs ! i))"
      using assms(5) [of "chunk_at w cc i (cs ! i)"] by (auto simp: chunk_at_def)
    then show ?thesis using that s1(3) get_eq [OF s'(2), of "?ck i"] s'(3)
      by (simp add: load_chunk_def snapshot_meta_key_not_chunk [symmetric] del: snapshot_meta_key_not_chunk)
  qed
  then have "load_chunks ops etext de_chunk ?rd s' [0..<length cs] [] = Inr (concat (map (\<lambda>i. cs ! i) [0..<length cs]))"
    by (subst load_chunks_found) (auto simp: chunk_at_def)
  then have "load_all_data ops etext de_chunk de_meta ?rd s' = Inr (Some (sw_data w))"
    using m by (simp add: load_all_data_def meta_def cc map_nth) (simp add: cs_def concat_chunks)
  moreover have "unat (sm_size meta) = length (sw_data w)"
    using assms(4) by (simp add: meta_def unat_u64_of_nat)
  ultimately show ?thesis using fin s'(2) cc by (auto simp: meta_def)
qed

end

section \<open>Key-value pairs: lemmas\<close>

definition encode_kv :: "bytes \<times> bytes \<Rightarrow> bytes" where
  "encode_kv kv = u32_to_le (of_nat (length (fst kv))) @ fst kv @ u32_to_le (of_nat (length (snd kv))) @ snd kv"

definition kv_fits :: "bytes \<times> bytes \<Rightarrow> bool" where
  "kv_fits kv \<longleftrightarrow> length (fst kv) < 4294967296 \<and> length (snd kv) < 4294967296"

lemma sw_data_write_kvs:
  "sw_data (fold (\<lambda>kv. write_kv (fst kv) (snd kv)) kvs w) = sw_data w @ concat (map encode_kv kvs)"
  by (induction kvs arbitrary: w) (auto simp: write_kv_def encode_kv_def)

lemma write_kvs_same:
  "(fold (\<lambda>kv. write_kv (fst kv) (snd kv)) kvs w)\<lparr>sw_data := d\<rparr> = w\<lparr>sw_data := d\<rparr>"
  by (induction kvs arbitrary: w) (auto simp: write_kv_def)

lemma parse_kvs_step:
  assumes "kv_fits kv"
  shows "parse_kvs (pre @ encode_kv kv @ rest) (length pre) acc =
    parse_kvs (pre @ encode_kv kv @ rest) (length (pre @ encode_kv kv)) (acc @ [kv])"
proof -
  have l: "unat (of_nat (length (fst kv)) :: u32) = length (fst kv)" "unat (of_nat (length (snd kv)) :: u32) = length (snd kv)"
    using assms by (simp_all add: kv_fits_def unat_of_nat)
  show ?thesis
    by (subst parse_kvs.simps) (simp add: encode_kv_def l Let_def add.assoc add.left_commute)
qed

lemma parse_kvs_encoded:
  assumes "\<And>kv. kv \<in> set kvs \<Longrightarrow> kv_fits kv"
  shows "parse_kvs (pre @ concat (map encode_kv kvs)) (length pre) acc = Inr (acc @ kvs)"
  using assms
proof (induction kvs arbitrary: pre acc)
  case Nil
  then show ?case by (simp add: parse_kvs.simps)
next
  case (Cons kv kvs)
  then show ?case
    using parse_kvs_step [of kv pre "concat (map encode_kv kvs)" acc] Cons.IH [of "pre @ encode_kv kv" "acc @ [kv]"] by simp
qed

section \<open>Receiving chunks: lemmas\<close>

text \<open>The chunks received so far are chunks of \<open>d\<close> at their own positions, and their number is right.\<close>

definition receiving :: "bytes \<Rightarrow> snapshot_installer \<Rightarrow> bool" where
  "receiving d si \<longleftrightarrow>
     length (si_pending_chunks si) = length (chunks (64 * 1024) d) \<and>
     (\<forall>i < length (si_pending_chunks si). si_pending_chunks si ! i \<in> {None, Some (chunks (64 * 1024) d ! i)}) \<and>
     unat (si_received_chunks si) = card {i. i < length (si_pending_chunks si) \<and> si_pending_chunks si ! i \<noteq> None}"

lemma receiving_begin:
  assumes "length d \<le> 65536 * 4294967295"
  shows "receiving d (begin_install index trm (of_nat (length d)) now si)"
  using chunk_count_eq [OF assms] by (auto simp: receiving_def begin_install_def Let_def)

lemma card_update_None:
  assumes "i < length xs" and "xs ! i = None"
  shows "card {j. j < length xs \<and> xs[i := Some x] ! j \<noteq> None} = Suc (card {j. j < length xs \<and> xs ! j \<noteq> None})"
proof -
  have "{j. j < length xs \<and> xs[i := Some x] ! j \<noteq> None} = insert i {j. j < length xs \<and> xs ! j \<noteq> None}"
    using assms by (auto simp: nth_list_update)
  with assms(2) show ?thesis by simp
qed

lemma card_full: "K \<subseteq> {..<n} \<Longrightarrow> n \<le> card K \<longleftrightarrow> K = {..<n}"
  using card_seteq [of "{..<n}" K] by auto

lemma filled_iff:
  assumes "length p = length c" and "\<And>i. i < length p \<Longrightarrow> p ! i \<in> {None, Some (c ! i)}"
  shows "{i. i < length p \<and> p ! i \<noteq> None} = {..<length p} \<longleftrightarrow> p = map Some c"
proof
  assume *: "{i. i < length p \<and> p ! i \<noteq> None} = {..<length p}"
  have "p ! i = Some (c ! i)" if "i < length p" for i
  proof -
    from * that have "p ! i \<noteq> None" by (auto simp: set_eq_iff)
    with assms(2) [OF that] show ?thesis by auto
  qed
  with assms(1) show "p = map Some c" by (intro nth_equalityI) auto
qed auto

lemma all_received:
  assumes "receiving d si"
  shows "length (si_pending_chunks si) \<le> unat (si_received_chunks si) \<longleftrightarrow> si_pending_chunks si = map Some (chunks (64 * 1024) d)"
proof -
  let ?p = "si_pending_chunks si" and ?K = "{i. i < length (si_pending_chunks si) \<and> si_pending_chunks si ! i \<noteq> None}"
  have "length ?p \<le> card ?K \<longleftrightarrow> ?K = {..<length ?p}" by (rule card_full) auto
  also have "\<dots> \<longleftrightarrow> ?p = map Some (chunks (64 * 1024) d)"
    using assms unfolding receiving_def by (intro filled_iff) blast+
  finally show ?thesis using assms by (simp add: receiving_def)
qed

lemma receive_chunk_step:
  assumes d: "length d \<le> 65536 * 4294967295" and "receiving d si" and i: "i < length (chunks (64 * 1024) d)"
  obtains r si' where "receive_chunk (of_nat (i * 65536)) (chunks (64 * 1024) d ! i) dn si = (Inr r, si')"
    and "receiving d si'" and "si_pending_chunks si' = (si_pending_chunks si)[i := Some (chunks (64 * 1024) d ! i)]"
    and "r \<longleftrightarrow> dn \<and> si_pending_chunks si' = map Some (chunks (64 * 1024) d)"
    and "si_pending_meta si' = si_pending_meta si" and "si_space_id si' = si_space_id si" and "si_part_id si' = si_part_id si"
proof -
  let ?c = "chunks (64 * 1024) d" and ?p = "si_pending_chunks si"
  define si' where "si' = (if ?p ! i = None then si\<lparr>si_pending_chunks := ?p[i := Some (?c ! i)],
    si_received_chunks := si_received_chunks si + 1\<rparr> else si)"
  have len: "length ?p = length ?c" and at: "?p ! i \<in> {None, Some (?c ! i)}"
    and cnt: "unat (si_received_chunks si) = card {j. j < length ?p \<and> ?p ! j \<noteq> None}"
    using assms(2) i by (auto simp: receiving_def)
  have same: "?p[i := Some (?c ! i)] = ?p" if "?p ! i \<noteq> None"
    using at that list_update_id [of ?p i] by auto
  then have p': "si_pending_chunks si' = ?p[i := Some (?c ! i)]" by (simp add: si'_def)
  have c: "length ?c < 4294967296"
    using chunk_count_eq [OF d] unat_u32_bound [of "ucast (u64_div_ceil (of_nat (length d)) (64 * 1024))"] by simp
  have "unat (si_received_chunks si') = card {j. j < length ?p \<and> ?p[i := Some (?c ! i)] ! j \<noteq> None}"
  proof (cases "?p ! i = None")
    case True
    have "card {j. j < length ?p \<and> ?p[i := Some (?c ! i)] ! j \<noteq> None} \<le> card {..<length ?p}"
      by (intro card_mono) auto
    then have "unat (si_received_chunks si) + 1 < 4294967296"
      using c len cnt card_update_None [of i ?p "?c ! i"] True i by simp
    then have "unat (si_received_chunks si + 1) = unat (si_received_chunks si) + 1" by (simp add: unat_word_ariths)
    with True i len cnt card_update_None [of i ?p "?c ! i"] show ?thesis by (simp add: si'_def)
  next
    case False
    then show ?thesis using same [OF False] cnt by (simp only: si'_def if_False)
  qed
  then have rec: "receiving d si'"
    using assms(2) p' i len by (auto simp: receiving_def nth_list_update)
  have "(of_nat (length ?c) :: u32) \<le> si_received_chunks si' \<longleftrightarrow> si_pending_chunks si' = map Some ?c"
    using all_received [OF rec] c len p' by (simp add: word_le_nat_alt unat_of_nat)
  then have "of_nat (length (si_pending_chunks si')) \<le> si_received_chunks si' \<longleftrightarrow> si_pending_chunks si' = map Some ?c"
    using p' len by simp
  moreover have "\<not> length ?p \<le> i" using i len by simp
  ultimately have "receive_chunk (of_nat (i * 65536)) (?c ! i) dn si =
      (Inr (dn \<and> si_pending_chunks si' = map Some ?c), si')"
    by (simp only: receive_chunk_def Let_def chunk_offset [OF d i] si'_def if_False)
  then show ?thesis by (rule that) (use rec p' in \<open>auto simp: si'_def\<close>)
qed

text \<open>Chunks of \<open>d\<close> arriving in the order \<open>order\<close>.\<close>

definition receive_all :: "bytes \<Rightarrow> bool \<Rightarrow> nat list \<Rightarrow> snapshot_installer \<Rightarrow> snapshot_installer" where
  "receive_all d dn order si =
     fold (\<lambda>i si. snd (receive_chunk (of_nat (i * 65536)) (chunks (64 * 1024) d ! i) dn si)) order si"

lemma receive_all_receiving:
  assumes "length d \<le> 65536 * 4294967295" and "receiving d si" and "set order \<subseteq> {..<length (chunks (64 * 1024) d)}"
  shows "receiving d (receive_all d dn order si) \<and>
    si_pending_meta (receive_all d dn order si) = si_pending_meta si \<and>
    si_space_id (receive_all d dn order si) = si_space_id si \<and> si_part_id (receive_all d dn order si) = si_part_id si \<and>
    (\<forall>i < length (chunks (64 * 1024) d). i \<in> set order \<or> si_pending_chunks si ! i \<noteq> None \<longrightarrow>
       si_pending_chunks (receive_all d dn order si) ! i \<noteq> None)"
  using assms(2,3)
proof (induction order arbitrary: si)
  case Nil
  then show ?case by (simp add: receive_all_def)
next
  case (Cons i order)
  from Cons.prems(2) have i: "i < length (chunks (64 * 1024) d)" by simp
  obtain r si' where si': "receive_chunk (of_nat (i * 65536)) (chunks (64 * 1024) d ! i) dn si = (Inr r, si')"
    "receiving d si'" "si_pending_chunks si' = (si_pending_chunks si)[i := Some (chunks (64 * 1024) d ! i)]"
    "si_pending_meta si' = si_pending_meta si" "si_space_id si' = si_space_id si" "si_part_id si' = si_part_id si"
    by (rule receive_chunk_step [OF assms(1) Cons.prems(1) i])
  have all: "receive_all d dn (i # order) si = receive_all d dn order si'" using si'(1) by (simp add: receive_all_def)
  have "length (si_pending_chunks si) = length (chunks (64 * 1024) d)" using Cons.prems(1) by (simp add: receiving_def)
  then have "si_pending_chunks si' ! j \<noteq> None" if "j = i \<or> si_pending_chunks si ! j \<noteq> None" for j
    using that i si'(3) by (auto simp: nth_list_update)
  with Cons.IH [OF si'(2)] Cons.prems(2) si'(4-6) show ?case unfolding all by auto
qed

lemma receive_all_complete:
  assumes "length d \<le> 65536 * 4294967295" and "receiving d si" and "set order = {..<length (chunks (64 * 1024) d)}"
  shows "si_pending_chunks (receive_all d dn order si) = map Some (chunks (64 * 1024) d)"
proof -
  let ?p = "si_pending_chunks (receive_all d dn order si)"
  have all: "receiving d (receive_all d dn order si)" "\<forall>i < length (chunks (64 * 1024) d). ?p ! i \<noteq> None"
    using receive_all_receiving [OF assms(1,2)] assms(3) by (simp_all add: lessThan_iff)
  then have len: "length ?p = length (chunks (64 * 1024) d)" by (simp add: receiving_def)
  have "{i. i < length ?p \<and> ?p ! i \<noteq> None} = {..<length ?p}" using all(2) len by auto
  then show ?thesis
    by (rule filled_iff [THEN iffD1, rotated 2]) (use all(1) in \<open>auto simp: receiving_def\<close>)
qed

lemma combine_chunks_Some: "combine_chunks i (map Some cs) data = Inr (data @ concat cs)"
  by (induction cs arbitrary: i data) auto

text \<open>A concrete encoding of chunks and metadata, for the instances of the properties.\<close>

definition sample_ser_chunk :: "snapshot_chunk serializer" where
  "sample_ser_chunk c = Inr (u32_to_be (sc_index c) @ u64_to_be (sc_offset c) @ [if sc_is_last c then 1 else 0] @ sc_data c)"

definition sample_de_chunk :: "snapshot_chunk deserializer" where
  "sample_de_chunk b = Inr \<lparr>sc_index = u32_from_be (take 4 b), sc_offset = u64_from_be (take 8 (drop 4 b)),
     sc_data = drop 13 b, sc_is_last = (take 1 (drop 12 b) = [1])\<rparr>"

definition sample_ser_meta :: "snapshot_meta serializer" where
  "sample_ser_meta m = Inr (u64_to_be (sm_last_included_index m) @ u64_to_be (sm_last_included_term m) @
     u64_to_be (sm_size m) @ u64_to_be (sm_created_at m) @ u32_to_be (sm_chunk_count m))"

definition sample_de_meta :: "snapshot_meta deserializer" where
  "sample_de_meta b = Inr \<lparr>sm_last_included_index = u64_from_be (take 8 b), sm_last_included_term = u64_from_be (take 8 (drop 8 b)),
     sm_size = u64_from_be (take 8 (drop 16 b)), sm_chunk_count = u32_from_be (take 4 (drop 32 b)),
     sm_created_at = u64_from_be (take 8 (drop 24 b))\<rparr>"

lemma sample_chunk_ok: "\<exists>b. sample_ser_chunk c = Inr b \<and> sample_de_chunk b = Inr c"
  by (cases c) (simp add: sample_ser_chunk_def sample_de_chunk_def)

lemma sample_meta_ok: "\<exists>b. sample_ser_meta m = Inr b \<and> sample_de_meta b = Inr m"
  by (cases m) (simp add: sample_ser_meta_def sample_de_meta_def)

section \<open>Properties\<close>

text \<open>
  Key-value pairs written to a snapshot come back from the reader in the same order, whatever their
  bytes, when each key and value is shorter than 4 GiB and the chunk count fits a \<open>u32\<close>.
\<close>

theorem snapshot_kvs_roundtrip:
  fixes kvs :: rows and sp pt :: u32 and index :: log_index and trm :: raft_term
  defines "w \<equiv> fold (\<lambda>kv. write_kv (fst kv) (snd kv)) kvs (snapshot_writer_new sp pt index trm)"
  assumes "kv_reliable ops view ok" and "ok s" and "\<And>kv. kv \<in> set kvs \<Longrightarrow> kv_fits kv"
    and "length (sw_data w) \<le> 65536 * 4294967295"
    and "\<And>c. length (sc_data c) \<le> 65536 \<Longrightarrow> \<exists>b. ser_chunk c = Inr b \<and> de_chunk b = Inr c"
    and "\<And>m. \<exists>b. ser_meta m = Inr b \<and> de_meta b = Inr m"
  shows "\<exists>meta s'. snapshot_finish ops etext ser_chunk ser_meta now s w = (Inr meta, s') \<and>
    sm_last_included_index meta = index \<and> sm_last_included_term meta = trm \<and>
    iter_kvs ops etext de_chunk de_meta \<lparr>sr_space_id = sp, sr_part_id = pt\<rparr> s' = Inr kvs"
proof -
  have w: "sw_data w = concat (map encode_kv kvs)"
    by (simp add: w_def sw_data_write_kvs snapshot_writer_new_def)
  have same: "w = (snapshot_writer_new sp pt index trm)\<lparr>sw_data := sw_data w\<rparr>"
    using write_kvs_same [where kvs = kvs and w = "snapshot_writer_new sp pt index trm" and d = "sw_data w"]
    unfolding w_def [symmetric] by simp
  have f: "sw_chunk_size w = 64 * 1024" "sw_space_id w = sp" "sw_part_id w = pt"
    "sw_last_included_index w = index" "sw_last_included_term w = trm"
    by (subst same, simp add: snapshot_writer_new_def)+
  obtain meta s' where "snapshot_finish ops etext ser_chunk ser_meta now s w = (Inr meta, s')"
    "sm_last_included_index meta = index" "sm_last_included_term meta = trm"
    "load_all_data ops etext de_chunk de_meta \<lparr>sr_space_id = sp, sr_part_id = pt\<rparr> s' = Inr (Some (sw_data w))"
    using kv_reliable.snapshot_finish_total [OF assms(2,3) f(1) assms(5), of ser_chunk de_chunk ser_meta de_meta etext now]
      assms(6,7) by (auto simp: f)
  moreover have "parse_kvs (sw_data w) 0 [] = Inr kvs"
    using parse_kvs_encoded [OF assms(4), of kvs "[]" "[]"] by (simp add: w)
  ultimately show ?thesis by (auto simp: iter_kvs_def)
qed

theorem snapshot_kvs_roundtrip_witness:
  "\<exists>meta s'. snapshot_finish memory_ops (\<lambda>_::unit. []) sample_ser_chunk sample_ser_meta 17 memory_new
      (write_kv [3] [] (write_kv [1, 2] [9] (snapshot_writer_new 1 2 10 4))) = (Inr meta, s') \<and>
    iter_kvs memory_ops (\<lambda>_::unit. []) sample_de_chunk sample_de_meta \<lparr>sr_space_id = 1, sr_part_id = 2\<rparr> s' =
      Inr [([1, 2], [9]), ([3], [])]"
proof -
  let ?kvs = "[([1, 2], [9]), ([3], [])] :: rows"
  have "kv_fits kv" if "kv \<in> set ?kvs" for kv using that by (auto simp: kv_fits_def)
  moreover have "length (sw_data (fold (\<lambda>kv. write_kv (fst kv) (snd kv)) ?kvs (snapshot_writer_new 1 2 10 4))) \<le> 65536 * 4294967295"
    by (simp add: write_kv_def snapshot_writer_new_def)
  ultimately show ?thesis
    using snapshot_kvs_roundtrip [OF memory.kv_reliable_axioms memory_ok_new _ _ sample_chunk_ok sample_meta_ok,
        of ?kvs 1 2 10 4 "\<lambda>_::unit. []" 17] by auto
qed

text \<open>
  C30. A snapshot sent in chunks is installed as it was: the chunks may arrive in any order and more than
  once; once each has arrived, installing writes a snapshot whose data, index and term are the
  leader's.
\<close>

theorem snapshot_transfer:
  assumes "kv_reliable ops view ok" and "ok s" and "length d \<le> 65536 * 4294967295"
    and "set order = {..<length (chunks (64 * 1024) d)}"
    and "\<And>c. length (sc_data c) \<le> 65536 \<Longrightarrow> \<exists>b. ser_chunk c = Inr b \<and> de_chunk b = Inr c"
    and "\<And>m. \<exists>b. ser_meta m = Inr b \<and> de_meta b = Inr m"
  shows "\<exists>meta si' s'. install_snapshot_data ops etext ser_chunk ser_meta now s
      (receive_all d dn order (begin_install index trm (of_nat (length d)) t0 (snapshot_installer_new sp pt))) = (Inr meta, si', s') \<and>
    sm_last_included_index meta = index \<and> sm_last_included_term meta = trm \<and>
    load_all_data ops etext de_chunk de_meta \<lparr>sr_space_id = sp, sr_part_id = pt\<rparr> s' = Inr (Some d) \<and>
    si' = snapshot_installer_new sp pt"
proof -
  define si0 where "si0 = begin_install index trm (of_nat (length d)) t0 (snapshot_installer_new sp pt)"
  define si where "si = receive_all d dn order si0"
  define w where "w = snapshot_write d (snapshot_writer_new sp pt index trm)"
  have r0: "receiving d si0" unfolding si0_def by (rule receiving_begin [OF assms(3)])
  have p: "si_pending_chunks si = map Some (chunks (64 * 1024) d)"
    unfolding si_def by (rule receive_all_complete [OF assms(3) r0 assms(4)])
  obtain m where m: "si_pending_meta si = Some m" "sm_last_included_index m = index" "sm_last_included_term m = trm"
    "si_space_id si = sp" "si_part_id si = pt"
    using receive_all_receiving [OF assms(3) r0, of order dn] assms(4)
    by (auto simp: si_def si0_def begin_install_def snapshot_installer_new_def Let_def)
  have w: "sw_data w = d" "sw_chunk_size w = 64 * 1024" "sw_space_id w = sp" "sw_part_id w = pt"
    "sw_last_included_index w = index" "sw_last_included_term w = trm"
    by (simp_all add: w_def snapshot_write_def snapshot_writer_new_def)
  obtain meta s' where fin: "snapshot_finish ops etext ser_chunk ser_meta now s w = (Inr meta, s')"
    "sm_last_included_index meta = index" "sm_last_included_term meta = trm"
    "load_all_data ops etext de_chunk de_meta \<lparr>sr_space_id = sp, sr_part_id = pt\<rparr> s' = Inr (Some d)"
    using kv_reliable.snapshot_finish_total [OF assms(1,2) w(2), of ser_chunk de_chunk ser_meta de_meta etext now]
      assms(3,5,6) by (auto simp: w)
  have "combine_chunks 0 (si_pending_chunks si) [] = Inr d"
    by (simp add: p combine_chunks_Some concat_chunks)
  then have "install_snapshot_data ops etext ser_chunk ser_meta now s si =
      (Inr meta, si\<lparr>si_pending_meta := None, si_pending_chunks := [], si_received_chunks := 0\<rparr>, s')"
    using m fin(1) by (simp add: install_snapshot_data_def Let_def w_def)
  moreover have "si\<lparr>si_pending_meta := None, si_pending_chunks := [], si_received_chunks := 0\<rparr> = snapshot_installer_new sp pt"
    using m(4,5) by (cases si) (simp add: snapshot_installer_new_def)
  ultimately show ?thesis using fin unfolding si_def si0_def by auto
qed

theorem snapshot_transfer_witness:
  "\<exists>meta si' s'. install_snapshot_data memory_ops (\<lambda>_::unit. []) sample_ser_chunk sample_ser_meta 17 memory_new
      (receive_all [7, 8] True [0, 0] (begin_install 10 4 2 5 (snapshot_installer_new 1 2))) = (Inr meta, si', s') \<and>
    load_all_data memory_ops (\<lambda>_::unit. []) sample_de_chunk sample_de_meta \<lparr>sr_space_id = 1, sr_part_id = 2\<rparr> s' = Inr (Some [7, 8])"
proof -
  have "set [0, 0] = {..<length (chunks (64 * 1024) ([7, 8] :: bytes))}" by (auto simp: length_chunks)
  then show ?thesis
    using snapshot_transfer [OF memory.kv_reliable_axioms memory_ok_new _ _ sample_chunk_ok sample_meta_ok,
        of "[7, 8]" "[0, 0]" "\<lambda>_::unit. []" 17 True 10 4 5 1 2] by auto
qed

end
