(* ===== verification/Strings.thy ===== *)
theory Strings
  imports Prelude
begin

text \<open>
  What the sources use of the standard library on text: \<open>format!\<close> and \<open>parse\<close> of integers, splitting at
  a separator, and UTF-8 validation (\<open>from_utf8\<close>, \<open>from_utf8_lossy\<close>). The lemmas say that printing reads back
  and that separators delimit their fields unambiguously.
\<close>

section \<open>Definitions\<close>

definition is_digit :: "u8 \<Rightarrow> bool" where
  "is_digit b \<longleftrightarrow> 48 \<le> b \<and> b \<le> 57"

definition digits_value :: "bytes \<Rightarrow> nat" where
  "digits_value ds = foldl (\<lambda>a d. a * 10 + (unat d - 48)) 0 ds"

text \<open>\<open>i64::from_str\<close>: an optional sign, at least one digit, and a value in range.\<close>

definition parse_i64 :: "bytes \<Rightarrow> i64 option" where
  "parse_i64 bs =
     (let neg = (take 1 bs = [45]); ds = (if neg \<or> take 1 bs = [43] then drop 1 bs else bs)
      in if ds = [] \<or> \<not> list_all is_digit ds then None
         else let v = (if neg then - int (digits_value ds) else int (digits_value ds))
              in if - (2 ^ 63) \<le> v \<and> v < 2 ^ 63 then Some (of_int v) else None)"

text \<open>\<open>s.rsplit(c).next()\<close>: what follows the last separator.\<close>

definition last_segment :: "u8 \<Rightarrow> bytes \<Rightarrow> bytes" where
  "last_segment c bs = rev (takeWhile (\<lambda>b. b \<noteq> c) (rev bs))"

text \<open>
  The first character of a non-empty byte string: whether it is well formed and its length, or the length
  of the longest prefix that could have begun one.
\<close>

definition utf8_cont :: "bytes \<Rightarrow> nat \<Rightarrow> bool" where
  "utf8_cont bs i \<longleftrightarrow> i < length bs \<and> 128 \<le> bs ! i \<and> bs ! i \<le> 191"

definition utf8_second :: "bytes \<Rightarrow> bool" where
  "utf8_second bs \<longleftrightarrow> utf8_cont bs 1 \<and>
     (bs ! 0 = 224 \<longrightarrow> 160 \<le> bs ! 1) \<and> (bs ! 0 = 237 \<longrightarrow> bs ! 1 \<le> 159) \<and>
     (bs ! 0 = 240 \<longrightarrow> 144 \<le> bs ! 1) \<and> (bs ! 0 = 244 \<longrightarrow> bs ! 1 \<le> 143)"

definition utf8_char :: "bytes \<Rightarrow> bool \<times> nat" where
  "utf8_char bs =
     (let b = bs ! 0
      in if b < 128 then (True, 1)
         else if 194 \<le> b \<and> b \<le> 223 then (if utf8_cont bs 1 then (True, 2) else (False, 1))
         else if 224 \<le> b \<and> b \<le> 239 then
           (if \<not> utf8_second bs then (False, 1) else if utf8_cont bs 2 then (True, 3) else (False, 2))
         else if 240 \<le> b \<and> b \<le> 244 then
           (if \<not> utf8_second bs then (False, 1) else if \<not> utf8_cont bs 2 then (False, 2)
            else if utf8_cont bs 3 then (True, 4) else (False, 3))
         else (False, 1))"

lemma utf8_char_shorter: "bs \<noteq> [] \<Longrightarrow> (ok, n) = utf8_char bs \<Longrightarrow> length (drop n bs) < length bs"
  by (cases bs) (auto simp: utf8_char_def Let_def split: if_splits)

function utf8_valid :: "bytes \<Rightarrow> bool" where
  "utf8_valid bs = (if bs = [] then True else case utf8_char bs of (ok, n) \<Rightarrow> ok \<and> utf8_valid (drop n bs))"
  by pat_completeness auto
termination
  by (relation "measure length") (use utf8_char_shorter in auto)

text \<open>\<open>String::from_utf8_lossy\<close>: each ill-formed piece becomes U+FFFD.\<close>

function utf8_lossy :: "bytes \<Rightarrow> bytes" where
  "utf8_lossy bs =
     (if bs = [] then []
      else case utf8_char bs of (ok, n) \<Rightarrow> (if ok then take n bs else [239, 191, 189]) @ utf8_lossy (drop n bs))"
  by pat_completeness auto
termination
  by (relation "measure length") (use utf8_char_shorter in auto)

declare utf8_valid.simps [simp del] utf8_lossy.simps [simp del]

text \<open>\<open>str::trim\<close>: the characters with the Unicode property White_Space, in UTF-8.\<close>

definition utf8_whitespace :: "bytes list" where
  "utf8_whitespace =
     [[9], [10], [11], [12], [13], [32], [194, 133], [194, 160], [225, 154, 128],
      [226, 128, 128], [226, 128, 129], [226, 128, 130], [226, 128, 131], [226, 128, 132], [226, 128, 133],
      [226, 128, 134], [226, 128, 135], [226, 128, 136], [226, 128, 137], [226, 128, 138],
      [226, 128, 168], [226, 128, 169], [226, 128, 175], [226, 129, 159], [227, 128, 128]]"

lemma utf8_whitespace_pos: "w \<in> set utf8_whitespace \<Longrightarrow> w \<noteq> []"
  by (auto simp: utf8_whitespace_def)

function trim_start :: "bytes \<Rightarrow> bytes" where
  "trim_start bs =
     (case find (starts_with bs) utf8_whitespace of None \<Rightarrow> bs | Some w \<Rightarrow> trim_start (drop (length w) bs))"
  by pat_completeness auto
termination
proof (relation "measure length")
  fix bs w
  assume "find (starts_with bs) utf8_whitespace = Some w"
  then have "w \<in> set utf8_whitespace" "starts_with bs w" by (auto simp: find_Some_iff)
  then show "(drop (length w) bs, bs) \<in> measure length"
    using utf8_whitespace_pos [of w] by (cases bs; cases w) (auto simp: starts_with_def)
qed simp

function trim_end :: "bytes \<Rightarrow> bytes" where
  "trim_end bs =
     (case find (\<lambda>w. starts_with (rev bs) (rev w)) utf8_whitespace of
        None \<Rightarrow> bs | Some w \<Rightarrow> trim_end (take (length bs - length w) bs))"
  by pat_completeness auto
termination
proof (relation "measure length")
  fix bs w
  assume "find (\<lambda>w. starts_with (rev bs) (rev w)) utf8_whitespace = Some w"
  then have "w \<in> set utf8_whitespace" "starts_with (rev bs) (rev w)" by (auto simp: find_Some_iff)
  then show "(take (length bs - length w) bs, bs) \<in> measure length"
    using utf8_whitespace_pos [of w] by (cases bs; cases w) (auto simp: starts_with_def)
qed simp

declare trim_start.simps [simp del] trim_end.simps [simp del]

definition trim :: "bytes \<Rightarrow> bytes" where
  "trim bs = trim_end (trim_start bs)"

text \<open>\<open>to_ascii_lowercase\<close> and \<open>eq_ignore_ascii_case\<close>.\<close>

definition to_ascii_lowercase :: "bytes \<Rightarrow> bytes" where
  "to_ascii_lowercase bs = map (\<lambda>b. if 65 \<le> b \<and> b \<le> 90 then b + 32 else b) bs"

definition eq_ignore_ascii_case :: "bytes \<Rightarrow> bytes \<Rightarrow> bool" where
  "eq_ignore_ascii_case a b \<longleftrightarrow> to_ascii_lowercase a = to_ascii_lowercase b"

section \<open>Decimal numbers: lemmas\<close>

lemma digits_value_snoc: "digits_value (ds @ [d]) = digits_value ds * 10 + (unat d - 48)"
  by (simp add: digits_value_def)

lemma unat_digit: "n < 10 \<Longrightarrow> unat (of_nat (48 + n) :: u8) = 48 + n"
  by (simp add: unat_of_nat del: of_nat_add)

lemma is_digit_of_nat: "n < 10 \<Longrightarrow> is_digit (of_nat (48 + n))"
  using unat_digit [of n] by (simp add: is_digit_def word_le_nat_alt del: of_nat_add)

lemma dec_nat_digits: "list_all is_digit (dec_nat n)"
proof (induction n rule: dec_nat.induct)
  case (1 n)
  then show ?case
    using is_digit_of_nat [of n] is_digit_of_nat [of "n mod 10"]
    by (subst dec_nat.simps) (simp del: of_nat_add)
qed

lemma dec_nat_not_Nil [simp]: "dec_nat n \<noteq> []"
  by (subst dec_nat.simps) simp

lemma digits_value_dec_nat [simp]: "digits_value (dec_nat n) = n"
proof (induction n rule: dec_nat.induct)
  case (1 n)
  show ?case
  proof (cases "n < 10")
    case True
    then show ?thesis using unat_digit [of n]
      by (subst dec_nat.simps) (simp add: digits_value_def del: of_nat_add)
  next
    case False
    with 1 unat_digit [of "n mod 10"] show ?thesis
      by (subst dec_nat.simps) (simp add: digits_value_snoc del: of_nat_add)
  qed
qed

lemma dec_nat_inject [simp]: "dec_nat m = dec_nat n \<longleftrightarrow> m = n"
  by (metis digits_value_dec_nat)

lemma dec_nat_head: "hd (dec_nat n) \<noteq> 45 \<and> hd (dec_nat n) \<noteq> 43"
  using dec_nat_digits [of n] by (cases "dec_nat n") (auto simp: is_digit_def)

lemma dec_nat_no_char: "\<not> is_digit c \<Longrightarrow> c \<notin> set (dec_nat n)"
  using dec_nat_digits [of n] by (auto simp: list_all_iff)

lemma dec_int_no_char: "\<not> is_digit c \<Longrightarrow> c \<noteq> 45 \<Longrightarrow> c \<notin> set (dec_int i)"
  by (auto simp: dec_int_def dec_nat_no_char)

lemma dec_int_colon [simp]: "58 \<notin> set (dec_int i)"
  by (rule dec_int_no_char) (simp_all add: is_digit_def)

lemma dec_nat_colon [simp]: "58 \<notin> set (dec_nat n)"
  by (rule dec_nat_no_char) (simp add: is_digit_def)

lemma dec_int_not_Nil [simp]: "dec_int i \<noteq> []"
  by (simp add: dec_int_def)

lemma dec_int_inject [simp]: "dec_int i = dec_int j \<longleftrightarrow> i = j"
proof -
  have *: "45 # xs \<noteq> dec_nat n" for xs n using dec_nat_head [of n] by (metis list.sel(1))
  show ?thesis by (auto simp: dec_int_def * * [symmetric] dest!: arg_cong [where f = int])
qed

lemma parse_i64_dec: "parse_i64 (dec_int (sint v)) = Some v"
proof -
  have r: "- (2 ^ 63) \<le> sint v" "sint v < 2 ^ 63"
    using sint_greater_eq [of v] sint_less [of v] by simp_all
  have h: "take 1 (dec_nat n) \<noteq> [45]" "take 1 (dec_nat n) \<noteq> [43]" for n
    using dec_nat_head [of n] by (cases "dec_nat n"; simp)+
  show ?thesis
  proof (cases "sint v < 0")
    case True
    with r show ?thesis by (simp add: parse_i64_def dec_int_def Let_def dec_nat_digits)
  next
    case False
    with r h show ?thesis by (simp add: parse_i64_def dec_int_def Let_def dec_nat_digits)
  qed
qed

section \<open>Separators: lemmas\<close>

lemma append_sep_inject:
  assumes "c \<notin> set xs" and "c \<notin> set ys"
  shows "xs @ c # us = ys @ c # vs \<longleftrightarrow> xs = ys \<and> us = vs"
  using assms
proof (induction xs arbitrary: ys)
  case Nil
  then show ?case by (cases ys) auto
next
  case (Cons x xs)
  then show ?case by (cases ys) auto
qed

lemma append_sep_end:
  assumes "c \<notin> set xs" and "c \<notin> set ys"
  shows "us @ c # xs = vs @ c # ys \<longleftrightarrow> us = vs \<and> xs = ys"
  using append_sep_inject [of c "rev xs" "rev ys" "rev us" "rev vs"] assms
  by (metis (no_types, lifting) append_Cons append_Nil append_assoc rev.simps(2) rev_append rev_rev_ident set_rev)

lemma starts_with_sep:
  assumes "c \<notin> set xs" and "c \<notin> set ys"
  shows "starts_with (xs @ c # us) (ys @ c # vs) \<longleftrightarrow> xs = ys \<and> starts_with us vs"
proof
  assume "starts_with (xs @ c # us) (ys @ c # vs)"
  then obtain s where "xs @ c # us = ys @ c # (vs @ s)" by (auto simp: starts_with_iff)
  then show "xs = ys \<and> starts_with us vs" using append_sep_inject [OF assms] by simp
qed (auto simp: starts_with_iff)

lemma starts_with_same_prefix [simp]: "starts_with (p @ xs) (p @ ys) \<longleftrightarrow> starts_with xs ys"
  by (simp add: starts_with_iff)

lemma starts_with_Cons [simp]: "starts_with (x # xs) (y # ys) \<longleftrightarrow> x = y \<and> starts_with xs ys"
  by (auto simp: starts_with_def)

lemma starts_with_Nil [simp]: "starts_with xs []"
  by (simp add: starts_with_def)

lemma Nil_starts_with [simp]: "starts_with [] ys \<longleftrightarrow> ys = []"
  by (auto simp: starts_with_def)

lemma last_segment_append: "c \<notin> set seg \<Longrightarrow> last_segment c (pre @ c # seg) = seg"
  by (simp add: last_segment_def takeWhile_append)

section \<open>UTF-8: lemmas\<close>

lemma utf8_lossy_valid: "utf8_valid bs \<Longrightarrow> utf8_lossy bs = bs"
proof (induction bs rule: utf8_lossy.induct)
  case (1 bs)
  show ?case
  proof (cases "bs = []")
    case False
    obtain ok n where c: "utf8_char bs = (ok, n)" by (cases "utf8_char bs")
    with "1.prems" False have ok: "ok" "utf8_valid (drop n bs)" by (simp_all add: utf8_valid.simps [of bs])
    with "1.IH" [OF False c [symmetric]] c False show ?thesis by (simp add: utf8_lossy.simps [of bs])
  qed (simp add: utf8_lossy.simps)
qed

lemma utf8_char_ascii: "b < 128 \<Longrightarrow> utf8_char (b # bs) = (True, 1)"
  by (simp add: utf8_char_def)

lemma utf8_valid_ascii_append: "list_all (\<lambda>b. b < 128) xs \<Longrightarrow> utf8_valid (xs @ ys) = utf8_valid ys"
  by (induction xs) (simp_all add: utf8_valid.simps [of "_ # _"] utf8_char_ascii)

lemma utf8_valid_ascii: "list_all (\<lambda>b. b < 128) xs \<Longrightarrow> utf8_valid xs"
  using utf8_valid_ascii_append [of xs "[]"] by (simp add: utf8_valid.simps)

lemma utf8_cont_append: "utf8_cont xs i \<Longrightarrow> utf8_cont (xs @ ys) i"
  by (auto simp: utf8_cont_def nth_append)

lemma utf8_second_append: "utf8_second xs \<Longrightarrow> utf8_second (xs @ ys)"
  by (auto simp: utf8_second_def utf8_cont_def nth_append)

lemma utf8_char_append:
  assumes "xs \<noteq> []" and "utf8_char xs = (True, n)"
  shows "n \<le> length xs \<and> utf8_char (xs @ ys) = (True, n)"
proof -
  have h: "(xs @ ys) ! 0 = xs ! 0" using assms(1) by (simp add: nth_append)
  have c: "i < length xs" if "utf8_cont xs i" for i using that by (simp add: utf8_cont_def)
  have l: "1 \<le> length xs" using assms(1) by (simp add: Suc_le_eq)
  note a = utf8_cont_append [of xs _ ys] utf8_second_append [of xs ys]
  consider "xs ! 0 < 128" | "\<not> xs ! 0 < 128" "194 \<le> xs ! 0 \<and> xs ! 0 \<le> 223"
    | "\<not> xs ! 0 < 128" "\<not> (194 \<le> xs ! 0 \<and> xs ! 0 \<le> 223)" "224 \<le> xs ! 0 \<and> xs ! 0 \<le> 239"
    | "\<not> xs ! 0 < 128" "\<not> (194 \<le> xs ! 0 \<and> xs ! 0 \<le> 223)" "\<not> (224 \<le> xs ! 0 \<and> xs ! 0 \<le> 239)" by blast
  then show ?thesis
  proof cases
    case 1
    with assms(2) l h show ?thesis by (simp add: utf8_char_def Let_def)
  next
    case 2
    with assms(2) have "utf8_cont xs 1" "n = 2" by (simp_all add: utf8_char_def Let_def split: if_splits)
    with 2 a c [of 1] show ?thesis by (simp add: utf8_char_def Let_def h)
  next
    case 3
    with assms(2) have "utf8_second xs" "utf8_cont xs 2" "n = 3" by (simp_all add: utf8_char_def Let_def split: if_splits)
    with 3 a c [of 2] show ?thesis by (simp add: utf8_char_def Let_def h)
  next
    case 4
    with assms(2) have "240 \<le> xs ! 0 \<and> xs ! 0 \<le> 244" "utf8_second xs" "utf8_cont xs 2" "utf8_cont xs 3" "n = 4"
      by (simp_all add: utf8_char_def Let_def split: if_splits)
    with 4 a c [of 3] show ?thesis by (simp add: utf8_char_def Let_def h)
  qed
qed

lemma utf8_valid_append: "utf8_valid xs \<Longrightarrow> utf8_valid ys \<Longrightarrow> utf8_valid (xs @ ys)"
proof (induction xs rule: utf8_valid.induct)
  case (1 xs)
  show ?case
  proof (cases "xs = []")
    case False
    obtain ok n where c: "utf8_char xs = (ok, n)" by (cases "utf8_char xs")
    with "1.prems" False have ok: "ok" "utf8_valid (drop n xs)" by (simp_all add: utf8_valid.simps [of xs])
    with utf8_char_append [OF False, of n ys] c have "n \<le> length xs" "utf8_char (xs @ ys) = (True, n)" by auto
    moreover have "utf8_valid (drop n xs @ ys)" using "1.IH" [OF False c [symmetric] ok(2) "1.prems"(2)] .
    ultimately show ?thesis using False by (simp add: utf8_valid.simps [of "xs @ ys"])
  qed (use 1 in simp)
qed

end
