(* ===== verification/IndexKey.thy ===== *)
theory IndexKey
  imports History Strings
begin

unbundle bit_operations_syntax

text \<open>
  Storage keys and index keys (\<^verbatim>\<open>byoridb-storage/src/key.rs\<close>): vertex, edge and system keys, and the
  encoding of property values in index keys. An \<open>f64\<close> is its IEEE 754 bit pattern (\<open>to_bits\<close>), a \<open>String\<close>
  its UTF-8 bytes.

  The lemmas show that values decode to what was encoded, that no encoding is a prefix of another, hence that
  a prefix scan for a value meets the entries of that value only, and in which sense the encoding
  keeps the order of integers and floats; and that it does not keep the order of strings.
\<close>

section \<open>Definitions\<close>

datatype key_type = Vertex | Edge | System | TagIndex | EdgeIndex

fun key_type_byte :: "key_type \<Rightarrow> u8" where
  "key_type_byte Vertex = 1"
| "key_type_byte Edge = 2"
| "key_type_byte System = 3"
| "key_type_byte TagIndex = 4"
| "key_type_byte EdgeIndex = 5"

definition vertex_key :: "u32 \<Rightarrow> i64 \<Rightarrow> u32 \<Rightarrow> bytes" where
  "vertex_key part_id vid tag_id =
     u32_to_be part_id @ u64_to_be vid @ [key_type_byte Vertex] @ u32_to_be tag_id"

definition edge_key :: "u32 \<Rightarrow> i64 \<Rightarrow> u32 \<Rightarrow> i64 \<Rightarrow> i64 \<Rightarrow> bytes" where
  "edge_key part_id src_vid edge_type rank dst_vid =
     u32_to_be part_id @ u64_to_be src_vid @ [key_type_byte Edge] @ u32_to_be edge_type @ u64_to_be rank @ u64_to_be dst_vid"

definition system_key :: "bytes \<Rightarrow> bytes" where
  "system_key suffix = key_type_byte System # suffix"

datatype index_value =
    IndexNull
  | IndexBool bool
  | IndexInt i64
  | IndexFloat u64
  | IndexString bytes

definition encode_float :: "u64 \<Rightarrow> u64" where
  "encode_float w = (if w AND sign_bit \<noteq> 0 then NOT w else w XOR sign_bit)"

definition decode_float :: "u64 \<Rightarrow> u64" where
  "decode_float w = (if w AND sign_bit \<noteq> 0 then w XOR sign_bit else NOT w)"

fun encode_value :: "index_value \<Rightarrow> bytes" where
  "encode_value IndexNull = [0]"
| "encode_value (IndexBool b) = [1, if b then 1 else 0]"
| "encode_value (IndexInt i) = 2 # u64_to_be (i XOR sign_bit)"
| "encode_value (IndexFloat f) = 3 # u64_to_be (encode_float f)"
| "encode_value (IndexString s) = 4 # of_nat (min (length s) 255) # take (min (length s) 255) s"

fun encoded_len :: "index_value \<Rightarrow> nat" where
  "encoded_len IndexNull = 1"
| "encoded_len (IndexBool _) = 2"
| "encoded_len (IndexInt _) = 9"
| "encoded_len (IndexFloat _) = 9"
| "encoded_len (IndexString s) = 2 + min (length s) 255"

definition decode_value :: "bytes \<Rightarrow> (index_value \<times> nat) option" where
  "decode_value data =
     (if data = [] then None
      else if data ! 0 = 0 then Some (IndexNull, 1)
      else if data ! 0 = 1 \<and> 2 \<le> length data then Some (IndexBool (data ! 1 \<noteq> 0), 2)
      else if data ! 0 = 2 \<and> 9 \<le> length data then
        Some (IndexInt (u64_from_be (take 8 (drop 1 data)) XOR sign_bit), 9)
      else if data ! 0 = 3 \<and> 9 \<le> length data then
        Some (IndexFloat (decode_float (u64_from_be (take 8 (drop 1 data)))), 9)
      else if data ! 0 = 4 \<and> 2 \<le> length data then
        (let len = unat (data ! 1)
         in if 2 + len \<le> length data then Some (IndexString (utf8_lossy (take len (drop 2 data))), 2 + len) else None)
      else None)"

definition encode_values :: "index_value list \<Rightarrow> bytes" where
  "encode_values vs = concat (map encode_value vs)"

definition tag_index_key :: "u32 \<Rightarrow> u32 \<Rightarrow> index_value list \<Rightarrow> i64 \<Rightarrow> bytes" where
  "tag_index_key part_id index_id prop_values vid =
     u32_to_be part_id @ [key_type_byte TagIndex] @ u32_to_be index_id @ encode_values prop_values @ u64_to_be vid"

definition tag_index_prefix :: "u32 \<Rightarrow> u32 \<Rightarrow> bytes" where
  "tag_index_prefix part_id index_id = u32_to_be part_id @ [key_type_byte TagIndex] @ u32_to_be index_id"

definition tag_index_prefix_with_values :: "u32 \<Rightarrow> u32 \<Rightarrow> index_value list \<Rightarrow> bytes" where
  "tag_index_prefix_with_values part_id index_id prop_values = tag_index_prefix part_id index_id @ encode_values prop_values"

definition edge_index_key :: "u32 \<Rightarrow> u32 \<Rightarrow> index_value list \<Rightarrow> i64 \<Rightarrow> i64 \<Rightarrow> i64 \<Rightarrow> bytes" where
  "edge_index_key part_id index_id prop_values src_vid rank dst_vid =
     u32_to_be part_id @ [key_type_byte EdgeIndex] @ u32_to_be index_id @ encode_values prop_values @
     u64_to_be src_vid @ u64_to_be rank @ u64_to_be dst_vid"

definition edge_index_prefix :: "u32 \<Rightarrow> u32 \<Rightarrow> bytes" where
  "edge_index_prefix part_id index_id = u32_to_be part_id @ [key_type_byte EdgeIndex] @ u32_to_be index_id"

definition edge_index_prefix_with_values :: "u32 \<Rightarrow> u32 \<Rightarrow> index_value list \<Rightarrow> bytes" where
  "edge_index_prefix_with_values part_id index_id prop_values = edge_index_prefix part_id index_id @ encode_values prop_values"

definition parse_tag_index_vid :: "bytes \<Rightarrow> i64 option" where
  "parse_tag_index_vid key =
     (if length key < 17 then None else Some (u64_from_be (drop (length key - 8) key)))"

definition parse_edge_index_edge :: "bytes \<Rightarrow> (i64 \<times> i64 \<times> i64) option" where
  "parse_edge_index_edge key =
     (if length key < 33 then None
      else let rest = drop (length key - 24) key
           in Some (u64_from_be (take 8 rest), u64_from_be (take 8 (drop 8 rest)), u64_from_be (take 8 (drop 16 rest))))"

section \<open>Sign bits: lemmas\<close>

lemma and_sign_bit: "w AND sign_bit \<noteq> 0 \<longleftrightarrow> sint w < 0"
proof -
  have "w AND sign_bit \<noteq> 0 \<longleftrightarrow> bit w 63"
    unfolding sign_bit_def by (simp only: bit_iff_and_push_bit_not_eq_0)
  also have "\<dots> \<longleftrightarrow> sint w < 0" using bit_last_iff [of w] by simp
  finally show ?thesis .
qed

lemma uint_nonneg_sint:
  assumes "0 \<le> sint w"
  shows "uint (w :: u64) = sint w"
proof (cases "uint w < 9223372036854775808")
  case True
  have "uint (w + 9223372036854775808) = sint w + 9223372036854775808"
    using uint_xor_sign_bit [of w] by (simp add: xor_sign_bit)
  with True show ?thesis by (simp add: uint_word_ariths)
next
  case False
  have "uint (w + 9223372036854775808) = sint w + 9223372036854775808"
    using uint_xor_sign_bit [of w] by (simp add: xor_sign_bit)
  moreover have "(uint w + 9223372036854775808) mod 18446744073709551616 = uint w - 9223372036854775808"
    using False uint_bounded [of w] by (intro int_mod_pos_eq [where q = 1]) simp_all
  ultimately have "uint w = sint w + 18446744073709551616" by (simp add: uint_word_ariths)
  with assms uint_bounded [of w] show ?thesis by simp
qed

lemma sint_not_i64: "sint (NOT (w :: i64)) = - 1 - sint w"
  using sint_bounds_i64 [of w] by (simp add: signed_not_eq not_int_def signed_take_bit_int_eq_self)

lemma uint_encode_float:
  "uint (encode_float w) = (if sint w < 0 then - 1 - sint w else sint w + 9223372036854775808)"
  using uint_nonneg_sint [of "NOT w"] by (simp add: encode_float_def and_sign_bit uint_xor_sign_bit sint_not_i64)

lemma decode_encode_float [simp]: "decode_float (encode_float w) = w"
proof -
  have "sint (w XOR sign_bit) < 0" if "0 \<le> sint w"
  proof (rule ccontr)
    assume "\<not> sint (w XOR sign_bit) < 0"
    then have "uint (w XOR sign_bit) < 9223372036854775808"
      using uint_nonneg_sint [of "w XOR sign_bit"] sint_bounds_i64 [of "w XOR sign_bit"] by simp
    with that show False by (simp add: uint_xor_sign_bit)
  qed
  moreover have "0 \<le> sint (NOT w)" if "sint w < 0" using that by (simp add: sint_not_i64)
  ultimately show ?thesis by (auto simp: encode_float_def decode_float_def and_sign_bit not_less)
qed

section \<open>Value encodings: lemmas\<close>

text \<open>Values the encoding keeps: a string of at most 255 bytes.\<close>

fun value_fits :: "index_value \<Rightarrow> bool" where
  "value_fits (IndexString s) \<longleftrightarrow> length s \<le> 255 \<and> utf8_valid s"
| "value_fits _ \<longleftrightarrow> True"

lemma length_encode_value: "length (encode_value v) = encoded_len v"
  by (cases v) auto

lemma decode_encode_value:
  assumes "value_fits v"
  shows "decode_value (encode_value v @ rest) = Some (v, encoded_len v)"
proof (cases v)
  case (IndexString s)
  with assms have len: "length s \<le> 255" and ok: "utf8_valid s" by simp_all
  then have "unat (of_nat (length s) :: u8) = length s" by (simp add: unat_of_nat)
  with IndexString len utf8_lossy_valid [OF ok] show ?thesis
    by (simp add: decode_value_def min_absorb1)
qed (simp_all add: decode_value_def)

lemma encode_value_prefix_free:
  assumes "value_fits v" and "value_fits v'" and "encode_value v @ x = encode_value v' @ y"
  shows "v = v' \<and> x = y"
  using decode_encode_value [OF assms(1), of x] decode_encode_value [OF assms(2), of y] assms(3) by simp

lemma encode_values_prefix:
  assumes "list_all value_fits vs" and "list_all value_fits us" and "length us \<le> length vs"
    and "encode_values vs @ x = encode_values us @ y"
  shows "take (length us) vs = us"
  using assms
proof (induction us arbitrary: vs)
  case (Cons u us)
  then obtain v vs' where vs: "vs = v # vs'" by (cases vs) auto
  with Cons.prems have "encode_value v @ (encode_values vs' @ x) = encode_value u @ (encode_values us @ y)"
    and "value_fits v" "value_fits u" by (simp_all add: encode_values_def)
  then have "v = u \<and> encode_values vs' @ x = encode_values us @ y" using encode_value_prefix_free by blast
  with Cons vs show ?case by simp
qed simp

lemma values_prefix_iff:
  assumes "list_all value_fits vs" and "list_all value_fits us" and "length us \<le> length vs"
  shows "starts_with (encode_values vs @ x) (encode_values us) \<longleftrightarrow> take (length us) vs = us"
proof
  assume "take (length us) vs = us"
  then have "encode_values vs = encode_values us @ encode_values (drop (length us) vs)"
    by (metis append_take_drop_id concat_append encode_values_def map_append)
  then show "starts_with (encode_values vs @ x) (encode_values us)" by (simp add: starts_with_iff)
next
  assume "starts_with (encode_values vs @ x) (encode_values us)"
  then show "take (length us) vs = us" using encode_values_prefix [OF assms] by (auto simp: starts_with_iff)
qed

lemma tag_index_key_eq: "tag_index_key p i vs vid = tag_index_prefix_with_values p i vs @ u64_to_be vid"
  by (simp add: tag_index_key_def tag_index_prefix_with_values_def tag_index_prefix_def)

lemma edge_index_key_eq:
  "edge_index_key p i vs src rank dst = edge_index_prefix_with_values p i vs @ u64_to_be src @ u64_to_be rank @ u64_to_be dst"
  by (simp add: edge_index_key_def edge_index_prefix_with_values_def edge_index_prefix_def)

lemma index_header_starts:
  "starts_with (tag_index_prefix_with_values p i vs @ x) (tag_index_prefix_with_values p' i' us) \<longleftrightarrow>
     p = p' \<and> i = i' \<and> starts_with (encode_values vs @ x) (encode_values us)"
  "starts_with (edge_index_prefix_with_values p i vs @ x) (edge_index_prefix_with_values p' i' us) \<longleftrightarrow>
     p = p' \<and> i = i' \<and> starts_with (encode_values vs @ x) (encode_values us)"
  by (auto simp: starts_with_iff tag_index_prefix_with_values_def tag_index_prefix_def edge_index_prefix_with_values_def
        edge_index_prefix_def)

lemma prefix_with_values_length:
  "9 \<le> length (tag_index_prefix_with_values p i vs)" "9 \<le> length (edge_index_prefix_with_values p i vs)"
  by (simp_all add: tag_index_prefix_with_values_def tag_index_prefix_def edge_index_prefix_with_values_def edge_index_prefix_def)

lemma parse_tag_index_suffix:
  "parse_tag_index_vid (tag_index_prefix_with_values p i vs @ u64_to_be vid) = Some vid"
  using prefix_with_values_length(1) [of p i vs] by (simp add: parse_tag_index_vid_def)

lemma parse_edge_index_suffix:
  "parse_edge_index_edge (edge_index_prefix_with_values p i vs @ u64_to_be src @ u64_to_be rank @ u64_to_be dst) =
     Some (src, rank, dst)"
  using prefix_with_values_length(2) [of p i vs] by (simp add: parse_edge_index_edge_def Let_def)

text \<open>The order of finite floats: sign and magnitude of the bit pattern, with the two zeros equal.\<close>

definition float_rank :: "u64 \<Rightarrow> int" where
  "float_rank w = (if sint w < 0 then - (sint w + 9223372036854775808) else sint w)"

section \<open>Properties\<close>

text \<open>
  C35. An encoded index value followed by any bytes decodes to the value and its encoded length, for every value
  but strings longer than 255 bytes.
\<close>

theorem index_value_roundtrip:
  assumes "value_fits v"
  shows "decode_value (encode_value v @ rest) = Some (v, encoded_len v) \<and> length (encode_value v) = encoded_len v"
  by (simp add: decode_encode_value [OF assms] length_encode_value)

theorem index_value_roundtrip_witness:
  "decode_value (encode_value (IndexString [104, 105]) @ [7]) = Some (IndexString [104, 105], 4)"
proof -
  have "value_fits (IndexString [104, 105])" by (simp add: utf8_valid_ascii)
  then show ?thesis using index_value_roundtrip [of "IndexString [104, 105]" "[7]"] by simp
qed



text \<open>
  The bytes of encoded integers compare as the integers do, and those of floats as the floats do, with the negative
  zero just below the positive one.
\<close>

theorem index_order:
  "(encode_value (IndexInt a) < encode_value (IndexInt b) \<longleftrightarrow> sint a < sint b) \<and>
   (encode_value (IndexFloat f) < encode_value (IndexFloat g) \<longleftrightarrow>
      float_rank f < float_rank g \<or> float_rank f = float_rank g \<and> sint f < 0 \<and> 0 \<le> sint g)"
proof -
  have "encode_float f < encode_float g \<longleftrightarrow>
      float_rank f < float_rank g \<or> float_rank f = float_rank g \<and> sint f < 0 \<and> 0 \<le> sint g"
    using sint_bounds_i64 [of f] sint_bounds_i64 [of g]
    by (auto simp: word_less_def uint_encode_float float_rank_def split: if_splits)
  then show ?thesis by (simp add: u64_to_be_less xor_sign_bit_less)
qed

text \<open>
  The encoding does not keep the order of strings, whose length byte is compared before their content, and gives equal
  bytes to strings that agree on their first 255 bytes.
\<close>

theorem index_string_order:
  "ascii ''aa'' < ascii ''b'' \<and> encode_value (IndexString (ascii ''b'')) < encode_value (IndexString (ascii ''aa'')) \<and>
   encode_value (IndexString (replicate 255 c @ s)) = encode_value (IndexString (replicate 255 c))"
  by (simp add: ascii_def)

end
