(* ===== verification/SchemaKey.thy ===== *)
theory SchemaKey
  imports Strings
begin

text \<open>
  The textual keys of metadata and graph data (\<^verbatim>\<open>byoridb-executor/src/key.rs\<close>). \<open>schema_f\<close> is
  \<open>SchemaKey::f\<close>; names are UTF-8 bytes and identifiers are printed in decimal.

  A key is a list of fields joined by colons. Names without a colon (nGQL identifiers) make every key injective,
  keep the families of keys apart and make each prefix scan meet exactly the keys of its arguments.
\<close>

section \<open>Definitions\<close>

definition USER_KEY_PREFIX :: bytes where
  "USER_KEY_PREFIX = ascii ''__user_''"

definition schema_space :: "bytes \<Rightarrow> bytes" where
  "schema_space name = ascii ''space:'' @ name"

definition schema_space_prefix :: bytes where
  "schema_space_prefix = ascii ''space:''"

definition schema_tag :: "bytes \<Rightarrow> bytes \<Rightarrow> bytes" where
  "schema_tag sp name = ascii ''space:'' @ sp @ ascii '':tag:'' @ name"

definition schema_tag_prefix :: "bytes \<Rightarrow> bytes" where
  "schema_tag_prefix sp = ascii ''space:'' @ sp @ ascii '':tag:''"

definition schema_class :: "bytes \<Rightarrow> bytes \<Rightarrow> bytes" where
  "schema_class sp name = ascii ''space:'' @ sp @ ascii '':class:'' @ name"

definition schema_class_prefix :: "bytes \<Rightarrow> bytes" where
  "schema_class_prefix sp = ascii ''space:'' @ sp @ ascii '':class:''"

definition schema_shape :: "bytes \<Rightarrow> bytes \<Rightarrow> bytes" where
  "schema_shape sp name = ascii ''space:'' @ sp @ ascii '':shape:'' @ name"

definition schema_shape_prefix :: "bytes \<Rightarrow> bytes" where
  "schema_shape_prefix sp = ascii ''space:'' @ sp @ ascii '':shape:''"

definition schema_edge :: "bytes \<Rightarrow> bytes \<Rightarrow> bytes" where
  "schema_edge sp name = ascii ''space:'' @ sp @ ascii '':edge:'' @ name"

definition schema_edge_prefix :: "bytes \<Rightarrow> bytes" where
  "schema_edge_prefix sp = ascii ''space:'' @ sp @ ascii '':edge:''"

definition schema_vertex :: "bytes \<Rightarrow> i64 \<Rightarrow> bytes" where
  "schema_vertex sp vid = sp @ ascii '':vertex:'' @ dec_int (sint vid)"

definition schema_vertex_prefix :: "bytes \<Rightarrow> bytes" where
  "schema_vertex_prefix sp = sp @ ascii '':vertex:''"

definition schema_edge_data :: "bytes \<Rightarrow> i64 \<Rightarrow> bytes \<Rightarrow> i64 \<Rightarrow> i64 \<Rightarrow> bytes" where
  "schema_edge_data sp src edge_type dst ranking =
     sp @ ascii '':edge:'' @ dec_int (sint src) @ ascii '':'' @ edge_type @ ascii '':'' @ dec_int (sint dst) @ ascii '':'' @ dec_int (sint ranking)"

definition schema_edge_data_src_prefix :: "bytes \<Rightarrow> i64 \<Rightarrow> bytes" where
  "schema_edge_data_src_prefix sp src = sp @ ascii '':edge:'' @ dec_int (sint src) @ ascii '':''"

definition schema_in_edge_data :: "bytes \<Rightarrow> i64 \<Rightarrow> bytes \<Rightarrow> i64 \<Rightarrow> i64 \<Rightarrow> bytes" where
  "schema_in_edge_data sp dst edge_type src ranking =
     sp @ ascii '':in-edge:'' @ dec_int (sint dst) @ ascii '':'' @ edge_type @ ascii '':'' @ dec_int (sint src) @ ascii '':'' @ dec_int (sint ranking)"

definition schema_in_edge_data_dst_prefix :: "bytes \<Rightarrow> i64 \<Rightarrow> bytes" where
  "schema_in_edge_data_dst_prefix sp dst = sp @ ascii '':in-edge:'' @ dec_int (sint dst) @ ascii '':''"

definition schema_vtype :: "bytes \<Rightarrow> i64 \<Rightarrow> bytes \<Rightarrow> bytes" where
  "schema_vtype sp vid cls = sp @ ascii '':vtype:'' @ dec_int (sint vid) @ ascii '':'' @ cls"

definition schema_vtype_prefix :: "bytes \<Rightarrow> i64 \<Rightarrow> bytes" where
  "schema_vtype_prefix sp vid = sp @ ascii '':vtype:'' @ dec_int (sint vid) @ ascii '':''"

definition vtype_class_from_key :: "bytes \<Rightarrow> bytes option" where
  "vtype_class_from_key key = (if utf8_valid key then Some (last_segment 58 key) else None)"

definition schema_prov_edge :: "bytes \<Rightarrow> i64 \<Rightarrow> bytes \<Rightarrow> i64 \<Rightarrow> bytes" where
  "schema_prov_edge sp s p d =
     sp @ ascii '':prov:e:'' @ dec_int (sint s) @ ascii '':'' @ p @ ascii '':'' @ dec_int (sint d)"

definition schema_prov_vtype :: "bytes \<Rightarrow> i64 \<Rightarrow> bytes \<Rightarrow> bytes" where
  "schema_prov_vtype sp vid cls = sp @ ascii '':prov:v:'' @ dec_int (sint vid) @ ascii '':'' @ cls"

definition schema_prov_prefix :: "bytes \<Rightarrow> bytes" where
  "schema_prov_prefix sp = sp @ ascii '':prov:''"

definition schema_prov_rev_edge :: "bytes \<Rightarrow> i64 \<Rightarrow> bytes \<Rightarrow> i64 \<Rightarrow> bytes" where
  "schema_prov_rev_edge sp s p d =
     sp @ ascii '':prov-rev:e:'' @ dec_int (sint s) @ ascii '':'' @ p @ ascii '':'' @ dec_int (sint d)"

definition schema_prov_rev_prefix :: "bytes \<Rightarrow> bytes" where
  "schema_prov_rev_prefix sp = sp @ ascii '':prov-rev:''"

definition schema_tagvid :: "bytes \<Rightarrow> bytes \<Rightarrow> i64 \<Rightarrow> bytes" where
  "schema_tagvid sp tag vid = sp @ ascii '':tagvid:'' @ tag @ ascii '':'' @ dec_int (sint vid)"

definition schema_sameas :: "bytes \<Rightarrow> i64 \<Rightarrow> bytes" where
  "schema_sameas sp vid = sp @ ascii '':sameas:'' @ dec_int (sint vid)"

definition schema_sameas_member :: "bytes \<Rightarrow> i64 \<Rightarrow> i64 \<Rightarrow> bytes" where
  "schema_sameas_member sp rep member = sp @ ascii '':sameas-members:'' @ dec_int (sint rep) @ ascii '':'' @ dec_int (sint member)"

definition schema_sameas_members_prefix :: "bytes \<Rightarrow> i64 \<Rightarrow> bytes" where
  "schema_sameas_members_prefix sp rep = sp @ ascii '':sameas-members:'' @ dec_int (sint rep) @ ascii '':''"

definition sameas_member_from_key :: "bytes \<Rightarrow> i64 option" where
  "sameas_member_from_key key = (if utf8_valid key then parse_i64 (last_segment 58 key) else None)"

definition schema_vec_data :: "bytes \<Rightarrow> bytes \<Rightarrow> i64 \<Rightarrow> bytes" where
  "schema_vec_data sp prop vid = sp @ ascii '':vec:'' @ prop @ ascii '':'' @ dec_int (sint vid)"

definition schema_vec_data_prop_prefix :: "bytes \<Rightarrow> bytes \<Rightarrow> bytes" where
  "schema_vec_data_prop_prefix sp prop = sp @ ascii '':vec:'' @ prop @ ascii '':''"

definition vec_data_vid_from_key :: "bytes \<Rightarrow> i64 option" where
  "vec_data_vid_from_key key = (if utf8_valid key then parse_i64 (last_segment 58 key) else None)"

definition schema_vec_index :: "bytes \<Rightarrow> bytes \<Rightarrow> bytes" where
  "schema_vec_index sp prop = sp @ ascii '':vecidx:'' @ prop"

definition schema_vec_index_dirty :: "bytes \<Rightarrow> bytes \<Rightarrow> bytes" where
  "schema_vec_index_dirty sp prop = sp @ ascii '':vecidx-dirty:'' @ prop"

definition schema_tag_index :: "bytes \<Rightarrow> bytes \<Rightarrow> bytes" where
  "schema_tag_index sp name = ascii ''space:'' @ sp @ ascii '':tag_index:'' @ name"

definition schema_edge_index :: "bytes \<Rightarrow> bytes \<Rightarrow> bytes" where
  "schema_edge_index sp name = ascii ''space:'' @ sp @ ascii '':edge_index:'' @ name"

definition next_space_id_key :: bytes where
  "next_space_id_key = ascii ''__meta:next_space_id''"

definition schema_indeg_counter :: "bytes \<Rightarrow> bytes \<Rightarrow> i64 \<Rightarrow> bytes" where
  "schema_indeg_counter sp etype dst = sp @ ascii '':indeg:'' @ etype @ ascii '':'' @ dec_int (sint dst)"

definition schema_outdeg_counter :: "bytes \<Rightarrow> bytes \<Rightarrow> i64 \<Rightarrow> bytes" where
  "schema_outdeg_counter sp etype src = sp @ ascii '':outdeg:'' @ etype @ ascii '':'' @ dec_int (sint src)"

definition encode_count :: "i64 \<Rightarrow> bytes" where
  "encode_count n = u64_to_le n"

definition decode_count :: "bytes \<Rightarrow> i64 option" where
  "decode_count bs = (if length bs = 8 then Some (u64_from_le bs) else None)"

section \<open>The keys of the bulk loader\<close>

text \<open>The builders reproduced in \<^verbatim>\<open>byoridb-bulkloader/src/key.rs\<close>.\<close>

definition loader_space :: "bytes \<Rightarrow> bytes" where
  "loader_space name = ascii ''space:'' @ name"

definition loader_tag :: "bytes \<Rightarrow> bytes \<Rightarrow> bytes" where
  "loader_tag sp name = ascii ''space:'' @ sp @ ascii '':tag:'' @ name"

definition loader_edge :: "bytes \<Rightarrow> bytes \<Rightarrow> bytes" where
  "loader_edge sp name = ascii ''space:'' @ sp @ ascii '':edge:'' @ name"

definition loader_vertex :: "bytes \<Rightarrow> i64 \<Rightarrow> bytes" where
  "loader_vertex sp vid = sp @ ascii '':vertex:'' @ dec_int (sint vid)"

definition loader_vertex_prefix :: "bytes \<Rightarrow> bytes" where
  "loader_vertex_prefix sp = sp @ ascii '':vertex:''"

definition loader_tagvid :: "bytes \<Rightarrow> bytes \<Rightarrow> i64 \<Rightarrow> bytes" where
  "loader_tagvid sp tag vid = sp @ ascii '':tagvid:'' @ tag @ ascii '':'' @ dec_int (sint vid)"

definition loader_tagvid_prefix :: "bytes \<Rightarrow> bytes" where
  "loader_tagvid_prefix sp = sp @ ascii '':tagvid:''"

definition loader_edge_data :: "bytes \<Rightarrow> i64 \<Rightarrow> bytes \<Rightarrow> i64 \<Rightarrow> i64 \<Rightarrow> bytes" where
  "loader_edge_data sp src edge_type dst ranking =
     sp @ ascii '':edge:'' @ dec_int (sint src) @ ascii '':'' @ edge_type @ ascii '':'' @ dec_int (sint dst) @ ascii '':'' @ dec_int (sint ranking)"

definition loader_in_edge_data :: "bytes \<Rightarrow> i64 \<Rightarrow> bytes \<Rightarrow> i64 \<Rightarrow> i64 \<Rightarrow> bytes" where
  "loader_in_edge_data sp dst edge_type src ranking =
     sp @ ascii '':in-edge:'' @ dec_int (sint dst) @ ascii '':'' @ edge_type @ ascii '':'' @ dec_int (sint src) @ ascii '':'' @ dec_int (sint ranking)"

definition loader_edge_prefix :: "bytes \<Rightarrow> bytes" where
  "loader_edge_prefix sp = sp @ ascii '':edge:''"

definition loader_in_edge_prefix :: "bytes \<Rightarrow> bytes" where
  "loader_in_edge_prefix sp = sp @ ascii '':in-edge:''"

definition loader_indeg_counter :: "bytes \<Rightarrow> bytes \<Rightarrow> i64 \<Rightarrow> bytes" where
  "loader_indeg_counter sp etype dst = sp @ ascii '':indeg:'' @ etype @ ascii '':'' @ dec_int (sint dst)"

definition loader_outdeg_counter :: "bytes \<Rightarrow> bytes \<Rightarrow> i64 \<Rightarrow> bytes" where
  "loader_outdeg_counter sp etype src = sp @ ascii '':outdeg:'' @ etype @ ascii '':'' @ dec_int (sint src)"

definition loader_encode_count :: "i64 \<Rightarrow> bytes" where
  "loader_encode_count n = u64_to_le n"

section \<open>Keys as fields\<close>

text \<open>One constructor per family of keys, its bytes and its fields.\<close>

datatype schema_key =
    SkSpace bytes
  | SkTag bytes bytes
  | SkClass bytes bytes
  | SkShape bytes bytes
  | SkEdge bytes bytes
  | SkTagIndex bytes bytes
  | SkEdgeIndex bytes bytes
  | SkVertex bytes i64
  | SkEdgeData bytes i64 bytes i64 i64
  | SkInEdge bytes i64 bytes i64 i64
  | SkVtype bytes i64 bytes
  | SkProvEdge bytes i64 bytes i64
  | SkProvVtype bytes i64 bytes
  | SkProvRev bytes i64 bytes i64
  | SkTagvid bytes bytes i64
  | SkSameas bytes i64
  | SkMember bytes i64 i64
  | SkVec bytes bytes i64
  | SkVecIndex bytes bytes
  | SkVecDirty bytes bytes
  | SkIndeg bytes bytes i64
  | SkOutdeg bytes bytes i64

fun key_bytes :: "schema_key \<Rightarrow> bytes" where
  "key_bytes (SkSpace n) = schema_space n"
| "key_bytes (SkTag p n) = schema_tag p n"
| "key_bytes (SkClass p n) = schema_class p n"
| "key_bytes (SkShape p n) = schema_shape p n"
| "key_bytes (SkEdge p n) = schema_edge p n"
| "key_bytes (SkTagIndex p n) = schema_tag_index p n"
| "key_bytes (SkEdgeIndex p n) = schema_edge_index p n"
| "key_bytes (SkVertex p a) = schema_vertex p a"
| "key_bytes (SkEdgeData p a n b c) = schema_edge_data p a n b c"
| "key_bytes (SkInEdge p a n b c) = schema_in_edge_data p a n b c"
| "key_bytes (SkVtype p a n) = schema_vtype p a n"
| "key_bytes (SkProvEdge p a n b) = schema_prov_edge p a n b"
| "key_bytes (SkProvVtype p a n) = schema_prov_vtype p a n"
| "key_bytes (SkProvRev p a n b) = schema_prov_rev_edge p a n b"
| "key_bytes (SkTagvid p n a) = schema_tagvid p n a"
| "key_bytes (SkSameas p a) = schema_sameas p a"
| "key_bytes (SkMember p a b) = schema_sameas_member p a b"
| "key_bytes (SkVec p n a) = schema_vec_data p n a"
| "key_bytes (SkVecIndex p n) = schema_vec_index p n"
| "key_bytes (SkVecDirty p n) = schema_vec_index_dirty p n"
| "key_bytes (SkIndeg p n a) = schema_indeg_counter p n a"
| "key_bytes (SkOutdeg p n a) = schema_outdeg_counter p n a"

fun key_fields :: "schema_key \<Rightarrow> bytes list" where
  "key_fields (SkSpace n) = [ascii ''space'', n]"
| "key_fields (SkTag p n) = [ascii ''space'', p, ascii ''tag'', n]"
| "key_fields (SkClass p n) = [ascii ''space'', p, ascii ''class'', n]"
| "key_fields (SkShape p n) = [ascii ''space'', p, ascii ''shape'', n]"
| "key_fields (SkEdge p n) = [ascii ''space'', p, ascii ''edge'', n]"
| "key_fields (SkTagIndex p n) = [ascii ''space'', p, ascii ''tag_index'', n]"
| "key_fields (SkEdgeIndex p n) = [ascii ''space'', p, ascii ''edge_index'', n]"
| "key_fields (SkVertex p a) = [p, ascii ''vertex'', dec_int (sint a)]"
| "key_fields (SkEdgeData p a n b c) = [p, ascii ''edge'', dec_int (sint a), n, dec_int (sint b), dec_int (sint c)]"
| "key_fields (SkInEdge p a n b c) = [p, ascii ''in-edge'', dec_int (sint a), n, dec_int (sint b), dec_int (sint c)]"
| "key_fields (SkVtype p a n) = [p, ascii ''vtype'', dec_int (sint a), n]"
| "key_fields (SkProvEdge p a n b) = [p, ascii ''prov'', ascii ''e'', dec_int (sint a), n, dec_int (sint b)]"
| "key_fields (SkProvVtype p a n) = [p, ascii ''prov'', ascii ''v'', dec_int (sint a), n]"
| "key_fields (SkProvRev p a n b) = [p, ascii ''prov-rev'', ascii ''e'', dec_int (sint a), n, dec_int (sint b)]"
| "key_fields (SkTagvid p n a) = [p, ascii ''tagvid'', n, dec_int (sint a)]"
| "key_fields (SkSameas p a) = [p, ascii ''sameas'', dec_int (sint a)]"
| "key_fields (SkMember p a b) = [p, ascii ''sameas-members'', dec_int (sint a), dec_int (sint b)]"
| "key_fields (SkVec p n a) = [p, ascii ''vec'', n, dec_int (sint a)]"
| "key_fields (SkVecIndex p n) = [p, ascii ''vecidx'', n]"
| "key_fields (SkVecDirty p n) = [p, ascii ''vecidx-dirty'', n]"
| "key_fields (SkIndeg p n a) = [p, ascii ''indeg'', n, dec_int (sint a)]"
| "key_fields (SkOutdeg p n a) = [p, ascii ''outdeg'', n, dec_int (sint a)]"

text \<open>Names are colon-free, and no space whose data is stored is called \<open>space\<close>.\<close>

fun names_ok :: "schema_key \<Rightarrow> bool" where
  "names_ok (SkSpace n) \<longleftrightarrow> 58 \<notin> set n"
| "names_ok (SkTag p n) \<longleftrightarrow> 58 \<notin> set p \<and> 58 \<notin> set n"
| "names_ok (SkClass p n) \<longleftrightarrow> 58 \<notin> set p \<and> 58 \<notin> set n"
| "names_ok (SkShape p n) \<longleftrightarrow> 58 \<notin> set p \<and> 58 \<notin> set n"
| "names_ok (SkEdge p n) \<longleftrightarrow> 58 \<notin> set p \<and> 58 \<notin> set n"
| "names_ok (SkTagIndex p n) \<longleftrightarrow> 58 \<notin> set p \<and> 58 \<notin> set n"
| "names_ok (SkEdgeIndex p n) \<longleftrightarrow> 58 \<notin> set p \<and> 58 \<notin> set n"
| "names_ok (SkVertex p a) \<longleftrightarrow> 58 \<notin> set p \<and> p \<noteq> ascii ''space''"
| "names_ok (SkEdgeData p a n b c) \<longleftrightarrow> 58 \<notin> set p \<and> 58 \<notin> set n \<and> p \<noteq> ascii ''space''"
| "names_ok (SkInEdge p a n b c) \<longleftrightarrow> 58 \<notin> set p \<and> 58 \<notin> set n \<and> p \<noteq> ascii ''space''"
| "names_ok (SkVtype p a n) \<longleftrightarrow> 58 \<notin> set p \<and> 58 \<notin> set n \<and> p \<noteq> ascii ''space''"
| "names_ok (SkProvEdge p a n b) \<longleftrightarrow> 58 \<notin> set p \<and> 58 \<notin> set n \<and> p \<noteq> ascii ''space''"
| "names_ok (SkProvVtype p a n) \<longleftrightarrow> 58 \<notin> set p \<and> 58 \<notin> set n \<and> p \<noteq> ascii ''space''"
| "names_ok (SkProvRev p a n b) \<longleftrightarrow> 58 \<notin> set p \<and> 58 \<notin> set n \<and> p \<noteq> ascii ''space''"
| "names_ok (SkTagvid p n a) \<longleftrightarrow> 58 \<notin> set p \<and> 58 \<notin> set n \<and> p \<noteq> ascii ''space''"
| "names_ok (SkSameas p a) \<longleftrightarrow> 58 \<notin> set p \<and> p \<noteq> ascii ''space''"
| "names_ok (SkMember p a b) \<longleftrightarrow> 58 \<notin> set p \<and> p \<noteq> ascii ''space''"
| "names_ok (SkVec p n a) \<longleftrightarrow> 58 \<notin> set p \<and> 58 \<notin> set n \<and> p \<noteq> ascii ''space''"
| "names_ok (SkVecIndex p n) \<longleftrightarrow> 58 \<notin> set p \<and> 58 \<notin> set n \<and> p \<noteq> ascii ''space''"
| "names_ok (SkVecDirty p n) \<longleftrightarrow> 58 \<notin> set p \<and> 58 \<notin> set n \<and> p \<noteq> ascii ''space''"
| "names_ok (SkIndeg p n a) \<longleftrightarrow> 58 \<notin> set p \<and> 58 \<notin> set n \<and> p \<noteq> ascii ''space''"
| "names_ok (SkOutdeg p n a) \<longleftrightarrow> 58 \<notin> set p \<and> 58 \<notin> set n \<and> p \<noteq> ascii ''space''"

fun join :: "'a \<Rightarrow> 'a list list \<Rightarrow> 'a list" where
  "join c [] = []"
| "join c [x] = x"
| "join c (x # y # zs) = x @ c # join c (y # zs)"

lemmas schema_key_defs =
  schema_space_def schema_tag_def schema_class_def schema_shape_def
  schema_edge_def schema_tag_index_def schema_edge_index_def schema_vertex_def
  schema_edge_data_def schema_in_edge_data_def schema_vtype_def schema_prov_edge_def
  schema_prov_vtype_def schema_prov_rev_edge_def schema_tagvid_def schema_sameas_def
  schema_sameas_member_def schema_vec_data_def schema_vec_index_def schema_vec_index_dirty_def
  schema_indeg_counter_def schema_outdeg_counter_def

lemma of_char_u8: "(of_char a :: u8) = of_nat (of_char a)"
  by (cases a) (simp add: of_char_def)

lemma of_char_u8_inject [simp]: "(of_char a :: u8) = of_char b \<longleftrightarrow> a = b"
proof
  assume "(of_char a :: u8) = of_char b"
  then have "unat (of_nat (of_char a) :: u8) = unat (of_nat (of_char b) :: u8)" by (simp only: of_char_u8)
  then have "(of_char a :: nat) = of_char b" by (simp only: unat_of_nat) simp
  then show "a = b" by simp
qed simp

lemma ascii_inject [simp]: "ascii s = ascii t \<longleftrightarrow> s = t"
  unfolding ascii_def by (rule inj_map_eq_map) (simp add: inj_on_def)

lemma ascii_append: "ascii (s @ t) = ascii s @ ascii t"
  by (simp add: ascii_def)

lemma key_bytes_join: "key_bytes k = join 58 (key_fields k)"
  by (cases k) (simp_all add: schema_key_defs ascii_def)

lemma names_ok_fields: "names_ok k \<Longrightarrow> f \<in> set (key_fields k) \<Longrightarrow> 58 \<notin> set f"
  by (cases k) (auto simp: ascii_def)

lemma join_inject:
  assumes "\<And>x. x \<in> set xs \<Longrightarrow> c \<notin> set x" and "\<And>y. y \<in> set ys \<Longrightarrow> c \<notin> set y"
    and "xs \<noteq> []" and "ys \<noteq> []" and "join c xs = join c ys"
  shows "xs = ys"
  using assms
proof (induction c xs arbitrary: ys rule: join.induct)
  case (2 c x)
  then show ?case by (cases "(c, ys)" rule: join.cases) auto
next
  case (3 c x y zs)
  then obtain u v ws where ys: "ys = u # v # ws"
    by (cases "(c, ys)" rule: join.cases) auto
  have "x @ c # join c (y # zs) = u @ c # join c (v # ws)" using 3 ys by simp
  then have "x = u \<and> join c (y # zs) = join c (v # ws)"
    using append_sep_inject [of c x u] "3.prems"(1) [of x] "3.prems"(2) [of u] ys by simp
  moreover have "y # zs = v # ws" by (rule "3.IH") (use "3.prems" ys calculation in auto)
  ultimately show ?case using ys by simp
qed simp

lemma key_fields_inject: "names_ok k \<Longrightarrow> names_ok k' \<Longrightarrow> key_fields k = key_fields k' \<Longrightarrow> k = k'"
  by (cases k; cases k'; simp add: i64_eq_sint)

section \<open>Prefixes: lemmas\<close>

lemma join_Cons: "xs \<noteq> [] \<Longrightarrow> join c (x # xs) = x @ c # join c xs"
  by (cases xs) auto

lemma starts_with_join:
  assumes "\<And>x. x \<in> set fs \<Longrightarrow> c \<notin> set x" and "\<And>y. y \<in> set ps \<Longrightarrow> c \<notin> set y" and "fs \<noteq> []"
  shows "starts_with (join c fs) (concat (map (\<lambda>p. p @ [c]) ps)) \<longleftrightarrow> ps = [] \<or> length ps < length fs \<and> take (length ps) fs = ps"
  using assms
proof (induction ps arbitrary: fs)
  case (Cons p ps)
  then obtain f gs where fs: "fs = f # gs" by (cases fs) auto
  have "c \<notin> set f" and "c \<notin> set p" using Cons.prems fs by auto
  show ?case
  proof (cases "gs = []")
    case True
    have "\<not> starts_with f (p @ c # x)" for x using \<open>c \<notin> set f\<close> by (auto simp: starts_with_iff)
    with True fs show ?thesis by auto
  next
    case False
    then have "starts_with (join c fs) (concat (map (\<lambda>p. p @ [c]) (p # ps))) \<longleftrightarrow>
        f = p \<and> starts_with (join c gs) (concat (map (\<lambda>p. p @ [c]) ps))"
      using starts_with_sep [OF \<open>c \<notin> set f\<close> \<open>c \<notin> set p\<close>] by (simp add: fs join_Cons)
    also have "\<dots> \<longleftrightarrow> f = p \<and> (ps = [] \<or> length ps < length gs \<and> take (length ps) gs = ps)"
      using Cons.IH [of gs] Cons.prems False fs by simp
    finally show ?thesis using fs False by (cases ps) auto
  qed
qed simp

text \<open>A prefix that ends with a colon selects the keys whose first fields are those of the prefix.\<close>

lemma starts_with_fields:
  assumes "names_ok k" and "\<And>y. y \<in> set ps \<Longrightarrow> 58 \<notin> set y" and "ps \<noteq> []"
    and "b = concat (map (\<lambda>p. p @ [58]) ps)"
  shows "starts_with (key_bytes k) b \<longleftrightarrow> length ps < length (key_fields k) \<and> take (length ps) (key_fields k) = ps"
proof -
  have "key_fields k \<noteq> []" by (cases k) auto
  then show ?thesis
    using starts_with_join [of "key_fields k" 58 ps] names_ok_fields [OF assms(1)] assms(2-4) by (simp add: key_bytes_join)
qed

text \<open>The fields a prefix fixes, for each prefix of the sources.\<close>

lemma prefix_fields:
  "schema_tag_prefix p = concat (map (\<lambda>p. p @ [58]) [ascii ''space'', p, ascii ''tag''])"
  "schema_class_prefix p = concat (map (\<lambda>p. p @ [58]) [ascii ''space'', p, ascii ''class''])"
  "schema_shape_prefix p = concat (map (\<lambda>p. p @ [58]) [ascii ''space'', p, ascii ''shape''])"
  "schema_edge_prefix p = concat (map (\<lambda>p. p @ [58]) [ascii ''space'', p, ascii ''edge''])"
  "schema_vertex_prefix p = concat (map (\<lambda>p. p @ [58]) [p, ascii ''vertex''])"
  "schema_edge_data_src_prefix p a = concat (map (\<lambda>p. p @ [58]) [p, ascii ''edge'', dec_int (sint a)])"
  "schema_in_edge_data_dst_prefix p a = concat (map (\<lambda>p. p @ [58]) [p, ascii ''in-edge'', dec_int (sint a)])"
  "schema_vtype_prefix p a = concat (map (\<lambda>p. p @ [58]) [p, ascii ''vtype'', dec_int (sint a)])"
  "schema_prov_prefix p = concat (map (\<lambda>p. p @ [58]) [p, ascii ''prov''])"
  "schema_prov_rev_prefix p = concat (map (\<lambda>p. p @ [58]) [p, ascii ''prov-rev''])"
  "schema_sameas_members_prefix p a = concat (map (\<lambda>p. p @ [58]) [p, ascii ''sameas-members'', dec_int (sint a)])"
  "schema_vec_data_prop_prefix p m = concat (map (\<lambda>p. p @ [58]) [p, ascii ''vec'', m])"
  "loader_vertex_prefix p = concat (map (\<lambda>p. p @ [58]) [p, ascii ''vertex''])"
  "loader_edge_prefix p = concat (map (\<lambda>p. p @ [58]) [p, ascii ''edge''])"
  "loader_in_edge_prefix p = concat (map (\<lambda>p. p @ [58]) [p, ascii ''in-edge''])"
  "loader_tagvid_prefix p = concat (map (\<lambda>p. p @ [58]) [p, ascii ''tagvid''])"
  by (simp_all add: schema_tag_prefix_def schema_class_prefix_def schema_shape_prefix_def schema_edge_prefix_def
        schema_vertex_prefix_def schema_edge_data_src_prefix_def schema_in_edge_data_dst_prefix_def schema_vtype_prefix_def
        schema_prov_prefix_def schema_prov_rev_prefix_def schema_sameas_members_prefix_def schema_vec_data_prop_prefix_def
        loader_vertex_prefix_def loader_edge_prefix_def loader_in_edge_prefix_def loader_tagvid_prefix_def ascii_def)

lemma ascii_no_colon: "CHR '':'' \<notin> set s \<Longrightarrow> 58 \<notin> set (ascii s)"
proof -
  have "(of_char CHR '':'' :: u8) = 58" by simp
  then show "CHR '':'' \<notin> set s \<Longrightarrow> 58 \<notin> set (ascii s)"
    unfolding ascii_def by (metis (no_types, lifting) image_iff list.set_map of_char_u8_inject)
qed

lemma scan_prefixes:
  assumes "names_ok k" and "58 \<notin> set p" and "58 \<notin> set m" and "p \<noteq> ascii ''space''"
  shows
    "starts_with (key_bytes k) (schema_tag_prefix p) \<longleftrightarrow> (\<exists>n. k = SkTag p n)"
    "starts_with (key_bytes k) (schema_class_prefix p) \<longleftrightarrow> (\<exists>n. k = SkClass p n)"
    "starts_with (key_bytes k) (schema_shape_prefix p) \<longleftrightarrow> (\<exists>n. k = SkShape p n)"
    "starts_with (key_bytes k) (schema_edge_prefix p) \<longleftrightarrow> (\<exists>n. k = SkEdge p n)"
    "starts_with (key_bytes k) (schema_vertex_prefix p) \<longleftrightarrow> (\<exists>a. k = SkVertex p a)"
    "starts_with (key_bytes k) (schema_edge_data_src_prefix p a) \<longleftrightarrow> (\<exists>n b c. k = SkEdgeData p a n b c)"
    "starts_with (key_bytes k) (schema_in_edge_data_dst_prefix p a) \<longleftrightarrow> (\<exists>n b c. k = SkInEdge p a n b c)"
    "starts_with (key_bytes k) (schema_vtype_prefix p a) \<longleftrightarrow> (\<exists>n. k = SkVtype p a n)"
    "starts_with (key_bytes k) (schema_prov_prefix p) \<longleftrightarrow> (\<exists>a n b. k = SkProvEdge p a n b \<or> k = SkProvVtype p a n)"
    "starts_with (key_bytes k) (schema_prov_rev_prefix p) \<longleftrightarrow> (\<exists>a n b. k = SkProvRev p a n b)"
    "starts_with (key_bytes k) (schema_sameas_members_prefix p a) \<longleftrightarrow> (\<exists>b. k = SkMember p a b)"
    "starts_with (key_bytes k) (schema_vec_data_prop_prefix p m) \<longleftrightarrow> (\<exists>a. k = SkVec p m a)"
    "starts_with (key_bytes k) (loader_vertex_prefix p) \<longleftrightarrow> (\<exists>a. k = SkVertex p a)"
    "starts_with (key_bytes k) (loader_edge_prefix p) \<longleftrightarrow> (\<exists>a n b c. k = SkEdgeData p a n b c)"
    "starts_with (key_bytes k) (loader_in_edge_prefix p) \<longleftrightarrow> (\<exists>a n b c. k = SkInEdge p a n b c)"
    "starts_with (key_bytes k) (loader_tagvid_prefix p) \<longleftrightarrow> (\<exists>n a. k = SkTagvid p n a)"
  using assms
  apply -
  subgoal by (subst starts_with_fields [OF _ _ _ prefix_fields(1)]) (auto simp: ascii_no_colon, (cases k; auto simp: i64_eq_sint)+)
  subgoal by (subst starts_with_fields [OF _ _ _ prefix_fields(2)]) (auto simp: ascii_no_colon, (cases k; auto simp: i64_eq_sint)+)
  subgoal by (subst starts_with_fields [OF _ _ _ prefix_fields(3)]) (auto simp: ascii_no_colon, (cases k; auto simp: i64_eq_sint)+)
  subgoal by (subst starts_with_fields [OF _ _ _ prefix_fields(4)]) (auto simp: ascii_no_colon, (cases k; auto simp: i64_eq_sint)+)
  subgoal by (subst starts_with_fields [OF _ _ _ prefix_fields(5)]) (auto simp: ascii_no_colon, (cases k; auto simp: i64_eq_sint)+)
  subgoal by (subst starts_with_fields [OF _ _ _ prefix_fields(6)]) (auto simp: ascii_no_colon, (cases k; auto simp: i64_eq_sint)+)
  subgoal by (subst starts_with_fields [OF _ _ _ prefix_fields(7)]) (auto simp: ascii_no_colon, (cases k; auto simp: i64_eq_sint)+)
  subgoal by (subst starts_with_fields [OF _ _ _ prefix_fields(8)]) (auto simp: ascii_no_colon, (cases k; auto simp: i64_eq_sint)+)
  subgoal by (subst starts_with_fields [OF _ _ _ prefix_fields(9)]) (auto simp: ascii_no_colon, (cases k; auto simp: i64_eq_sint)+)
  subgoal by (subst starts_with_fields [OF _ _ _ prefix_fields(10)]) (auto simp: ascii_no_colon, (cases k; auto simp: i64_eq_sint)+)
  subgoal by (subst starts_with_fields [OF _ _ _ prefix_fields(11)]) (auto simp: ascii_no_colon, (cases k; auto simp: i64_eq_sint)+)
  subgoal by (subst starts_with_fields [OF _ _ _ prefix_fields(12)]) (auto simp: ascii_no_colon, (cases k; auto simp: i64_eq_sint)+)
  subgoal by (subst starts_with_fields [OF _ _ _ prefix_fields(13)]) (auto simp: ascii_no_colon, (cases k; auto simp: i64_eq_sint)+)
  subgoal by (subst starts_with_fields [OF _ _ _ prefix_fields(14)]) (auto simp: ascii_no_colon, (cases k; auto simp: i64_eq_sint)+)
  subgoal by (subst starts_with_fields [OF _ _ _ prefix_fields(15)]) (auto simp: ascii_no_colon, (cases k; auto simp: i64_eq_sint)+)
  subgoal by (subst starts_with_fields [OF _ _ _ prefix_fields(16)]) (auto simp: ascii_no_colon, (cases k; auto simp: i64_eq_sint)+)
  done

section \<open>Properties\<close>

text \<open>
  C37. No two keys of metadata or graph data are equal: the bytes of a key determine its family and all
  its arguments, when names have no colon and no space that holds data is called \<open>space\<close>.
\<close>

theorem schema_keys_distinct:
  assumes "names_ok k" and "names_ok k'"
  shows "key_bytes k = key_bytes k' \<longleftrightarrow> k = k'"
proof
  assume "key_bytes k = key_bytes k'"
  moreover have "key_fields k \<noteq> []" "key_fields k' \<noteq> []" by (cases k; simp) (cases k'; simp)
  ultimately have "key_fields k = key_fields k'"
    using join_inject [of "key_fields k" 58 "key_fields k'"] names_ok_fields assms by (simp add: key_bytes_join)
  with assms show "k = k'" by (rule key_fields_inject)
qed simp

theorem schema_keys_distinct_witness:
  "key_bytes (SkVertex (ascii ''g'') 12) \<noteq> key_bytes (SkEdgeData (ascii ''g'') 1 (ascii ''e'') 2 0)"
proof -
  have "names_ok (SkVertex (ascii ''g'') 12)" "names_ok (SkEdgeData (ascii ''g'') 1 (ascii ''e'') 2 0)"
    by (simp_all add: ascii_no_colon)
  then show ?thesis
    using schema_keys_distinct [of "SkVertex (ascii ''g'') 12" "SkEdgeData (ascii ''g'') 1 (ascii ''e'') 2 0"] by simp
qed



text \<open>
  What the keys were built from is read back: the class of an inferred type, the member of a representative, the
  vertex of an embedding and the value of a degree counter.
\<close>

theorem schema_key_fields_roundtrip:
  assumes "utf8_valid p" and "utf8_valid n" and "58 \<notin> set n"
  shows "vtype_class_from_key (schema_vtype p a n) = Some n \<and>
    sameas_member_from_key (schema_sameas_member p a b) = Some b \<and>
    vec_data_vid_from_key (schema_vec_data p n a) = Some a \<and>
    decode_count (encode_count a) = Some a \<and>
    (length bs \<noteq> 8 \<longrightarrow> decode_count bs = None)"
proof -
  have v: "utf8_valid (ascii s)" if "list_all (\<lambda>c. (of_char c :: u8) < 128) s" for s
    using that by (intro utf8_valid_ascii) (simp add: ascii_def list.pred_map comp_def)
  have d: "utf8_valid (dec_int i)" for i
  proof -
    have "is_digit c \<Longrightarrow> c < 128" for c :: u8 by (rule le_less_trans [of _ 57]) (simp_all add: is_digit_def)
    then have "list_all (\<lambda>b. b < 128) (dec_nat n)" for n using dec_nat_digits [of n] by (auto simp: list_all_iff)
    then show ?thesis by (intro utf8_valid_ascii) (simp add: dec_int_def)
  qed
  have l: "last_segment 58 (x @ ascii '':'' @ y) = y" if "58 \<notin> set y" for x y
    using last_segment_append [OF that, of x] by (simp add: ascii_def)
  have "utf8_valid (schema_vtype p a n)" "utf8_valid (schema_sameas_member p a b)" "utf8_valid (schema_vec_data p n a)"
    unfolding schema_key_defs using assms d v by (intro utf8_valid_append; simp)+
  moreover have "last_segment 58 (schema_vtype p a n) = n" "last_segment 58 (schema_sameas_member p a b) = dec_int (sint b)"
    "last_segment 58 (schema_vec_data p n a) = dec_int (sint a)"
    using assms(3) l [where x = "p @ ascii '':vtype:'' @ dec_int (sint a)" and y = n]
      l [where x = "p @ ascii '':sameas-members:'' @ dec_int (sint a)" and y = "dec_int (sint b)"]
      l [where x = "p @ ascii '':vec:'' @ n" and y = "dec_int (sint a)"]
    by (simp_all add: schema_key_defs)
  ultimately show ?thesis
    by (simp add: vtype_class_from_key_def sameas_member_from_key_def vec_data_vid_from_key_def parse_i64_dec encode_count_def decode_count_def)
qed

theorem schema_key_fields_roundtrip_witness:
  "vtype_class_from_key (schema_vtype (ascii ''g'') 7 (ascii ''Person'')) = Some (ascii ''Person'')"
proof -
  have "utf8_valid (ascii ''g'')" "utf8_valid (ascii ''Person'')"
    by (auto intro!: utf8_valid_ascii simp: ascii_def)
  then show ?thesis
    using schema_key_fields_roundtrip [of "ascii ''g''" "ascii ''Person''" 7 1 "[]"] by (simp add: ascii_no_colon)
qed

text \<open>
  A space called \<open>space\<close>, which the grammar accepts, has its vertices under the prefix of the schema of a space
  called \<open>vertex\<close>: a scan of the vertices of the first meets the tags of the second.
\<close>

theorem space_named_space:
  "starts_with (schema_tag (ascii ''vertex'') n) (schema_vertex_prefix (ascii ''space''))"
  by (simp add: starts_with_iff schema_tag_def schema_vertex_prefix_def ascii_def)

end
