(* ===== verification/Partition.thy ===== *)
theory Partition
  imports Strings
begin

unbundle bit_operations_syntax

text \<open>
  Partition routing: the hash functions (\<^verbatim>\<open>byoridb-common/src/hash/murmur.rs\<close>) and the partition strategies
  (\<^verbatim>\<open>byoridb-common/src/partition.rs\<close>). Partition numbers start at 1.

  The lemmas show that the vertex hash is a bijection on 64-bit words, that every strategy stays within the partitions,
  and that range partitioning sends a vertex to the interval its validated boundaries describe.
\<close>

section \<open>Hash functions\<close>

definition xor_shift :: "u64 \<Rightarrow> u64" where
  "xor_shift h = h XOR drop_bit 33 h"

definition hash_vid :: "i64 \<Rightarrow> u64" where
  "hash_vid vid = xor_shift (xor_shift (xor_shift vid * 0xff51afd7ed558ccd) * 0xc4ceb9fe1a85ec53)"

definition hash_chunk :: "u64 \<Rightarrow> bytes \<Rightarrow> u64" where
  "hash_chunk h chunk =
     (let v = u64_from_le (chunk @ replicate (8 - length chunk) 0)
      in xor_shift (xor_shift (h XOR v) * 0xff51afd7ed558ccd) * 0xc4ceb9fe1a85ec53)"

definition hash_bytes :: "bytes \<Rightarrow> u64" where
  "hash_bytes data = xor_shift (foldl hash_chunk 0 (chunks 8 data))"

definition compute_partition :: "i64 \<Rightarrow> u32 \<Rightarrow> u32" where
  "compute_partition vid partition_num =
     (if partition_num = 0 then 1 else ucast (hash_vid vid mod ucast partition_num) + 1)"

section \<open>Partition strategies\<close>

datatype partition_strategy =
    Hash
  | Range "i64 list"
  | Modulo

fun comma_separated :: "i64 list \<Rightarrow> bytes" where
  "comma_separated [] = []"
| "comma_separated [b] = dec_int (sint b)"
| "comma_separated (b # c # bs) = dec_int (sint b) @ ascii '', '' @ comma_separated (c # bs)"

fun display_strategy :: "partition_strategy \<Rightarrow> bytes" where
  "display_strategy Hash = ascii ''HASH''"
| "display_strategy (Range boundaries) = ascii ''RANGE('' @ comma_separated boundaries @ ascii '')''"
| "display_strategy Modulo = ascii ''MODULO''"

fun range_partition :: "i64 \<Rightarrow> nat \<Rightarrow> i64 list \<Rightarrow> u32" where
  "range_partition vid i [] = of_nat i + 1"
| "range_partition vid i (boundary # bs) = (if sint vid < sint boundary then of_nat i + 1 else range_partition vid (Suc i) bs)"

fun strategy_partition :: "partition_strategy \<Rightarrow> i64 \<Rightarrow> u32 \<Rightarrow> u32" where
  "strategy_partition strategy vid partition_num =
     (if partition_num = 0 then 1
      else case strategy of
             Hash \<Rightarrow> compute_partition vid partition_num
           | Range boundaries \<Rightarrow> range_partition vid 0 boundaries
           | Modulo \<Rightarrow> (let vid_abs = (if sint vid < 0 then - vid else vid) in ucast (vid_abs mod ucast partition_num) + 1))"

fun check_increasing :: "i64 list \<Rightarrow> bytes + unit" where
  "check_increasing (a # b # bs) =
     (if sint b \<le> sint a
      then Inl (ascii ''Range boundaries must be strictly increasing: '' @ dec_int (sint b) @ ascii '' is not > '' @ dec_int (sint a))
      else check_increasing (b # bs))"
| "check_increasing bs = Inr ()"

definition validate_strategy :: "partition_strategy \<Rightarrow> u32 \<Rightarrow> bytes + unit" where
  "validate_strategy strategy partition_num =
     (if partition_num = 0 then Inl (ascii ''partition_num must be greater than 0'')
      else case strategy of
             Hash \<Rightarrow> Inr ()
           | Range boundaries \<Rightarrow>
              (let expected = unat partition_num - 1
               in if length boundaries \<noteq> expected
                  then Inl (ascii ''Range strategy requires '' @ dec_nat expected @ ascii '' boundaries for '' @
                            dec_nat (unat partition_num) @ ascii '' partitions, but got '' @ dec_nat (length boundaries))
                  else check_increasing boundaries)
           | Modulo \<Rightarrow> Inr ())"

definition is_hash :: "partition_strategy \<Rightarrow> bool" where
  "is_hash s = (case s of Hash \<Rightarrow> True | _ \<Rightarrow> False)"

definition is_range :: "partition_strategy \<Rightarrow> bool" where
  "is_range s = (case s of Range _ \<Rightarrow> True | _ \<Rightarrow> False)"

definition is_modulo :: "partition_strategy \<Rightarrow> bool" where
  "is_modulo s = (case s of Modulo \<Rightarrow> True | _ \<Rightarrow> False)"

section \<open>Hash functions: lemmas\<close>

lemma xor_shift_twice: "xor_shift (xor_shift h) = h"
  by (rule bit_word_eqI) (auto simp: xor_shift_def bit_simps)

lemma xor_shift_inject [simp]: "xor_shift a = xor_shift b \<longleftrightarrow> a = b"
  by (metis xor_shift_twice)

text \<open>Both multipliers are odd, so multiplication by them is undone by their inverses modulo 2^64.\<close>

lemma multipliers_invertible:
  "(0xff51afd7ed558ccd :: u64) * 5725274745694666757 = 1" "(0xc4ceb9fe1a85ec53 :: u64) * 11291846944257947611 = 1"
  by simp_all

lemma mult_inject:
  assumes "(m :: u64) * i = 1"
  shows "a * m = b * m \<longleftrightarrow> a = b"
proof
  assume "a * m = b * m"
  then have "a * (m * i) = b * (m * i)" by (simp only: mult.assoc [symmetric])
  with assms show "a = b" by simp
qed simp

lemma hash_vid_inject: "hash_vid a = hash_vid b \<longleftrightarrow> a = b"
  by (simp add: hash_vid_def mult_inject [OF multipliers_invertible(1)] mult_inject [OF multipliers_invertible(2)])

section \<open>Partitions: lemmas\<close>

lemma unat_ucast_u32: "unat (ucast (w :: u64) :: u32) = unat w mod 4294967296"
  by (simp add: unsigned_ucast_eq take_bit_eq_mod)

lemma mod_partition_bounds:
  assumes "partition_num \<noteq> 0"
  shows "1 \<le> (ucast (h mod ucast partition_num) + 1 :: u32)" "(ucast (h mod ucast partition_num) + 1 :: u32) \<le> partition_num"
    "unat (ucast (h mod ucast partition_num) + 1 :: u32) = unat (h :: u64) mod unat partition_num + 1"
proof -
  have n: "0 < unat partition_num" using assms by (simp add: unat_gt_0)
  have u: "unat (ucast partition_num :: u64) = unat partition_num" by (simp add: unsigned_ucast_eq take_bit_nat_eq_self unat_u32_bound [THEN less_trans])
  have m: "unat h mod unat partition_num < unat partition_num" using n by simp
  then have m': "unat h mod unat partition_num + 1 < 4294967296" using unat_u32_bound [of partition_num] by simp
  have c: "unat (ucast (h mod ucast partition_num) :: u32) = unat h mod unat partition_num"
  proof -
    have "unat (h mod ucast partition_num) = unat h mod unat partition_num" by (simp only: unat_mod u)
    with m' show ?thesis by (simp only: unat_ucast_u32 mod_less Suc_eq_plus1 [symmetric] Suc_lessD)
  qed
  show e: "unat (ucast (h mod ucast partition_num) + 1 :: u32) = unat h mod unat partition_num + 1"
    using m' by (simp add: unat_word_ariths c)
  show "1 \<le> (ucast (h mod ucast partition_num) + 1 :: u32)" by (simp add: word_le_nat_alt e)
  show "(ucast (h mod ucast partition_num) + 1 :: u32) \<le> partition_num"
    using m by (simp only: word_le_nat_alt e)
qed

text \<open>The index of the interval of \<open>vid\<close>: how many boundaries are at or below it.\<close>

lemma range_partition_eq:
  "range_partition vid i bs = of_nat (i + length (takeWhile (\<lambda>b. sint b \<le> sint vid) bs)) + 1"
  by (induction bs arbitrary: i) auto

lemma check_increasing_iff: "check_increasing bs = Inr () \<longleftrightarrow> sorted_wrt (<) (map sint bs)"
proof (induction bs rule: check_increasing.induct)
  case (1 a b bs)
  then show ?case by (auto simp: not_le) 
qed auto

lemma validate_range:
  "validate_strategy (Range bs) n = Inr () \<longleftrightarrow> n \<noteq> 0 \<and> length bs + 1 = unat n \<and> sorted_wrt (<) (map sint bs)"
  by (auto simp: validate_strategy_def Let_def check_increasing_iff unat_gt_0 [symmetric] simp del: unat_gt_0)

section \<open>Properties\<close>

text \<open>
  Distinct vertex ids have distinct hashes: the hash before reduction is a bijection.
\<close>

theorem hash_vid_bijective: "bij hash_vid"
proof -
  have "inj hash_vid" by (simp add: inj_def hash_vid_inject)
  then show ?thesis by (simp add: bij_def finite_UNIV_inj_surj)
qed

text \<open>
  A validated strategy routes every vertex to one of the partitions 1 to \<open>partition_num\<close>.
\<close>

theorem partition_bounds:
  assumes "validate_strategy strategy n = Inr ()"
  shows "1 \<le> strategy_partition strategy vid n \<and> strategy_partition strategy vid n \<le> n"
proof (cases strategy)
  case Hash
  with assms have "n \<noteq> 0" by (auto simp: validate_strategy_def)
  with Hash show ?thesis using mod_partition_bounds(1,2) [of n "hash_vid vid"] by (simp add: compute_partition_def)
next
  case Modulo
  with assms have "n \<noteq> 0" by (auto simp: validate_strategy_def)
  with Modulo show ?thesis using mod_partition_bounds(1,2) [of n] by (simp add: Let_def)
next
  case (Range bs)
  let ?k = "length (takeWhile (\<lambda>b. sint b \<le> sint vid) bs)"
  from assms Range have n: "n \<noteq> 0" "length bs + 1 = unat n" by (simp_all add: validate_range)
  have k: "?k + 1 \<le> unat n" using length_takeWhile_le [of "\<lambda>b. sint b \<le> sint vid" bs] n(2) by simp
  then have "unat (of_nat ?k + 1 :: u32) = ?k + 1"
    using unat_u32_bound [of n] by (simp add: unat_word_ariths unat_of_nat)
  with k n(1) Range show ?thesis by (simp add: range_partition_eq word_le_nat_alt)
qed

theorem partition_bounds_witness:
  "1 \<le> strategy_partition (Range [10, 20]) 15 3 \<and> strategy_partition (Range [10, 20]) 15 3 \<le> 3"
proof -
  have "validate_strategy (Range [10, 20]) 3 = Inr ()" by code_simp
  then show ?thesis using partition_bounds [of "Range [10, 20]" 3 15] by simp
qed

text \<open>
  Under validated boundaries range partitioning is interval lookup: a vertex is in partition \<open>i + 1\<close> exactly when it is at or
  above the boundary before and below the boundary after.
\<close>

theorem range_partition_interval:
  assumes "validate_strategy (Range bs) n = Inr ()" and "i \<le> length bs"
  shows "strategy_partition (Range bs) vid n = of_nat i + 1 \<longleftrightarrow>
    (0 < i \<longrightarrow> sint (bs ! (i - 1)) \<le> sint vid) \<and> (i < length bs \<longrightarrow> sint vid < sint (bs ! i))"
proof -
  let ?P = "\<lambda>b. sint b \<le> sint vid"
  let ?k = "length (takeWhile ?P bs)"
  from assms have n: "n \<noteq> 0" "length bs + 1 = unat n" and s: "sorted_wrt (<) (map sint bs)" by (simp_all add: validate_range)
  have k: "?k \<le> length bs" by (rule length_takeWhile_le)
  have "strategy_partition (Range bs) vid n = of_nat i + 1 \<longleftrightarrow> (of_nat ?k :: u32) = of_nat i"
    using n by (simp add: range_partition_eq)
  also have "\<dots> \<longleftrightarrow> ?k = i"
    using k assms(2) n(2) unat_u32_bound [of n] by (simp add: word_unat_eq_iff unat_of_nat)
  also have "\<dots> \<longleftrightarrow> (0 < i \<longrightarrow> ?P (bs ! (i - 1))) \<and> (i < length bs \<longrightarrow> \<not> ?P (bs ! i))"
  proof
    assume "?k = i"
    then show "(0 < i \<longrightarrow> ?P (bs ! (i - 1))) \<and> (i < length bs \<longrightarrow> \<not> ?P (bs ! i))"
      using nth_length_takeWhile [of ?P bs] takeWhile_nth [of "i - 1" ?P bs] set_takeWhileD [of "bs ! (i - 1)" ?P bs]
      by (metis One_nat_def diff_Suc_less nth_mem)
  next
    assume r: "(0 < i \<longrightarrow> ?P (bs ! (i - 1))) \<and> (i < length bs \<longrightarrow> \<not> ?P (bs ! i))"
    have "?P (bs ! j)" if "j < i" for j
    proof -
      have "sint (bs ! j) \<le> sint (bs ! (i - 1))"
        using sorted_nth_mono [OF strict_sorted_imp_sorted [OF s], of j "i - 1"] that assms(2) by simp
      with r that show ?thesis by simp
    qed
    then have "takeWhile ?P bs = take i bs" using r by (intro takeWhile_eq_take_P_nth) auto
    then show "?k = i" using assms(2) by simp
  qed
  finally show ?thesis by (simp add: not_le)
qed

theorem range_partition_interval_witness:
  "strategy_partition (Range [10, 20]) 15 3 = of_nat 1 + 1"
proof -
  have "validate_strategy (Range [10, 20]) 3 = Inr ()" by code_simp
  then show ?thesis using range_partition_interval [of "[10, 20]" 3 1 15] by simp
qed

end
