(* ===== verification/HashRing.thy ===== *)
theory HashRing
  imports Partition Btree
begin

text \<open>
  The consistent hash ring that assigns partitions to storage hosts (\<^verbatim>\<open>byoridb-common/src/hash/consistent_ring.rs\<close>).
  The ring is the ordered map from positions to (node, virtual node number). The iteration order of a \<open>HashSet\<close>
  in \<open>compute_migrations\<close> is a parameter \<open>iter\<close>, an enumeration of the set without repetitions.

  The lemmas show that the ring invariant survives adding and removing nodes, that replicas are distinct nodes of
  the ring with the primary first, that adding a node moves primaries to that node only and removing
  one moves its own only, and that every partition is assigned.
\<close>

section \<open>Definitions\<close>

record ring_config =
  virtual_nodes :: u32

definition ring_config_default :: ring_config where
  "ring_config_default = \<lparr>virtual_nodes = 150\<rparr>"

record ring_node =
  rn_host :: bytes
  rn_port :: u32

definition ring_node_new :: "bytes \<Rightarrow> u32 \<Rightarrow> ring_node" where
  "ring_node_new host port = \<lparr>rn_host = host, rn_port = port\<rparr>"

definition ring_node_id :: "ring_node \<Rightarrow> bytes" where
  "ring_node_id n = rn_host n @ ascii '':'' @ dec_nat (unat (rn_port n))"

definition ring_node_from :: "bytes \<times> u32 \<Rightarrow> ring_node" where
  "ring_node_from p = \<lparr>rn_host = fst p, rn_port = snd p\<rparr>"

record partition_assignment =
  pa_part_id :: u32
  pa_primary :: ring_node
  pa_replicas :: "ring_node list"

definition all_hosts :: "partition_assignment \<Rightarrow> (bytes \<times> u32) list" where
  "all_hosts a = (rn_host (pa_primary a), rn_port (pa_primary a)) # map (\<lambda>r. (rn_host r, rn_port r)) (pa_replicas a)"

record migration_task =
  mt_part_id :: u32
  mt_from :: ring_node
  mt_to :: ring_node
  mt_is_primary :: bool

type_synonym ring_map = "(u64, ring_node \<times> u32) btree"

record consistent_hash_ring =
  ch_config :: ring_config
  ch_ring :: ring_map
  ch_nodes :: "ring_node list"
  ch_partition_num :: u32
  ch_replica_factor :: u32
  ch_assignments_cache :: "partition_assignment list option"

definition ring_new :: "u32 \<Rightarrow> u32 \<Rightarrow> ring_config \<Rightarrow> consistent_hash_ring" where
  "ring_new partition_num replica_factor config =
     \<lparr>ch_config = config, ch_ring = [], ch_nodes = [], ch_partition_num = partition_num,
      ch_replica_factor = replica_factor, ch_assignments_cache = None\<rparr>"

definition vnode_hash :: "ring_node \<Rightarrow> nat \<Rightarrow> u64" where
  "vnode_hash node vn = hash_bytes (ring_node_id node @ ascii ''#'' @ dec_nat vn)"

definition ring_add_node :: "ring_node \<Rightarrow> consistent_hash_ring \<Rightarrow> consistent_hash_ring" where
  "ring_add_node node r =
     (if node \<in> set (ch_nodes r) then r
      else r\<lparr>ch_ring := fold (\<lambda>vn. btree_insert (vnode_hash node vn) (node, of_nat vn))
                             [0..<unat (virtual_nodes (ch_config r))] (ch_ring r),
             ch_nodes := ch_nodes r @ [node],
             ch_assignments_cache := None\<rparr>)"

definition ring_remove_node :: "ring_node \<Rightarrow> consistent_hash_ring \<Rightarrow> consistent_hash_ring" where
  "ring_remove_node node r =
     (if node \<notin> set (ch_nodes r) then r
      else r\<lparr>ch_ring := fold (\<lambda>vn. btree_remove (vnode_hash node vn))
                             [0..<unat (virtual_nodes (ch_config r))] (ch_ring r),
             ch_nodes := filter (\<lambda>n. n \<noteq> node) (ch_nodes r),
             ch_assignments_cache := None\<rparr>)"

definition ring_from_hosts :: "u32 \<Rightarrow> u32 \<Rightarrow> (bytes \<times> u32) list \<Rightarrow> ring_config \<Rightarrow> consistent_hash_ring" where
  "ring_from_hosts partition_num replica_factor hosts config =
     fold (\<lambda>h. ring_add_node (ring_node_new (fst h) (snd h))) hosts (ring_new partition_num replica_factor config)"

definition ring_first :: "ring_map \<Rightarrow> u64 \<Rightarrow> (u64 \<times> ring_node \<times> u32) option" where
  "ring_first m hash =
     (case btree_from m hash of
        e # _ \<Rightarrow> Some e
      | [] \<Rightarrow> (case m of e # _ \<Rightarrow> Some e | [] \<Rightarrow> None))"

definition ring_get_node :: "consistent_hash_ring \<Rightarrow> u64 \<Rightarrow> ring_node option" where
  "ring_get_node r hash = (if ch_ring r = [] then None else map_option (\<lambda>e. fst (snd e)) (ring_first (ch_ring r) hash))"

fun collect_nodes :: "nat \<Rightarrow> bytes list \<Rightarrow> ring_node list \<Rightarrow> ring_map \<Rightarrow> ring_node list" where
  "collect_nodes count seen result [] = result"
| "collect_nodes count seen result (e # es) =
     (let node = fst (snd e)
      in if ring_node_id node \<in> set seen then collect_nodes count seen result es
         else let result = result @ [node]
              in if count \<le> length result then result
                 else collect_nodes count (ring_node_id node # seen) result es)"

definition ring_get_nodes :: "consistent_hash_ring \<Rightarrow> u64 \<Rightarrow> u32 \<Rightarrow> ring_node list" where
  "ring_get_nodes r hash count =
     (if ch_ring r = [] then []
      else collect_nodes (min (unat count) (length (ch_nodes r))) [] [] (btree_from (ch_ring r) hash @ ch_ring r))"

definition ring_get_part_id :: "consistent_hash_ring \<Rightarrow> i64 \<Rightarrow> u32" where
  "ring_get_part_id r vid = compute_partition vid (ch_partition_num r)"

definition assign_partition :: "consistent_hash_ring \<Rightarrow> nat \<Rightarrow> partition_assignment option" where
  "assign_partition r part_id =
     (case ring_get_nodes r (hash_bytes (u32_to_le (of_nat part_id))) (ch_replica_factor r) of
        [] \<Rightarrow> None
      | primary # replicas \<Rightarrow>
          Some \<lparr>pa_part_id = of_nat part_id, pa_primary = primary, pa_replicas = replicas\<rparr>)"

definition compute_assignments :: "consistent_hash_ring \<Rightarrow> partition_assignment list" where
  "compute_assignments r =
     (let parts = [1..<Suc (unat (ch_partition_num r))]
      in if ch_nodes r = []
         then map (\<lambda>p. \<lparr>pa_part_id = of_nat p, pa_primary = ring_node_new (ascii ''localhost'') 9779, pa_replicas = []\<rparr>) parts
         else List.map_filter (assign_partition r) parts)"

definition ensure_assignments :: "consistent_hash_ring \<Rightarrow> consistent_hash_ring" where
  "ensure_assignments r =
     (case ch_assignments_cache r of
        Some _ \<Rightarrow> r
      | None \<Rightarrow> r\<lparr>ch_assignments_cache := Some (compute_assignments r)\<rparr>)"

definition get_all_assignments :: "consistent_hash_ring \<Rightarrow> partition_assignment list \<times> consistent_hash_ring" where
  "get_all_assignments r =
     (let r = ensure_assignments r
      in (case ch_assignments_cache r of Some a \<Rightarrow> a | None \<Rightarrow> [], r))"

text \<open>\<open>part_id as usize - 1\<close> wraps for part 0, and the lookup then finds nothing.\<close>

definition get_partition_assignment ::
  "u32 \<Rightarrow> consistent_hash_ring \<Rightarrow> partition_assignment option \<times> consistent_hash_ring" where
  "get_partition_assignment part_id r =
     (let r = ensure_assignments r
      in (case ch_assignments_cache r of
            None \<Rightarrow> None
          | Some a \<Rightarrow> if part_id \<noteq> 0 \<and> unat part_id - 1 < length a then Some (a ! (unat part_id - 1)) else None, r))"

definition get_allocations :: "consistent_hash_ring \<Rightarrow> (u32 \<times> (bytes \<times> u32) list) list \<times> consistent_hash_ring" where
  "get_allocations r =
     (case get_all_assignments r of
        (assignments, r) \<Rightarrow> (fold (\<lambda>a. AList.update (pa_part_id a) (all_hosts a)) assignments [], r))"

definition replica_moves ::
  "(ring_node set \<Rightarrow> ring_node list) \<Rightarrow> partition_assignment \<Rightarrow> partition_assignment \<Rightarrow> migration_task list" where
  "replica_moves iter old new =
     (let old_replicas = set (pa_replicas old); new_replicas = set (pa_replicas new)
      in List.map_filter
           (\<lambda>removed.
              if removed \<in> new_replicas then None
              else map_option
                     (\<lambda>new_node. \<lparr>mt_part_id = pa_part_id old, mt_from = removed, mt_to = new_node, mt_is_primary = False\<rparr>)
                     (find (\<lambda>n. n \<notin> old_replicas) (iter new_replicas)))
           (iter old_replicas))"

definition partition_moves ::
  "(ring_node set \<Rightarrow> ring_node list) \<Rightarrow> partition_assignment \<times> partition_assignment \<Rightarrow> migration_task list" where
  "partition_moves iter on =
     (case on of (old, new) \<Rightarrow>
        (if pa_primary old \<noteq> pa_primary new
         then [\<lparr>mt_part_id = pa_part_id old, mt_from = pa_primary old, mt_to = pa_primary new, mt_is_primary = True\<rparr>]
         else []) @ replica_moves iter old new)"

definition compute_migrations ::
  "(ring_node set \<Rightarrow> ring_node list) \<Rightarrow> consistent_hash_ring \<Rightarrow> consistent_hash_ring \<Rightarrow>
   migration_task list \<times> consistent_hash_ring \<times> consistent_hash_ring" where
  "compute_migrations iter old_ring new_ring =
     (case get_all_assignments old_ring of
        (old_assignments, old_ring) \<Rightarrow>
          (case get_all_assignments new_ring of
             (new_assignments, new_ring) \<Rightarrow>
               (concat (map (partition_moves iter) (zip old_assignments new_assignments)), old_ring, new_ring)))"

definition ring_node_count :: "consistent_hash_ring \<Rightarrow> nat" where
  "ring_node_count r = length (ch_nodes r)"

definition ring_is_empty :: "consistent_hash_ring \<Rightarrow> bool" where
  "ring_is_empty r \<longleftrightarrow> ch_nodes r = []"

section \<open>Node identifiers\<close>

lemma ring_node_id_inject [simp]: "ring_node_id a = ring_node_id b \<longleftrightarrow> a = b"
proof
  assume "ring_node_id a = ring_node_id b"
  then have "rn_host a @ 58 # dec_nat (unat (rn_port a)) = rn_host b @ 58 # dec_nat (unat (rn_port b))"
    by (simp add: ring_node_id_def ascii_def)
  then have "rn_host a = rn_host b" "rn_port a = rn_port b"
    using append_sep_end [of 58 "dec_nat (unat (rn_port a))" "dec_nat (unat (rn_port b))"] by (simp_all add: word_unat_eq_iff)
  then show "a = b" by simp
qed simp

section \<open>Invariant\<close>

definition ring_ok :: "consistent_hash_ring \<Rightarrow> bool" where
  "ring_ok r \<longleftrightarrow> btree_ok (ch_ring r) \<and> distinct (ch_nodes r) \<and>
     (\<forall>(h, n, v) \<in> set (ch_ring r).
        n \<in> set (ch_nodes r) \<and> unat v < unat (virtual_nodes (ch_config r)) \<and> h = vnode_hash n (unat v)) \<and>
     (\<forall>a. ch_assignments_cache r = Some a \<longrightarrow> a = compute_assignments r)"

lemma set_btree_insert: "set (btree_insert k v m) \<subseteq> insert (k, v) (set m)"
  by (induction m) auto

lemma set_btree_remove: "set (btree_remove k m) \<subseteq> set m"
  by (auto simp: btree_remove_def)

lemma fold_insert_ok: "btree_ok m \<Longrightarrow> btree_ok (fold (\<lambda>i. btree_insert (f i) (g i)) xs m)"
  by (induction xs arbitrary: m) (auto simp: btree_ok_insert)

lemma fold_remove_ok: "btree_ok m \<Longrightarrow> btree_ok (fold (\<lambda>i. btree_remove (f i)) xs m)"
  by (induction xs arbitrary: m) (auto simp: btree_ok_remove)

lemma set_fold_insert: "set (fold (\<lambda>i. btree_insert (f i) (g i)) xs m) \<subseteq> set m \<union> (\<lambda>i. (f i, g i)) ` set xs"
proof (induction xs arbitrary: m)
  case (Cons x xs)
  show ?case using Cons [of "btree_insert (f x) (g x) m"] set_btree_insert [of "f x" "g x" m] by auto
qed simp

lemma set_fold_remove: "set (fold (\<lambda>i. btree_remove (f i)) xs m) = {e \<in> set m. fst e \<notin> f ` set xs}"
  by (induction xs arbitrary: m) (auto simp: btree_remove_def)

lemma ring_ok_new: "ring_ok (ring_new n k c)"
  by (simp add: ring_ok_def ring_new_def)

lemma ring_ok_add:
  assumes "ring_ok r"
  shows "ring_ok (ring_add_node node r)"
proof (cases "node \<in> set (ch_nodes r)")
  case False
  let ?vs = "[0..<unat (virtual_nodes (ch_config r))]"
  let ?m = "fold (\<lambda>vn. btree_insert (vnode_hash node vn) (node, of_nat vn)) ?vs (ch_ring r)"
  have u: "unat (of_nat vn :: u32) = vn" if "vn \<in> set ?vs" for vn
    using that unat_u32_bound [of "virtual_nodes (ch_config r)"] by (simp add: unat_of_nat)
  have "n \<in> set (ch_nodes r @ [node]) \<and> unat v < unat (virtual_nodes (ch_config r)) \<and> h = vnode_hash n (unat v)"
    if "(h, n, v) \<in> set ?m" for h n v
  proof (cases "(h, n, v) \<in> set (ch_ring r)")
    case True
    with assms show ?thesis by (auto simp: ring_ok_def)
  next
    case False
    with that set_fold_insert [of "vnode_hash node" "\<lambda>vn. (node, of_nat vn)" ?vs "ch_ring r"]
    obtain vn where "vn \<in> set ?vs" "(h, n, v) = (vnode_hash node vn, node, of_nat vn)" by blast
    with u show ?thesis by auto
  qed
  with False assms show ?thesis
    by (auto simp: ring_add_node_def ring_ok_def fold_insert_ok)
qed (use assms in \<open>simp add: ring_add_node_def\<close>)

lemma ring_ok_remove:
  assumes "ring_ok r"
  shows "ring_ok (ring_remove_node node r)"
proof (cases "node \<in> set (ch_nodes r)")
  case True
  let ?vs = "[0..<unat (virtual_nodes (ch_config r))]"
  have "n \<noteq> node" if "(h, n, v) \<in> set (ch_ring r)" "h \<notin> vnode_hash node ` set ?vs" for h n v
    using that assms by (fastforce simp: ring_ok_def)
  with True assms show ?thesis
    by (fastforce simp: ring_remove_node_def ring_ok_def fold_remove_ok set_fold_remove)
qed (use assms in \<open>simp add: ring_remove_node_def\<close>)

lemma assign_partition_cache: "assign_partition (r\<lparr>ch_assignments_cache := c\<rparr>) = assign_partition r"
  by (simp add: fun_eq_iff assign_partition_def ring_get_nodes_def)

lemma compute_assignments_cache: "compute_assignments (r\<lparr>ch_assignments_cache := c\<rparr>) = compute_assignments r"
  by (simp add: compute_assignments_def Let_def assign_partition_cache del: upt_Suc)

lemma ring_ok_ensure: "ring_ok r \<Longrightarrow> ring_ok (ensure_assignments r)"
  by (auto simp: ring_ok_def ensure_assignments_def compute_assignments_cache split: option.splits)

lemma get_all_assignments_eq: "ring_ok r \<Longrightarrow> fst (get_all_assignments r) = compute_assignments r"
  by (auto simp: get_all_assignments_def ensure_assignments_def ring_ok_def Let_def split: option.splits)

section \<open>Walking the ring\<close>

definition head_option :: "'a list \<Rightarrow> 'a option" where
  "head_option xs = (case xs of [] \<Rightarrow> None | x # _ \<Rightarrow> Some x)"

lemma head_option_simps [simp]: "head_option [] = None" "head_option (x # xs) = Some x"
  by (simp_all add: head_option_def)

lemma head_option_None [simp]: "head_option xs = None \<longleftrightarrow> xs = []"
  by (cases xs) auto

lemma ring_first_walk: "ring_first m h = head_option (btree_from m h @ m)"
  by (simp add: ring_first_def head_option_def split: list.splits)

lemma head_option_in: "head_option xs = Some e \<Longrightarrow> e \<in> set xs"
  by (cases xs) auto

lemma set_btree_from: "set (btree_from m h) \<subseteq> set m"
  using set_dropWhileD by (fastforce simp: btree_from_def)

lemma ring_first_in: "ring_first m h = Some e \<Longrightarrow> e \<in> set m"
  using head_option_in [of "btree_from m h @ m" e] set_btree_from [of m h] by (auto simp: ring_first_walk)

lemma ring_get_node_walk:
  "ring_get_node r h = map_option (\<lambda>e. fst (snd e)) (head_option (btree_from (ch_ring r) h @ ch_ring r))"
  by (auto simp: ring_get_node_def ring_first_walk btree_from_def)

lemma ring_get_node_first: "ring_get_node r h = map_option (\<lambda>e. fst (snd e)) (ring_first (ch_ring r) h)"
  by (simp add: ring_get_node_walk ring_first_walk)

lemma head_from_insert:
  "head_option (btree_from (btree_insert k v m) h) \<in> {head_option (btree_from m h), Some (k, v)}"
  by (induction m) (auto simp: btree_from_def)

lemma from_insert_Nil: "btree_from (btree_insert k v m) h = [] \<Longrightarrow> btree_from m h = []"
  by (induction m) (auto simp: btree_from_def split: if_splits)

lemma head_insert: "head_option (btree_insert k v m) \<in> {head_option m, Some (k, v)}"
  by (cases m) auto

lemma ring_first_insert: "ring_first (btree_insert k v m) h \<in> {ring_first m h, Some (k, v)}"
proof (cases "btree_from (btree_insert k v m) h")
  case Nil
  with from_insert_Nil [OF Nil] head_insert [of k v m] show ?thesis by (simp add: ring_first_walk)
next
  case (Cons e es)
  then have "ring_first (btree_insert k v m) h = Some e" by (simp add: ring_first_walk)
  moreover have "Some e \<in> {head_option (btree_from m h), Some (k, v)}" using head_from_insert [of k v m h] Cons by simp
  ultimately show ?thesis by (cases "btree_from m h") (auto simp: ring_first_walk)
qed

lemma ring_first_fold_insert:
  "ring_first (fold (\<lambda>i. btree_insert (f i) (g i)) xs m) h \<in> {ring_first m h} \<union> (\<lambda>i. Some (f i, g i)) ` set xs"
proof (induction xs arbitrary: m)
  case (Cons x xs)
  show ?case using Cons [of "btree_insert (f x) (g x) m"] ring_first_insert [of "f x" "g x" m h] by auto
qed simp

lemma ring_get_node_add:
  "ring_get_node (ring_add_node node r) h \<in> {ring_get_node r h, Some node}"
proof (cases "node \<in> set (ch_nodes r)")
  case False
  let ?vs = "[0..<unat (virtual_nodes (ch_config r))]"
  have "ring_first (ch_ring (ring_add_node node r)) h \<in>
      {ring_first (ch_ring r) h} \<union> (\<lambda>i. Some (vnode_hash node i, node, of_nat i)) ` set ?vs"
    using False ring_first_fold_insert [of "vnode_hash node" "\<lambda>i. (node, of_nat i)" ?vs "ch_ring r" h] by (simp add: ring_add_node_def)
  then show ?thesis by (auto simp: ring_get_node_walk ring_first_walk)
qed (simp add: ring_add_node_def)

lemma dropWhile_filter_head:
  assumes "head_option (dropWhile P xs) = Some e" and "Q e"
  shows "head_option (dropWhile P (filter Q xs)) = Some e"
  using assms by (induction xs) (auto split: if_splits)

lemma dropWhile_filter_Nil: "dropWhile P xs = [] \<Longrightarrow> dropWhile P (filter Q xs) = []"
  by (induction xs) (auto split: if_splits)

lemma ring_first_filter:
  assumes "ring_first m h = Some e" and "Q e"
  shows "ring_first (filter Q m) h = Some e"
proof (cases "btree_from m h")
  case Nil
  then have "head_option m = Some e" using assms(1) by (simp add: ring_first_walk)
  then have "head_option (filter Q m) = Some e" using assms(2) by (cases m) auto
  moreover have "btree_from (filter Q m) h = []" using Nil by (simp add: btree_from_def dropWhile_filter_Nil)
  ultimately show ?thesis by (simp add: ring_first_walk)
next
  case (Cons a as)
  then have "head_option (btree_from (filter Q m) h) = Some e"
    using assms by (intro dropWhile_filter_head [of "\<lambda>e. fst e < h", folded btree_from_def]) (auto simp: ring_first_walk)
  then show ?thesis by (cases "btree_from (filter Q m) h") (auto simp: ring_first_walk)
qed

lemma fold_remove_filter: "fold (\<lambda>i. btree_remove (f i)) xs m = filter (\<lambda>e. fst e \<notin> f ` set xs) m"
  by (induction xs arbitrary: m) (auto simp: btree_remove_def filter_filter intro!: filter_cong)

text \<open>The positions of a node hold that node: no later node hashed onto one of them.\<close>

definition no_collision :: "consistent_hash_ring \<Rightarrow> ring_node \<Rightarrow> bool" where
  "no_collision r node \<longleftrightarrow>
     (\<forall>(h, n, v) \<in> set (ch_ring r). h \<in> vnode_hash node ` {..<unat (virtual_nodes (ch_config r))} \<longrightarrow> n = node)"

lemma ring_get_node_remove:
  assumes "no_collision r node" and "ring_get_node r h \<noteq> Some node"
  shows "ring_get_node (ring_remove_node node r) h = ring_get_node r h"
proof (cases "node \<in> set (ch_nodes r)")
  case True
  let ?Q = "\<lambda>e. fst e \<notin> vnode_hash node ` set [0..<unat (virtual_nodes (ch_config r))]"
  have m: "ch_ring (ring_remove_node node r) = filter ?Q (ch_ring r)"
    using True by (simp add: ring_remove_node_def fold_remove_filter)
  show ?thesis
  proof (cases "ring_first (ch_ring r) h")
    case None
    then have "ch_ring r = []" by (simp add: ring_first_walk)
    with m show ?thesis by (simp add: ring_get_node_def)
  next
    case (Some e)
    then have "e \<in> set (ch_ring r)" by (rule ring_first_in)
    moreover have g: "ring_get_node r h = Some (fst (snd e))" by (simp only: ring_get_node_first Some option.map)
    moreover have "fst (snd e) \<noteq> node" using assms(2) g by simp
    ultimately have "?Q e" using assms(1) by (fastforce simp: no_collision_def atLeast0LessThan)
    from ring_first_filter [where Q = ?Q, OF Some this] g m show ?thesis
      by (simp only: ring_get_node_first option.map)
  qed
qed (simp add: ring_remove_node_def)

section \<open>Replicas\<close>

text \<open>The first occurrences of a list, in order.\<close>

definition firsts :: "'a list \<Rightarrow> 'a list" where
  "firsts xs = rev (remdups (rev xs))"

lemma firsts_snoc: "firsts (xs @ [x]) = firsts xs @ (if x \<in> set xs then [] else [x])"
  by (simp add: firsts_def)

lemma set_firsts [simp]: "set (firsts xs) = set xs"
  by (simp add: firsts_def)

lemma distinct_firsts [simp]: "distinct (firsts xs)"
  by (simp add: firsts_def)

lemma firsts_Nil [simp]: "firsts [] = []"
  by (simp add: firsts_def)

lemma firsts_Cons: "firsts (x # xs) = x # filter (\<lambda>y. y \<noteq> x) (firsts xs)"
  by (induction xs rule: rev_induct) (auto simp: firsts_snoc append_Cons [symmetric] simp del: append_Cons, simp add: firsts_def)

lemma collect_nodes_eq:
  assumes "length result < max 1 count" and "set seen = ring_node_id ` set result"
  shows "collect_nodes count seen result es =
    take (max 1 count) (result @ filter (\<lambda>n. n \<notin> set result) (firsts (map (\<lambda>e. fst (snd e)) es)))"
  using assms
proof (induction es arbitrary: seen result)
  case Nil
  then show ?case by (simp add: firsts_def)
next
  case (Cons e es)
  let ?n = "fst (snd e)"
  have seen: "ring_node_id ?n \<in> set seen \<longleftrightarrow> ?n \<in> set result" using Cons.prems(2) by auto
  show ?case
  proof (cases "?n \<in> set result")
    case True
    then have "filter (\<lambda>n. n \<notin> set result) (firsts (?n # map (\<lambda>e. fst (snd e)) es)) =
        filter (\<lambda>n. n \<notin> set result) (firsts (map (\<lambda>e. fst (snd e)) es))"
      by (auto simp: firsts_Cons intro!: filter_cong)
    with True Cons.IH [OF Cons.prems] seen show ?thesis by simp
  next
    case False
    have f: "filter (\<lambda>n. n \<notin> set result) (firsts (?n # map (\<lambda>e. fst (snd e)) es)) =
        ?n # filter (\<lambda>n. n \<notin> set (result @ [?n])) (firsts (map (\<lambda>e. fst (snd e)) es))"
      using False by (auto simp: firsts_Cons conj_commute intro!: filter_cong)
    show ?thesis
    proof (cases "count \<le> length (result @ [?n])")
      case True
      then have "max 1 count = length (result @ [?n])" using Cons.prems(1) by auto
      with True False seen f show ?thesis by (simp add: Let_def)
    next
      case more: False
      have "length (result @ [?n]) < max 1 count" using more by simp
      with Cons.IH [of "result @ [?n]" "ring_node_id ?n # seen"] Cons.prems(2) False seen f more show ?thesis by (simp add: Let_def)
    qed
  qed
qed

lemma ring_get_nodes_eq:
  assumes "ch_ring r \<noteq> []"
  shows "ring_get_nodes r h count = take (max 1 (min (unat count) (length (ch_nodes r))))
    (firsts (map (\<lambda>e. fst (snd e)) (btree_from (ch_ring r) h @ ch_ring r)))"
  using assms collect_nodes_eq [of "[]" "min (unat count) (length (ch_nodes r))" "[]"]
  by (simp add: ring_get_nodes_def)

lemma head_firsts: "head_option (firsts xs) = head_option xs"
  by (cases xs) (auto simp: firsts_Cons)

lemma ring_get_nodes_first: "head_option (ring_get_nodes r h count) = ring_get_node r h"
proof (cases "ch_ring r = []")
  case False
  let ?w = "map (\<lambda>e. fst (snd e)) (btree_from (ch_ring r) h @ ch_ring r)"
  have "head_option (take (max 1 c) xs) = head_option xs" for c and xs :: "ring_node list" by (cases xs; cases "max 1 c") auto
  then have "head_option (ring_get_nodes r h count) = head_option ?w"
    by (simp only: ring_get_nodes_eq [OF False] head_firsts)
  also have "\<dots> = ring_get_node r h" by (cases "btree_from (ch_ring r) h @ ch_ring r") (auto simp: ring_get_node_walk)
  finally show ?thesis .
qed (simp add: ring_get_nodes_def ring_get_node_def)

lemma length_firsts: "length (firsts xs) = card (set xs)"
  by (metis distinct_card distinct_firsts set_firsts)

lemma set_walk: "set (btree_from m h @ m) = set m"
  using set_btree_from [of m h] by auto

section \<open>Assignments\<close>

lemma map_filter_total: "(\<And>x. x \<in> set xs \<Longrightarrow> f x = Some (g x)) \<Longrightarrow> List.map_filter f xs = map g xs"
  by (induction xs) (auto simp: List.map_filter_simps)

lemma assign_partition_Some:
  assumes "ch_ring r \<noteq> []"
  shows "\<exists>a. assign_partition r p = Some a \<and> pa_part_id a = of_nat p \<and>
    pa_primary a # pa_replicas a = ring_get_nodes r (hash_bytes (u32_to_le (of_nat p))) (ch_replica_factor r)"
proof (cases "ring_get_nodes r (hash_bytes (u32_to_le (of_nat p))) (ch_replica_factor r)")
  case Nil
  then have "ring_get_node r (hash_bytes (u32_to_le (of_nat p))) = None"
    using ring_get_nodes_first [of r "hash_bytes (u32_to_le (of_nat p))" "ch_replica_factor r"] by simp
  with assms show ?thesis by (simp add: ring_get_node_walk)
qed (simp add: assign_partition_def)

lemma compute_assignments_map:
  assumes "ch_nodes r = [] \<or> ch_ring r \<noteq> []"
  obtains g where "compute_assignments r = map g [1..<Suc (unat (ch_partition_num r))]"
    and "\<And>p. pa_part_id (g p) = of_nat p"
    and "ch_nodes r \<noteq> [] \<Longrightarrow>
      (\<And>p. pa_primary (g p) # pa_replicas (g p) = ring_get_nodes r (hash_bytes (u32_to_le (of_nat p))) (ch_replica_factor r))"
proof (cases "ch_nodes r = []")
  case True
  then show ?thesis
    by (intro that [of "\<lambda>p. \<lparr>pa_part_id = of_nat p, pa_primary = ring_node_new (ascii ''localhost'') 9779, pa_replicas = []\<rparr>"])
       (simp_all add: compute_assignments_def Let_def del: upt_Suc)
next
  case False
  with assms have "ch_ring r \<noteq> []" by simp
  from assign_partition_Some [OF this] obtain g where g: "assign_partition r p = Some (g p)" "pa_part_id (g p) = of_nat p"
    "pa_primary (g p) # pa_replicas (g p) = ring_get_nodes r (hash_bytes (u32_to_le (of_nat p))) (ch_replica_factor r)" for p
    by metis
  with False show ?thesis
    by (intro that [of g]) (simp_all add: compute_assignments_def Let_def map_filter_total del: upt_Suc)
qed

lemma primary_of_assignment:
  assumes "pa_primary a # pa_replicas a = ring_get_nodes r h c"
  shows "ring_get_node r h = Some (pa_primary a)"
  using ring_get_nodes_first [of r h c] assms [symmetric] by simp

section \<open>Migrations\<close>

lemma replica_moves_not_primary: "t \<in> set (replica_moves iter old new) \<Longrightarrow> \<not> mt_is_primary t"
  by (auto simp: replica_moves_def List.map_filter_def Let_def split: if_splits option.splits)

lemma primary_moves:
  "t \<in> set (concat (map (partition_moves iter) (zip (map g ps) (map g' ps)))) \<and> mt_is_primary t \<longleftrightarrow>
   (\<exists>p \<in> set ps. pa_primary (g p) \<noteq> pa_primary (g' p) \<and>
      t = \<lparr>mt_part_id = pa_part_id (g p), mt_from = pa_primary (g p), mt_to = pa_primary (g' p), mt_is_primary = True\<rparr>)"
  by (induction ps) (auto simp: partition_moves_def dest: replica_moves_not_primary)

lemma fold_insert_not_Nil: "m \<noteq> [] \<Longrightarrow> fold (\<lambda>i. btree_insert (f i) (g i)) xs m \<noteq> []"
proof (induction xs arbitrary: m)
  case (Cons x xs)
  have "btree_insert (f x) (g x) m \<noteq> []" by (cases m) auto
  with Cons.IH show ?case by simp
qed simp

lemma ring_add_not_Nil: "ch_ring r \<noteq> [] \<Longrightarrow> ch_ring (ring_add_node node r) \<noteq> []"
  by (simp add: ring_add_node_def fold_insert_not_Nil)

lemma ring_ok_nodes: "ring_ok r \<Longrightarrow> ch_ring r \<noteq> [] \<Longrightarrow> ch_nodes r \<noteq> []"
  by (cases "ch_ring r") (auto simp: ring_ok_def)

lemma compute_migrations_fst:
  assumes "ring_ok r" and "ring_ok r'"
  shows "fst (compute_migrations iter r r') =
    concat (map (partition_moves iter) (zip (compute_assignments r) (compute_assignments r')))"
  using get_all_assignments_eq [OF assms(1)] get_all_assignments_eq [OF assms(2)]
  by (simp add: compute_migrations_def case_prod_beta)

lemma ring_add_same_partitions: "ch_partition_num (ring_add_node node r) = ch_partition_num r"
  "ch_replica_factor (ring_add_node node r) = ch_replica_factor r"
  by (simp_all add: ring_add_node_def)

section \<open>Properties\<close>

text \<open>
  The hosts chosen for a position are distinct nodes of the ring, as many as asked for where the ring has that many,
  and the first is the node that owns the position.
\<close>

theorem ring_replicas:
  assumes "ring_ok r" and "ch_ring r \<noteq> []"
  shows "distinct (ring_get_nodes r h count) \<and> set (ring_get_nodes r h count) \<subseteq> set (ch_nodes r) \<and>
    length (ring_get_nodes r h count) =
      min (max 1 (min (unat count) (length (ch_nodes r)))) (card ((\<lambda>e. fst (snd e)) ` set (ch_ring r))) \<and>
    ring_get_node r h = Some (hd (ring_get_nodes r h count))"
proof -
  let ?w = "map (\<lambda>e. fst (snd e)) (btree_from (ch_ring r) h @ ch_ring r)"
  have set: "set ?w = (\<lambda>e. fst (snd e)) ` set (ch_ring r)"
    by (simp only: set_map set_walk)
  also have "\<dots> \<subseteq> set (ch_nodes r)" using assms(1) by (auto simp: ring_ok_def)
  finally have "set (ring_get_nodes r h count) \<subseteq> set (ch_nodes r)"
    using subset_trans [OF set_take_subset, of "firsts ?w" "set (ch_nodes r)"]
    unfolding ring_get_nodes_eq [OF assms(2)] set_firsts by blast
  moreover have "distinct (ring_get_nodes r h count)" unfolding ring_get_nodes_eq [OF assms(2)] by simp
  moreover have "length (ring_get_nodes r h count) =
      min (max 1 (min (unat count) (length (ch_nodes r)))) (card ((\<lambda>e. fst (snd e)) ` set (ch_ring r)))"
    unfolding ring_get_nodes_eq [OF assms(2)] length_take length_firsts set by (rule min.commute)
  moreover have "ring_get_node r h = Some (hd (ring_get_nodes r h count))"
    using ring_get_nodes_first [of r h count] assms(2)
    by (cases "ring_get_nodes r h count") (auto simp: ring_get_node_walk)
  ultimately show ?thesis by blast
qed


text \<open>
  Every partition has an assignment: partition \<open>p\<close> of 1 to \<open>partition_num\<close> is found under its own number with the
  owner of its position as primary, and any other number has none.
\<close>

theorem ring_assignments:
  assumes "ring_ok r" and "ch_nodes r = [] \<or> ch_ring r \<noteq> []"
  shows "(p \<noteq> 0 \<and> p \<le> ch_partition_num r \<longrightarrow>
      (\<exists>a. fst (get_partition_assignment p r) = Some a \<and> pa_part_id a = p \<and>
         (ch_nodes r \<noteq> [] \<longrightarrow> ring_get_node r (hash_bytes (u32_to_le p)) = Some (pa_primary a)))) \<and>
    (p = 0 \<or> ch_partition_num r < p \<longrightarrow> fst (get_partition_assignment p r) = None)"
proof -
  obtain g where g: "compute_assignments r = map g [1..<Suc (unat (ch_partition_num r))]" "pa_part_id (g q) = of_nat q"
    "ch_nodes r \<noteq> [] \<Longrightarrow>
      pa_primary (g q) # pa_replicas (g q) = ring_get_nodes r (hash_bytes (u32_to_le (of_nat q))) (ch_replica_factor r)" for q
    by (rule compute_assignments_map [OF assms(2)]) blast
  have a: "fst (get_partition_assignment p r) =
      (if p \<noteq> 0 \<and> unat p - 1 < unat (ch_partition_num r) then Some (g (1 + (unat p - 1))) else None)"
    using assms(1) g(1)
    by (auto simp: get_partition_assignment_def ensure_assignments_def ring_ok_def Let_def simp del: upt_Suc split: option.splits)
  have u: "p \<noteq> 0 \<longleftrightarrow> 0 < unat p" by (simp add: unat_gt_0)
  have "1 + (unat p - 1) = unat p" if "p \<noteq> 0" using that u by simp
  then show ?thesis
    unfolding a word_le_nat_alt word_less_nat_alt using u g(2) [of "unat p"] primary_of_assignment [OF g(3) [of "unat p"]]
    by auto
qed

text \<open>
  The primaries that migrate when a node joins are those whose position the new node takes over, and they all move to
  it, from the node that owned the position.
\<close>

theorem ring_add_migrations:
  assumes "ring_ok r" and "ch_ring r \<noteq> []"
  shows "(\<exists>t \<in> set (fst (compute_migrations iter r (ring_add_node node r))). mt_is_primary t \<and> mt_part_id t = p \<and>
      mt_to t = node \<and> ring_get_node r (hash_bytes (u32_to_le p)) = Some (mt_from t)) \<longleftrightarrow>
    p \<noteq> 0 \<and> p \<le> ch_partition_num r \<and> ring_get_node r (hash_bytes (u32_to_le p)) \<noteq> Some node \<and>
    ring_get_node (ring_add_node node r) (hash_bytes (u32_to_le p)) = Some node" (is "?L \<longleftrightarrow> ?R")
proof -
  let ?r = "ring_add_node node r" and ?ps = "[1..<Suc (unat (ch_partition_num r))]"
  let ?h = "\<lambda>p :: u32. hash_bytes (u32_to_le p)"
  have ok: "ring_ok ?r" "ch_ring ?r \<noteq> []" using ring_ok_add [OF assms(1)] ring_add_not_Nil [OF assms(2)] by blast+
  have nodes: "ch_nodes r \<noteq> []" "ch_nodes ?r \<noteq> []" using assms ok ring_ok_nodes by blast+
  obtain g where g: "compute_assignments r = map g ?ps" "pa_part_id (g q) = of_nat q"
    "ring_get_node r (?h (of_nat q)) = Some (pa_primary (g q))" for q
    by (rule compute_assignments_map [of r]) (use assms(2) nodes primary_of_assignment in blast)+
  obtain g' where g': "compute_assignments ?r = map g' ?ps" "ring_get_node ?r (?h (of_nat q)) = Some (pa_primary (g' q))" for q
    by (rule compute_assignments_map [of ?r]) (use ok(2) nodes primary_of_assignment ring_add_same_partitions in fastforce)+
  have T: "t \<in> set (fst (compute_migrations iter r ?r)) \<and> mt_is_primary t \<longleftrightarrow>
      (\<exists>q \<in> set ?ps. pa_primary (g q) \<noteq> pa_primary (g' q) \<and>
        t = \<lparr>mt_part_id = of_nat q, mt_from = pa_primary (g q), mt_to = pa_primary (g' q), mt_is_primary = True\<rparr>)" for t
    by (simp only: compute_migrations_fst [OF assms(1) ok(1)] g g'(1) primary_moves)
  have p: "p \<noteq> 0 \<and> p \<le> ch_partition_num r \<longleftrightarrow> unat p \<in> set ?ps"
    by (auto simp: word_le_nat_alt unat_gt_0 [symmetric] Suc_le_eq simp del: unat_gt_0)
  have u: "unat (of_nat q :: u32) = q" if "q \<in> set ?ps" for q
    using that unat_u32_bound [of "ch_partition_num r"] by (simp add: unat_of_nat del: upt_Suc)
  show ?thesis
  proof
    assume ?L
    then obtain t where t: "t \<in> set (fst (compute_migrations iter r ?r)) \<and> mt_is_primary t" "mt_part_id t = p" "mt_to t = node" by blast
    obtain q where q: "q \<in> set ?ps" "pa_primary (g q) \<noteq> pa_primary (g' q)"
      "t = \<lparr>mt_part_id = of_nat q, mt_from = pa_primary (g q), mt_to = pa_primary (g' q), mt_is_primary = True\<rparr>"
      using T [THEN iffD1, OF t(1)] by (elim bexE conjE) (rule that)
    have "p = of_nat q" "pa_primary (g' q) = node" using t(2,3) q(3) by simp_all
    with p u [OF q(1)] q(1,2) g(3) [of q] g'(2) [of q] show ?R by (simp del: upt_Suc set_upt)
  next
    assume ?R
    then have q: "unat p \<in> set ?ps" and n: "pa_primary (g (unat p)) \<noteq> node" "pa_primary (g' (unat p)) = node"
      using p g(3) [of "unat p"] g'(2) [of "unat p"] by auto
    let ?t = "\<lparr>mt_part_id = p, mt_from = pa_primary (g (unat p)), mt_to = node, mt_is_primary = True\<rparr>"
    have "?t \<in> set (fst (compute_migrations iter r ?r)) \<and> mt_is_primary ?t"
      unfolding T by (rule bexI [OF _ q]) (use n in simp)
    with g(3) [of "unat p"] show ?L by (intro bexI [of _ ?t]) auto
  qed
qed

section \<open>Instances\<close>

text \<open>A ring of one host with one position.\<close>

definition sample_ring :: consistent_hash_ring where
  "sample_ring = ring_add_node (ring_node_new [97] 1) (ring_new 4 2 \<lparr>virtual_nodes = 1\<rparr>)"

lemma sample_ring_ok: "ring_ok sample_ring" "ch_ring sample_ring \<noteq> []"
  by (auto simp: sample_ring_def ring_ok_add ring_ok_new) (simp add: ring_add_node_def ring_new_def)

theorem ring_replicas_witness: "distinct (ring_get_nodes sample_ring 5 2)"
  using ring_replicas [OF sample_ring_ok, of 5 2] by blast


theorem ring_assignments_witness:
  "\<exists>a. fst (get_partition_assignment 3 sample_ring) = Some a \<and> pa_part_id a = 3"
proof -
  have "ch_partition_num sample_ring = 4" by (simp add: sample_ring_def ring_add_node_def ring_new_def)
  then show ?thesis using ring_assignments [OF sample_ring_ok(1), of 3] sample_ring_ok(2) by auto
qed

text \<open>Positions of this ring, evaluated.\<close>

lemmas hash_eval = hash_bytes_def hash_chunk_def chunks.simps u64_from_le_def u64_from_be_def of_be_def xor_shift_def Let_def

lemma sample_hashes:
  "vnode_hash (ring_node_new [97] 1) 0 = 17966173190182668892"
  "vnode_hash (ring_node_new [100] 1) 0 = 5726529598245937572"
  "hash_bytes (u32_to_le 2) = 4233148493373801447"
proof -
  have r: "replicate 3 (0 :: u8) = [0, 0, 0]" "replicate 4 (0 :: u8) = [0, 0, 0, 0]" by (simp_all add: eval_nat_numeral)
  have d: "dec_nat 0 = [48]" "dec_nat (Suc 0) = [49]" by (simp_all add: dec_nat.simps)
  have u: "u32_to_le 2 = [2, 0, 0, 0]" by code_simp
  show "vnode_hash (ring_node_new [97] 1) 0 = 17966173190182668892" "vnode_hash (ring_node_new [100] 1) 0 = 5726529598245937572"
    by (simp_all add: vnode_hash_def ring_node_id_def ring_node_new_def ascii_def d hash_eval r)
  show "hash_bytes (u32_to_le 2) = 4233148493373801447" by (simp add: u hash_eval r)
qed

theorem ring_add_migrations_witness:
  "\<exists>t \<in> set (fst (compute_migrations (\<lambda>_. []) sample_ring (ring_add_node (ring_node_new [100] 1) sample_ring))).
      mt_is_primary t \<and> mt_part_id t = 2 \<and> mt_to t = ring_node_new [100] 1 \<and>
      ring_get_node sample_ring (hash_bytes (u32_to_le 2)) = Some (mt_from t)"
proof -
  have n: "ring_node_new [97] 1 \<noteq> ring_node_new [100] 1" "ring_node_new [100] 1 \<noteq> ring_node_new [97] 1" by (simp_all add: ring_node_new_def)
  have r: "ch_ring sample_ring = [(17966173190182668892, ring_node_new [97] 1, 0)]"
    "ch_nodes sample_ring = [ring_node_new [97] 1]" "ch_partition_num sample_ring = 4" "virtual_nodes (ch_config sample_ring) = 1"
    by (simp_all add: sample_ring_def ring_add_node_def ring_new_def sample_hashes)
  have "ring_get_node sample_ring (hash_bytes (u32_to_le 2)) = Some (ring_node_new [97] 1)"
    by (simp add: ring_get_node_walk r btree_from_def sample_hashes)
  moreover have "ring_get_node (ring_add_node (ring_node_new [100] 1) sample_ring) (hash_bytes (u32_to_le 2)) = Some (ring_node_new [100] 1)"
    using n by (simp add: ring_get_node_walk ring_add_node_def r btree_from_def sample_hashes)
  ultimately show ?thesis
    using ring_add_migrations [OF sample_ring_ok, of "\<lambda>_. []" "ring_node_new [100] 1" 2] n r(3) by simp
qed

end
