(* ===== verification/LoginThrottle.thy ===== *)
theory LoginThrottle
  imports Strings
begin

text \<open>
  Brute-force protection of logins (\<^verbatim>\<open>byoridb-graph/src/auth.rs\<close>, \<open>LoginThrottleConfig\<close> and \<open>LoginRateLimiter\<close>).
  Durations and \<open>Instant\<close>s are nanoseconds; an \<open>Instant\<close> holds its seconds in an \<open>i64\<close>, which bounds the
  checked arithmetic. A network source is the textual form of its address.

  The main lemma bounds guessing: with attempts made one after the other, at any times, no window holds more evaluated failures
  of an account than its budget.
\<close>

section \<open>Configuration\<close>

definition LOGIN_RATE_WINDOW_SECS :: int where
  "LOGIN_RATE_WINDOW_SECS = 60"

definition MAX_FAILED_ATTEMPTS :: u32 where
  "MAX_FAILED_ATTEMPTS = 5"

definition LOCKOUT_DURATION_SECS :: int where
  "LOCKOUT_DURATION_SECS = 300"

definition MAX_CONCURRENT_ARGON2_VERIFICATIONS :: nat where
  "MAX_CONCURRENT_ARGON2_VERIFICATIONS = 4"

definition MAX_ACCOUNT_FAILURES_PER_WINDOW :: nat where
  "MAX_ACCOUNT_FAILURES_PER_WINDOW = 20"

definition MAX_SOURCE_FAILURES_PER_WINDOW :: nat where
  "MAX_SOURCE_FAILURES_PER_WINDOW = 60"

definition MAX_RATE_LIMIT_KEYS :: nat where
  "MAX_RATE_LIMIT_KEYS = 10000"

text \<open>\<open>Duration::from_secs\<close> and \<open>as_secs\<close>.\<close>

definition from_secs :: "int \<Rightarrow> int" where
  "from_secs s = s * 1000000000"

definition as_secs :: "int \<Rightarrow> int" where
  "as_secs d = d div 1000000000"

record login_throttle_config =
  lt_window :: int
  lt_max_account_failures :: nat
  lt_max_source_failures :: nat
  lt_max_concurrent_verifications :: nat
  lt_max_failed_attempts :: u32
  lt_lockout_duration :: int

definition login_throttle_default :: login_throttle_config where
  "login_throttle_default =
     \<lparr>lt_window = from_secs LOGIN_RATE_WINDOW_SECS,
      lt_max_account_failures = MAX_ACCOUNT_FAILURES_PER_WINDOW,
      lt_max_source_failures = MAX_SOURCE_FAILURES_PER_WINDOW,
      lt_max_concurrent_verifications = MAX_CONCURRENT_ARGON2_VERIFICATIONS,
      lt_max_failed_attempts = MAX_FAILED_ATTEMPTS,
      lt_lockout_duration = from_secs LOCKOUT_DURATION_SECS\<rparr>"

fun join_problems :: "bytes list \<Rightarrow> bytes" where
  "join_problems [] = []"
| "join_problems [p] = p"
| "join_problems (p # q # ps) = p @ ascii ''; '' @ join_problems (q # ps)"

definition throttle_problems :: "login_throttle_config \<Rightarrow> bytes list" where
  "throttle_problems c =
     (if lt_window c = 0 then [ascii ''window must be at least 1s''] else []) @
     (if lt_max_account_failures c = 0 then [ascii ''max_account_failures_per_window must be at least 1''] else []) @
     (if lt_max_source_failures c = 0 then [ascii ''max_source_failures_per_window must be at least 1''] else []) @
     (if lt_max_concurrent_verifications c = 0 then [ascii ''max_concurrent_verifications must be at least 1''] else []) @
     (if lt_max_failed_attempts c = 0
      then [ascii ''max_failed_attempts must be at least 1; set lockout_duration to 0 to disable the lockout instead'']
      else [])"

definition validate_throttle :: "login_throttle_config \<Rightarrow> bytes + unit" where
  "validate_throttle c =
     (if throttle_problems c = [] then Inr ()
      else Inl (ascii ''invalid login throttle: '' @ join_problems (throttle_problems c)))"

section \<open>Rate limiter\<close>

type_synonym failure_table = "(bytes \<times> int list) list"

record login_rate_limiter =
  rl_failures :: failure_table
  rl_config :: login_throttle_config

definition login_rate_limiter_new :: "login_throttle_config \<Rightarrow> login_rate_limiter" where
  "login_rate_limiter_new c = \<lparr>rl_failures = [], rl_config = c\<rparr>"

definition account_key :: "bytes \<Rightarrow> bytes" where
  "account_key username = ascii ''account:'' @ to_ascii_lowercase (trim username)"

definition source_key :: "bytes \<Rightarrow> bytes" where
  "source_key source = ascii ''source:'' @ source"

definition limiter_keys :: "login_throttle_config \<Rightarrow> bytes \<Rightarrow> bytes option \<Rightarrow> (bytes \<times> nat) list" where
  "limiter_keys c username source =
     (account_key username, lt_max_account_failures c) #
     (case source of None \<Rightarrow> [] | Some src \<Rightarrow> [(source_key src, lt_max_source_failures c)])"

definition expire :: "int \<Rightarrow> int list \<Rightarrow> int list" where
  "expire cutoff entries = dropWhile (\<lambda>e. e < cutoff) entries"

text \<open>\<open>Instant::checked_sub\<close> and \<open>checked_add\<close>.\<close>

definition instant_sub :: "int \<Rightarrow> int \<Rightarrow> int option" where
  "instant_sub t d = (if - (2 ^ 63) * 1000000000 \<le> t - d then Some (t - d) else None)"

definition instant_add :: "int \<Rightarrow> int \<Rightarrow> int option" where
  "instant_add t d = (if t + d < 2 ^ 63 * 1000000000 then Some (t + d) else None)"

definition cutoff_of :: "login_throttle_config \<Rightarrow> int \<Rightarrow> int" where
  "cutoff_of c now = (case instant_sub now (lt_window c) of None \<Rightarrow> now | Some t \<Rightarrow> t)"

definition prune_table :: "int \<Rightarrow> failure_table \<Rightarrow> failure_table" where
  "prune_table cutoff failures =
     (if MAX_RATE_LIMIT_KEYS \<le> length failures
      then filter (\<lambda>(_, entries). entries \<noteq> [] \<and> cutoff \<le> last entries) failures else failures)"

text \<open>\<open>None\<close> is the panic of \<open>expect\<close>, on an empty queue under a budget of zero.\<close>

fun check_keys ::
  "login_throttle_config \<Rightarrow> int \<Rightarrow> int \<Rightarrow> failure_table \<Rightarrow> int option \<Rightarrow> (bytes \<times> nat) list \<Rightarrow>
   (int option \<times> failure_table) option" where
  "check_keys c now cutoff failures retry [] = Some (retry, failures)"
| "check_keys c now cutoff failures retry ((key, limit) # keys) =
     (case map_of failures key of
        None \<Rightarrow> check_keys c now cutoff failures retry keys
      | Some entries \<Rightarrow>
         (let entries = expire cutoff entries; failures = AList.update key entries failures
          in if length entries < limit then check_keys c now cutoff failures retry keys
             else case entries of
                    [] \<Rightarrow> None
                  | oldest # _ \<Rightarrow>
                     (let wait = (case instant_add oldest (lt_window c) of
                                    Some expiry \<Rightarrow> max 0 (expiry - now)
                                  | None \<Rightarrow> lt_window c);
                          retry = Some (case retry of None \<Rightarrow> wait | Some longest \<Rightarrow> max longest wait)
                      in check_keys c now cutoff failures retry keys)))"

definition retry_after ::
  "int \<Rightarrow> bytes \<Rightarrow> bytes option \<Rightarrow> login_rate_limiter \<Rightarrow> (int option \<times> login_rate_limiter) option" where
  "retry_after now username source rl =
     (let c = rl_config rl;
          cutoff = cutoff_of c now;
          keys = limiter_keys c username source;
          failures = prune_table cutoff (rl_failures rl)
      in if MAX_RATE_LIMIT_KEYS \<le> length failures \<and> list_ex (\<lambda>k. map_of failures (fst k) = None) keys
         then Some (Some (lt_window c), rl\<lparr>rl_failures := failures\<rparr>)
         else case check_keys c now cutoff failures None keys of
                None \<Rightarrow> None
              | Some (retry, failures) \<Rightarrow> Some (retry, rl\<lparr>rl_failures := failures\<rparr>))"

definition record_key :: "int \<Rightarrow> int \<Rightarrow> bytes \<times> nat \<Rightarrow> failure_table \<Rightarrow> failure_table" where
  "record_key now cutoff kl failures =
     (case map_of failures (fst kl) of
        Some entries \<Rightarrow>
          (let entries = expire cutoff entries
           in AList.update (fst kl) (if length entries < snd kl then entries @ [now] else entries) failures)
      | None \<Rightarrow>
          (if length failures < MAX_RATE_LIMIT_KEYS then AList.update (fst kl) [now] failures else failures))"

definition record_failure :: "int \<Rightarrow> bytes \<Rightarrow> bytes option \<Rightarrow> login_rate_limiter \<Rightarrow> login_rate_limiter" where
  "record_failure now username source rl =
     (let c = rl_config rl; cutoff = cutoff_of c now; failures = prune_table cutoff (rl_failures rl)
      in rl\<lparr>rl_failures := fold (record_key now cutoff) (limiter_keys c username source) failures\<rparr>)"

section \<open>The table of one key\<close>

definition table_ok :: "failure_table \<Rightarrow> bool" where
  "table_ok T \<longleftrightarrow> distinct (map fst T) \<and> length T \<le> MAX_RATE_LIMIT_KEYS"

lemma account_source_differ [simp]: "account_key u \<noteq> source_key s" "source_key s \<noteq> account_key u"
  by (simp_all add: account_key_def source_key_def ascii_def)

lemma length_update: "length (AList.update k v T) = length T + (if map_of T k = None then 1 else 0)"
  by (induction T) auto

lemma table_ok_update: "table_ok T \<Longrightarrow> map_of T k \<noteq> None \<Longrightarrow> table_ok (AList.update k v T)"
  by (auto simp: table_ok_def distinct_update length_update)

lemma map_of_filter_entry:
  "distinct (map fst T) \<Longrightarrow>
   map_of (filter (\<lambda>(_, es). P es) T) k = (case map_of T k of None \<Rightarrow> None | Some es \<Rightarrow> if P es then Some es else None)"
  by (induction T) (auto split: option.splits simp: map_of_eq_None_iff dest: map_of_SomeD intro: rev_image_eqI)

lemma map_of_prune:
  assumes "table_ok T"
  shows "map_of (prune_table cutoff T) k =
    (case map_of T k of
       None \<Rightarrow> None
     | Some es \<Rightarrow> if MAX_RATE_LIMIT_KEYS \<le> length T \<and> \<not> (es \<noteq> [] \<and> cutoff \<le> last es) then None else Some es)"
  using assms by (auto simp: prune_table_def table_ok_def map_of_filter_entry split: option.splits)

lemma table_ok_prune: "table_ok T \<Longrightarrow> table_ok (prune_table cutoff T)"
  by (auto simp: table_ok_def prune_table_def distinct_map_filter intro: le_trans [OF length_filter_le])

lemma check_keys_table:
  assumes "table_ok T" and "check_keys c now cutoff T r keys = Some (r', T')"
  shows "table_ok T' \<and> length T' = length T \<and> (r \<noteq> None \<longrightarrow> r' \<noteq> None) \<and>
    (\<forall>k. map_of T' k = (if k \<in> fst ` set keys then map_option (expire cutoff) (map_of T k) else map_of T k)) \<and>
    (r' = None \<longrightarrow> (\<forall>(k, l) \<in> set keys. \<forall>es. map_of T k = Some es \<longrightarrow> length (expire cutoff es) < l))"
  using assms
proof (induction keys arbitrary: T r)
  case (Cons kl keys)
  obtain k l where kl: "kl = (k, l)" by (cases kl)
  show ?case
  proof (cases "map_of T k")
    case None
    with Cons.prems(2) kl have "check_keys c now cutoff T r keys = Some (r', T')" by simp
    from Cons.IH [OF Cons.prems(1) this] None kl show ?thesis by auto
  next
    case (Some es)
    let ?T = "AList.update k (expire cutoff es) T"
    have idem: "expire cutoff (expire cutoff xs) = expire cutoff xs" for xs by (induction xs) (auto simp: expire_def)
    have ok: "table_ok ?T" and len: "length ?T = length T"
      using Cons.prems(1) Some by (simp_all add: table_ok_update length_update)
    show ?thesis
    proof (cases "length (expire cutoff es) < l")
      case True
      with Cons.prems(2) kl Some have "check_keys c now cutoff ?T r keys = Some (r', T')" by (simp add: Let_def)
      from Cons.IH [OF ok this] True Some kl len show ?thesis by (auto simp: update_conv' idem split: if_splits)
    next
      case False
      with Cons.prems(2) kl Some obtain w where "check_keys c now cutoff ?T (Some w) keys = Some (r', T')"
        by (auto simp: Let_def split: list.splits)
      from Cons.IH [OF ok this] False Some kl len show ?thesis by (auto simp: update_conv' idem split: if_splits)
    qed
  qed
qed auto

section \<open>Failures of one account\<close>

text \<open>
  \<open>F\<close> are the times of all evaluated failures of the account with key \<open>k\<close>; the queue of the key, if any, holds
  those that are not yet older than the window.
\<close>

definition tracks :: "int \<Rightarrow> failure_table \<Rightarrow> bytes \<Rightarrow> int list \<Rightarrow> int \<Rightarrow> bool" where
  "tracks W T k F now \<longleftrightarrow> sorted F \<and> (\<forall>t \<in> set F. t \<le> now) \<and>
     (case map_of T k of
        None \<Rightarrow> \<forall>t \<in> set F. t < now - W
      | Some es \<Rightarrow> \<exists>n. es = drop n F \<and> (\<forall>t \<in> set (take n F). t < now - W))"

definition window_ok :: "int \<Rightarrow> nat \<Rightarrow> int list \<Rightarrow> bool" where
  "window_ok W L F \<longleftrightarrow> (\<forall>n < length F. length (filter (\<lambda>t. F ! n - W \<le> t) (take (Suc n) F)) \<le> L)"

lemma sorted_le_last: "sorted xs \<Longrightarrow> x \<in> set xs \<Longrightarrow> x \<le> last xs"
  by (induction xs) auto

lemma tracks_mono: "tracks W T k F now \<Longrightarrow> now \<le> now' \<Longrightarrow> tracks W T k F now'"
  by (fastforce simp: tracks_def split: option.splits)

lemma tracks_cong: "tracks W T k F now \<Longrightarrow> map_of T' k = map_of T k \<Longrightarrow> tracks W T' k F now"
  by (simp add: tracks_def)

lemma expire_drop:
  obtains m where "expire cutoff (drop n F) = drop (n + m) F" and "\<forall>t \<in> set (take (n + m) F). t \<in> set (take n F) \<or> t < cutoff"
proof -
  let ?m = "length (takeWhile (\<lambda>e. e < cutoff) (drop n F))"
  have "expire cutoff (drop n F) = drop (n + ?m) F"
    by (simp add: expire_def dropWhile_eq_drop add.commute)
  moreover have "take (n + ?m) F = take n F @ takeWhile (\<lambda>e. e < cutoff) (drop n F)"
    by (simp add: take_add takeWhile_eq_take [symmetric])
  ultimately show ?thesis by (intro that [of ?m]) (auto dest: set_takeWhileD)
qed

lemma tracks_expire:
  assumes "tracks W T k F now" and "map_of T' k = map_option (expire (now - W)) (map_of T k)"
  shows "tracks W T' k F now"
proof (cases "map_of T k")
  case (Some es)
  with assms(1) obtain n where n: "es = drop n F" "\<forall>t \<in> set (take n F). t < now - W" by (auto simp: tracks_def)
  obtain m where "expire (now - W) (drop n F) = drop (n + m) F"
    "\<forall>t \<in> set (take (n + m) F). t \<in> set (take n F) \<or> t < now - W" by (rule expire_drop)
  then have "\<exists>i. expire (now - W) es = drop i F \<and> (\<forall>t \<in> set (take i F). t < now - W)"
    using n by (intro exI [of _ "n + m"]) auto
  with assms Some show ?thesis by (simp add: tracks_def)
qed (use assms in \<open>simp add: tracks_def\<close>)

lemma tracks_prune:
  assumes "table_ok T" and "tracks W T k F now"
  shows "tracks W (prune_table (now - W) T) k F now"
proof (cases "map_of (prune_table (now - W) T) k = map_of T k")
  case True
  with assms(2) show ?thesis by (rule tracks_cong)
next
  case False
  then obtain es where es: "map_of T k = Some es" "map_of (prune_table (now - W) T) k = None" "es = [] \<or> last es < now - W"
    using map_of_prune [OF assms(1), of "now - W" k] by (auto split: option.splits if_splits)
  from assms(2) es(1) obtain n where n: "es = drop n F" "\<forall>t \<in> set (take n F). t < now - W" and s: "sorted F"
    by (auto simp: tracks_def)
  have "t < now - W" if "t \<in> set es" for t
  proof -
    have "sorted es" using s n(1) by (simp add: sorted_wrt_drop)
    then have "t \<le> last es" using that by (rule sorted_le_last)
    with es(3) that show ?thesis by auto
  qed
  then have "t < now - W" if "t \<in> set F" for t
    using that n by (metis UnE append_take_drop_id set_append)
  with assms(2) es(2) show ?thesis by (simp add: tracks_def)
qed

lemma tracks_count:
  assumes "tracks W T k F now" and "map_of T k = Some es"
  shows "length (filter (\<lambda>t. now - W \<le> t) F) \<le> length es"
proof -
  from assms obtain n where n: "es = drop n F" "\<forall>t \<in> set (take n F). t < now - W" by (auto simp: tracks_def)
  have "filter (\<lambda>t. now - W \<le> t) F = filter (\<lambda>t. now - W \<le> t) (take n F) @ filter (\<lambda>t. now - W \<le> t) (drop n F)"
    by (metis append_take_drop_id filter_append)
  also have "filter (\<lambda>t. now - W \<le> t) (take n F) = []" using n(2) by (auto simp: filter_empty_conv)
  finally show ?thesis using n(1) by (simp only: append_Nil length_filter_le)
qed

lemma tracks_count_None:
  assumes "tracks W T k F now" and "map_of T k = None"
  shows "filter (\<lambda>t. now - W \<le> t) F = []"
  using assms by (auto simp: tracks_def filter_empty_conv)

lemma record_key_other: "k \<noteq> fst kl \<Longrightarrow> map_of (record_key now cutoff kl T) k = map_of T k"
  by (auto simp: record_key_def update_conv' Let_def split: option.splits)

lemma table_ok_record_key: "table_ok T \<Longrightarrow> table_ok (record_key now cutoff kl T)"
  by (auto simp: record_key_def table_ok_def distinct_update length_update Let_def split: option.splits)

lemma record_tracks:
  assumes T: "table_ok T" "tracks W T k F now" and L: "0 < L" and W: "0 \<le> W"
    and free: "map_of T k = None \<Longrightarrow> length T < MAX_RATE_LIMIT_KEYS" "\<And>es. map_of T k = Some es \<Longrightarrow> length es < L"
  shows "tracks W (record_key now (now - W) (k, L) T) k (F @ [now]) now"
    and "length (filter (\<lambda>t. now - W \<le> t) (F @ [now])) \<le> L"
proof -
  have F: "sorted F" "\<forall>t \<in> set F. t \<le> now" using T(2) by (auto simp: tracks_def)
  then have s: "sorted (F @ [now])" by (simp add: sorted_append)
  show "tracks W (record_key now (now - W) (k, L) T) k (F @ [now]) now"
  proof (cases "map_of T k")
    case None
    with free(1) have "map_of (record_key now (now - W) (k, L) T) k = Some [now]" by (simp add: record_key_def update_conv')
    moreover have "\<forall>t \<in> set F. t < now - W" using T(2) None by (simp add: tracks_def)
    ultimately show ?thesis using s F(2) by (auto simp: tracks_def intro!: exI [of _ "length F"])
  next
    case (Some es)
    then obtain n where n: "es = drop n F" "\<forall>t \<in> set (take n F). t < now - W" using T(2) by (auto simp: tracks_def)
    obtain m where m: "expire (now - W) (drop n F) = drop (n + m) F"
      "\<forall>t \<in> set (take (n + m) F). t \<in> set (take n F) \<or> t < now - W" by (rule expire_drop)
    have "length (drop (n + m) F) < L" using free(2) [OF Some] n(1) by simp
    then have "map_of (record_key now (now - W) (k, L) T) k = Some (drop (n + m) F @ [now])"
      using Some n(1) m(1) by (simp add: record_key_def update_conv' Let_def)
    moreover have "drop (n + m) F @ [now] = drop (min (n + m) (length F)) (F @ [now])" by (cases "n + m \<le> length F") auto
    moreover have "take (min (n + m) (length F)) (F @ [now]) = take (n + m) F" by (cases "n + m \<le> length F") auto
    then have "\<forall>t \<in> set (take (min (n + m) (length F)) (F @ [now])). t < now - W" using m(2) n(2) by auto
    ultimately have "\<exists>i. drop (n + m) F @ [now] = drop i (F @ [now]) \<and> (\<forall>t \<in> set (take i (F @ [now])). t < now - W)"
      and "map_of (record_key now (now - W) (k, L) T) k = Some (drop (n + m) F @ [now])" by blast+
    with s F(2) show ?thesis by (auto simp: tracks_def)
  qed
  show "length (filter (\<lambda>t. now - W \<le> t) (F @ [now])) \<le> L"
  proof (cases "map_of T k")
    case None
    with tracks_count_None [OF T(2)] L W show ?thesis by simp
  next
    case (Some es)
    with tracks_count [OF T(2) Some] free(2) [OF Some] W show ?thesis by simp
  qed
qed

section \<open>Login attempts\<close>

text \<open>
  A login attempt as the limiter sees it: when it is checked and when its failure is recorded, who and from where, and
  whether the credential is rejected if it is evaluated. \<open>limiter_attempt\<close> also tells whether the attempt was an evaluated
  failure.
\<close>

record login_attempt =
  la_check :: int
  la_record :: int
  la_username :: bytes
  la_source :: "bytes option"
  la_fails :: bool

definition limiter_attempt :: "login_attempt \<Rightarrow> login_rate_limiter \<Rightarrow> (bool \<times> login_rate_limiter) option" where
  "limiter_attempt a rl =
     (case retry_after (la_check a) (la_username a) (la_source a) rl of
        None \<Rightarrow> None
      | Some (Some _, rl') \<Rightarrow> Some (False, rl')
      | Some (None, rl') \<Rightarrow>
          Some (la_fails a, if la_fails a then record_failure (la_record a) (la_username a) (la_source a) rl' else rl'))"

definition in_range :: "login_throttle_config \<Rightarrow> int \<Rightarrow> bool" where
  "in_range c now \<longleftrightarrow> 0 \<le> now \<and> 0 \<le> lt_window c \<and> lt_window c \<le> 2 ^ 63 * 1000000000"

lemma cutoff_in_range: "in_range c now \<Longrightarrow> cutoff_of c now = now - lt_window c"
  by (simp add: in_range_def cutoff_of_def instant_sub_def)

lemma retry_after_tracks:
  assumes T: "table_ok (rl_failures rl)" "tracks (lt_window (rl_config rl)) (rl_failures rl) k F now" and t: "in_range (rl_config rl) now"
    and r: "retry_after now u src rl = Some (r, rl')"
  shows "table_ok (rl_failures rl') \<and> tracks (lt_window (rl_config rl)) (rl_failures rl') k F now \<and> rl_config rl' = rl_config rl \<and>
    (r = None \<longrightarrow> (\<forall>(key, l) \<in> set (limiter_keys (rl_config rl) u src).
       (map_of (rl_failures rl') key = None \<longrightarrow> length (rl_failures rl') < MAX_RATE_LIMIT_KEYS) \<and>
       (\<forall>es. map_of (rl_failures rl') key = Some es \<longrightarrow> length es < l)))"
proof -
  let ?c = "rl_config rl" and ?W = "lt_window (rl_config rl)"
  let ?P = "prune_table (now - ?W) (rl_failures rl)" and ?keys = "limiter_keys (rl_config rl) u src"
  have P: "table_ok ?P" "tracks ?W ?P k F now" using table_ok_prune [OF T(1)] tracks_prune [OF T] by auto
  note cut = cutoff_in_range [OF t]
  show ?thesis
  proof (cases "MAX_RATE_LIMIT_KEYS \<le> length ?P \<and> list_ex (\<lambda>k. map_of ?P (fst k) = None) ?keys")
    case True
    with r cut have "r = Some ?W" "rl' = rl\<lparr>rl_failures := ?P\<rparr>" by (auto simp: retry_after_def Let_def)
    with P show ?thesis by simp
  next
    case False
    with r cut obtain T' where c: "check_keys ?c now (now - ?W) ?P None ?keys = Some (r, T')" "rl' = rl\<lparr>rl_failures := T'\<rparr>"
      by (auto simp: retry_after_def Let_def split: option.splits)
    note k = check_keys_table [OF P(1) c(1)]
    have "tracks ?W T' k F now"
      using k P(2) tracks_expire [OF P(2), of T'] tracks_cong [OF P(2), of T'] by (cases "k \<in> fst ` set ?keys") auto
    moreover have "(map_of T' key = None \<longrightarrow> length T' < MAX_RATE_LIMIT_KEYS) \<and> (\<forall>es. map_of T' key = Some es \<longrightarrow> length es < l)"
      if "r = None" "(key, l) \<in> set ?keys" for key l
    proof -
      have "key \<in> fst ` set ?keys" using that(2) by (rule rev_image_eqI) simp
      then have key: "map_of T' key = map_option (expire (now - ?W)) (map_of ?P key)" using k by simp
      have "length ?P < MAX_RATE_LIMIT_KEYS" if "map_of ?P key = None"
        using False that bexI [OF _ \<open>(key, l) \<in> set ?keys\<close>, of "\<lambda>k. map_of ?P (fst k) = None"] by (simp add: list_ex_iff)
      moreover have "length (expire (now - ?W) es) < l" if "map_of ?P key = Some es" for es
        using k \<open>r = None\<close> \<open>(key, l) \<in> set ?keys\<close> that by blast
      moreover have "length T' = length ?P" using k by simp
      ultimately show ?thesis using key by (cases "map_of ?P key") auto
    qed
    ultimately show ?thesis using k c(2) by auto
  qed
qed

lemma record_failure_tracks:
  fixes src :: "bytes option"
  assumes T: "table_ok (rl_failures rl)" "tracks (lt_window (rl_config rl)) (rl_failures rl) k F now"
    and t: "in_range (rl_config rl) now" and k: "k = account_key u0" and L: "0 < lt_max_account_failures (rl_config rl)"
    and free: "map_of (rl_failures rl) (account_key u) = None \<longrightarrow> length (rl_failures rl) < MAX_RATE_LIMIT_KEYS"
      "\<forall>es. map_of (rl_failures rl) (account_key u) = Some es \<longrightarrow> length es < lt_max_account_failures (rl_config rl)"
  defines "rl' \<equiv> record_failure now u src rl" and "F' \<equiv> (if account_key u = k then F @ [now] else F)"
  shows "table_ok (rl_failures rl') \<and> tracks (lt_window (rl_config rl)) (rl_failures rl') k F' now \<and> rl_config rl' = rl_config rl \<and>
    (account_key u = k \<longrightarrow> length (filter (\<lambda>t. now - lt_window (rl_config rl) \<le> t) F') \<le> lt_max_account_failures (rl_config rl))"
proof -
  let ?c = "rl_config rl" and ?W = "lt_window (rl_config rl)" and ?L = "lt_max_account_failures (rl_config rl)"
  let ?P = "prune_table (now - ?W) (rl_failures rl)"
  let ?A = "record_key now (now - ?W) (account_key u, ?L) ?P"
  have P: "table_ok ?P" "tracks ?W ?P k F now" using table_ok_prune [OF T(1)] tracks_prune [OF T] by auto
  have W: "0 \<le> ?W" using t by (simp add: in_range_def)
  have f1: "length ?P < MAX_RATE_LIMIT_KEYS" if "map_of ?P (account_key u) = None"
  proof (cases "map_of (rl_failures rl) (account_key u)")
    case None
    with free(1) show ?thesis by (auto simp: prune_table_def)
  next
    case (Some es)
    then have sat: "MAX_RATE_LIMIT_KEYS \<le> length (rl_failures rl)" and "\<not> (es \<noteq> [] \<and> now - ?W \<le> last es)"
      using that map_of_prune [OF T(1), of "now - ?W" "account_key u"] by (auto split: if_splits)
    moreover have "(account_key u, es) \<in> set (rl_failures rl)" using Some by (rule map_of_SomeD)
    ultimately have "length ?P < length (rl_failures rl)"
      using length_filter_less [of "(account_key u, es)" "rl_failures rl" "\<lambda>(_, entries). entries \<noteq> [] \<and> now - ?W \<le> last entries"]
      by (simp add: prune_table_def)
    with T(1) show ?thesis by (simp add: table_ok_def)
  qed
  have f2: "length es < ?L" if "map_of ?P (account_key u) = Some es" for es
    using that free(2) map_of_prune [OF T(1), of "now - ?W" "account_key u"] by (auto split: option.splits if_splits)
  have A: "table_ok ?A" by (rule table_ok_record_key [OF P(1)])
  have tA: "tracks ?W ?A k F' now"
    using record_tracks(1) [OF P(1) _ L W, of "account_key u" F now] P(2) f1 f2 tracks_cong [OF P(2)] record_key_other [of k "(account_key u, ?L)"]
    by (auto simp: F'_def)
  obtain B where B: "rl_failures rl' = B" "table_ok B" "map_of B k = map_of ?A k"
  proof (cases src)
    case None
    show ?thesis by (rule that [of ?A]) (use A None in \<open>simp_all add: rl'_def record_failure_def limiter_keys_def cutoff_in_range [OF t] Let_def\<close>)
  next
    case (Some s)
    show ?thesis
      by (rule that [of "record_key now (now - ?W) (source_key s, lt_max_source_failures ?c) ?A"])
         (use A Some k in \<open>simp_all add: rl'_def record_failure_def limiter_keys_def cutoff_in_range [OF t] Let_def
            table_ok_record_key record_key_other\<close>)
  qed
  have "length (filter (\<lambda>t. now - ?W \<le> t) F') \<le> ?L" if "account_key u = k"
    using record_tracks(2) [OF P(1) _ L W, of "account_key u" F now] P(2) f1 f2 that by (auto simp: F'_def)
  moreover have "rl_config rl' = ?c" by (simp add: rl'_def record_failure_def Let_def)
  ultimately show ?thesis using B tracks_cong [OF tA B(3)] by auto
qed

lemma window_ok_snoc:
  "window_ok W L (F @ [now]) \<longleftrightarrow> window_ok W L F \<and> length (filter (\<lambda>t. now - W \<le> t) (F @ [now])) \<le> L"
  by (auto simp: window_ok_def nth_append less_Suc_eq split: if_splits)

lemma length_filter_imp: "(\<And>x. x \<in> set xs \<Longrightarrow> P x \<Longrightarrow> Q x) \<Longrightarrow> length (filter P xs) \<le> length (filter Q xs)"
  by (induction xs) (auto simp: le_SucI)

lemma window_bound:
  assumes "window_ok W L F" and "sorted F"
  shows "length (filter (\<lambda>t. a \<le> t \<and> t \<le> a + W) F) \<le> L"
  using assms
proof (induction F rule: rev_induct)
  case (snoc x F)
  from snoc.prems(1) have w: "window_ok W L F" "length (filter (\<lambda>t. x - W \<le> t) (F @ [x])) \<le> L" by (simp_all add: window_ok_snoc)
  show ?case
  proof (cases "x \<le> a + W")
    case True
    then have "length (filter (\<lambda>t. a \<le> t \<and> t \<le> a + W) (F @ [x])) \<le> length (filter (\<lambda>t. x - W \<le> t) (F @ [x]))"
      by (intro length_filter_imp) auto
    with w(2) show ?thesis by simp
  next
    case False
    with snoc w(1) show ?thesis by (simp add: sorted_append)
  qed
qed simp

definition limiter_inv :: "login_rate_limiter \<Rightarrow> bytes \<Rightarrow> int list \<Rightarrow> int \<Rightarrow> bool" where
  "limiter_inv rl k F now \<longleftrightarrow> table_ok (rl_failures rl) \<and> tracks (lt_window (rl_config rl)) (rl_failures rl) k F now \<and>
     window_ok (lt_window (rl_config rl)) (lt_max_account_failures (rl_config rl)) F"

lemma limiter_inv_new: "limiter_inv (login_rate_limiter_new c) k [] now"
  by (simp add: limiter_inv_def login_rate_limiter_new_def table_ok_def tracks_def window_ok_def)

lemma limiter_inv_mono: "limiter_inv rl k F now \<Longrightarrow> now \<le> now' \<Longrightarrow> limiter_inv rl k F now'"
  by (auto simp: limiter_inv_def tracks_mono)

lemma limiter_attempt_inv:
  assumes I: "limiter_inv rl k F now" and k: "k = account_key u0" and L: "0 < lt_max_account_failures (rl_config rl)"
    and r: "in_range (rl_config rl) now" and t: "now \<le> la_check a" "la_check a \<le> la_record a"
    and s: "limiter_attempt a rl = Some (b, rl')"
  shows "limiter_inv rl' k (if b \<and> account_key (la_username a) = k then F @ [la_record a] else F) (la_record a) \<and>
    rl_config rl' = rl_config rl"
proof -
  let ?c = "rl_config rl"
  have r1: "in_range ?c (la_check a)" "in_range ?c (la_record a)" using r t by (auto simp: in_range_def)
  have I1: "table_ok (rl_failures rl)" "tracks (lt_window ?c) (rl_failures rl) k F (la_check a)" "window_ok (lt_window ?c) (lt_max_account_failures ?c) F"
    using limiter_inv_mono [OF I t(1)] by (auto simp: limiter_inv_def)
  from s obtain q rl1 where ra: "retry_after (la_check a) (la_username a) (la_source a) rl = Some (q, rl1)"
    by (auto simp: limiter_attempt_def split: option.splits)
  note R = retry_after_tracks [OF I1(1,2) r1(1) ra]
  have I2: "limiter_inv rl1 k F (la_record a)"
    using R I1(3) tracks_mono [OF _ t(2)] by (auto simp: limiter_inv_def)
  show ?thesis
  proof (cases "q = None \<and> la_fails a")
    case False
    with s ra have "b = False" "rl' = rl1" by (auto simp: limiter_attempt_def split: option.splits)
    with I2 R show ?thesis by simp
  next
    case True
    then have b: "b = True" "rl' = record_failure (la_record a) (la_username a) (la_source a) rl1"
      using s ra by (auto simp: limiter_attempt_def)
    have c1: "rl_config rl1 = ?c" using R by simp
    have "(account_key (la_username a), lt_max_account_failures ?c) \<in> set (limiter_keys ?c (la_username a) (la_source a))"
      by (simp add: limiter_keys_def)
    then have free: "map_of (rl_failures rl1) (account_key (la_username a)) = None \<longrightarrow> length (rl_failures rl1) < MAX_RATE_LIMIT_KEYS"
      "\<forall>es. map_of (rl_failures rl1) (account_key (la_username a)) = Some es \<longrightarrow> length es < lt_max_account_failures ?c"
      using R True by blast+
    have T: "table_ok (rl_failures rl1)" "tracks (lt_window (rl_config rl1)) (rl_failures rl1) k F (la_record a)"
      using I2 by (simp_all add: limiter_inv_def)
    note D = record_failure_tracks [OF T _ k, where u = "la_username a" and src = "la_source a", unfolded c1, OF r1(2) L free]
    show ?thesis
    proof (cases "account_key (la_username a) = k")
      case True
      with D b c1 I2 show ?thesis by (simp add: limiter_inv_def window_ok_snoc)
    next
      case False
      with D b c1 I2 show ?thesis by (simp add: limiter_inv_def)
    qed
  qed
qed

end
