(* ===== verification/Auth.thy ===== *)
theory Auth
  imports LoginThrottle
begin

text \<open>
  Authentication, roles and sessions (\<^verbatim>\<open>byoridb-graph/src/auth.rs\<close>, \<open>AuthManager\<close>). Each method is one step on the
  manager's state; \<open>authenticate_evaluated\<close>, which releases the user table while the password is verified, is the
  composition of \<open>auth_begin\<close> and \<open>auth_finish\<close>, so that other steps can come between.

  The \<open>argon2\<close> crate is a parameter, \<open>auth_env\<close>. Random draws are arguments (an error text, or the bytes drawn), and so are the
  readings of the clocks, in nanoseconds. A result of \<open>None\<close> is a call that does not return: an addition of a \<open>SystemTime\<close> and
  a \<open>Duration\<close> that panics, or a session id loop that has found no fresh id in the given draws; the state such a call leaves is not modelled.
  The semaphore that queues verifications is kept as its number of permits only.
\<close>

section \<open>Data\<close>

datatype graph_error =
    AuthFailed bytes
  | TooManyAttempts int
  | SessionNotFound i64
  | ParseError bytes
  | ValidationError bytes
  | PlanningError bytes
  | ExecutionError bytes
  | GraphStorage bytes
  | BadSyntax bytes
  | SemanticError bytes
  | InvalidOperation bytes
  | InternalError bytes

datatype permission = PRead | PWrite | PCreate | PDelete | PAlter | PDrop

record permission_entry =
  pe_space :: bytes
  pe_permission :: permission

definition permission_any :: "permission \<Rightarrow> permission_entry" where
  "permission_any p = \<lparr>pe_space = ascii ''*'', pe_permission = p\<rparr>"

definition permission_space :: "bytes \<Rightarrow> permission \<Rightarrow> permission_entry" where
  "permission_space sp p = \<lparr>pe_space = sp, pe_permission = p\<rparr>"

record role =
  role_name :: bytes
  role_permissions :: "permission_entry list"

definition role_god :: role where
  "role_god = \<lparr>role_name = ascii ''GOD'', role_permissions = map permission_any [PRead, PWrite, PCreate, PDelete, PAlter, PDrop]\<rparr>"

definition role_admin :: role where
  "role_admin = \<lparr>role_name = ascii ''ADMIN'', role_permissions = map permission_any [PRead, PWrite, PCreate, PDelete, PAlter, PDrop]\<rparr>"

definition role_dba :: role where
  "role_dba = \<lparr>role_name = ascii ''DBA'', role_permissions = map permission_any [PRead, PWrite, PCreate, PAlter]\<rparr>"

definition role_user :: role where
  "role_user = \<lparr>role_name = ascii ''USER'', role_permissions = map permission_any [PRead, PWrite]\<rparr>"

definition role_guest :: role where
  "role_guest = \<lparr>role_name = ascii ''GUEST'', role_permissions = map permission_any [PRead]\<rparr>"

definition has_permission :: "role \<Rightarrow> bytes \<Rightarrow> permission \<Rightarrow> bool" where
  "has_permission r sp p = list_ex (\<lambda>e. (pe_space e = ascii ''*'' \<or> pe_space e = sp) \<and> pe_permission e = p) (role_permissions r)"

record user =
  us_username :: bytes
  us_password_hash :: bytes
  us_roles :: "bytes list"
  us_enabled :: bool

record auth_session =
  as_id :: i64
  as_username :: bytes
  as_roles :: "bytes list"
  as_created_at :: int
  as_expires_at :: int

definition session_is_expired :: "int \<Rightarrow> auth_session \<Rightarrow> bool" where
  "session_is_expired now s \<longleftrightarrow> as_expires_at s \<le> now"

record failed_attempt =
  fa_count :: u32
  fa_locked_until :: "int option"

record auth_manager =
  am_users :: "(bytes \<times> user) list"
  am_roles :: "(bytes \<times> role) list"
  am_sessions :: "(i64 \<times> auth_session) list"
  am_dummy_password_hash :: bytes
  am_failed_attempts :: "(bytes \<times> failed_attempt) list"
  am_login_rate_limiter :: login_rate_limiter
  am_argon2_permits :: nat
  am_throttle :: login_throttle_config
  am_session_ttl :: int

text \<open>
  The errors of the common crate, with their printed form.
\<close>

datatype common_error =
    NullValue
  | BadData bytes
  | BadType bytes bytes
  | Overflow
  | UnknownProp bytes
  | DivByZero
  | OutOfRange
  | CommonIo bytes
  | CommonSerialization bytes
  | CommonStorage bytes
  | CommonNetwork bytes
  | CommonParse bytes
  | CommonInternal bytes

fun display_error :: "common_error \<Rightarrow> bytes" where
  "display_error NullValue = ascii ''Null value''"
| "display_error (BadData m) = ascii ''Bad data: '' @ m"
| "display_error (BadType e f) = ascii ''Bad type: expected '' @ e @ ascii '', found '' @ f"
| "display_error Overflow = ascii ''Overflow''"
| "display_error (UnknownProp p) = ascii ''Unknown property: '' @ p"
| "display_error DivByZero = ascii ''Division by zero''"
| "display_error OutOfRange = ascii ''Out of range''"
| "display_error (CommonIo m) = ascii ''IO error: '' @ m"
| "display_error (CommonSerialization m) = ascii ''Serialization error: '' @ m"
| "display_error (CommonStorage m) = ascii ''Storage error: '' @ m"
| "display_error (CommonNetwork m) = ascii ''Network error: '' @ m"
| "display_error (CommonParse m) = ascii ''Parse error: '' @ m"
| "display_error (CommonInternal m) = ascii ''Internal error: '' @ m"

text \<open>
  The \<open>argon2\<close> crate as the code uses it: \<open>phc\<close> is what it tells of an encoded hash (the salt is decoded to its length, or
  cannot be decoded), \<open>ae_verify\<close> verifies a password against an encoded hash that parses, \<open>ae_encode_salt\<close> and \<open>ae_hash\<close>
  are \<open>SaltString::encode_b64\<close> and \<open>hash_password\<close>, and the last four fields are constants of the crate. The other two fields are the
  runtime's: whether the semaphore is closed, and the error of the blocking task, if any.
\<close>

record phc =
  phc_is_argon2id :: bool
  phc_is_version_0x13 :: bool
  phc_salt :: "nat option option"
  phc_output_len :: "nat option"
  phc_params :: "(u32 \<times> u32 \<times> u32) option"

record auth_env =
  ae_parse :: "bytes \<Rightarrow> phc option"
  ae_verify :: "bytes \<Rightarrow> bytes \<Rightarrow> bool"
  ae_encode_salt :: "bytes \<Rightarrow> bytes + bytes"
  ae_hash :: "bytes \<Rightarrow> bytes \<Rightarrow> bytes + bytes"
  ae_worker_closed :: bool
  ae_worker_error :: "bytes option"
  ae_default_m_cost :: u32
  ae_default_t_cost :: u32
  ae_default_output_len :: nat
  ae_min_salt_len :: nat

text \<open>\<open>SystemTime + Duration\<close>, whose seconds are an \<open>i64\<close>.\<close>

definition system_add :: "int \<Rightarrow> int \<Rightarrow> int option" where
  "system_add t d = (if t + d < 2 ^ 63 * 1000000000 then Some (t + d) else None)"

section \<open>Passwords\<close>

definition crypto_hash_password :: "auth_env \<Rightarrow> bytes + bytes \<Rightarrow> bytes \<Rightarrow> common_error + bytes" where
  "crypto_hash_password env salt_draw password =
     (if trim password = [] then Inl (BadData (ascii ''Password must not be blank''))
      else case salt_draw of
             Inl e \<Rightarrow> Inl (CommonInternal (ascii ''Password salt generation failed: '' @ e))
           | Inr salt_bytes \<Rightarrow>
              (case ae_encode_salt env salt_bytes of
                 Inl e \<Rightarrow> Inl (CommonInternal (ascii ''Password salt encoding failed: '' @ e))
               | Inr salt \<Rightarrow>
                  (case ae_hash env password salt of
                     Inl e \<Rightarrow> Inl (CommonInternal (ascii ''Password hashing failed: '' @ e))
                   | Inr h \<Rightarrow> Inr h)))"

definition crypto_verify_password :: "auth_env \<Rightarrow> bytes \<Rightarrow> bytes \<Rightarrow> bool" where
  "crypto_verify_password env password h =
     (case ae_parse env h of None \<Rightarrow> False | Some _ \<Rightarrow> ae_verify env password h)"

definition hash_password :: "auth_env \<Rightarrow> bytes + bytes \<Rightarrow> bytes \<Rightarrow> graph_error + bytes" where
  "hash_password env salt_draw password =
     (if trim password = [] then Inl (InvalidOperation (ascii ''Password must not be blank''))
      else case crypto_hash_password env salt_draw password of
             Inl e \<Rightarrow> Inl (InternalError (display_error e))
           | Inr h \<Rightarrow> Inr h)"

definition verify_password :: "auth_env \<Rightarrow> bytes \<Rightarrow> bytes \<Rightarrow> bool" where
  "verify_password env password h = crypto_verify_password env password h"

definition verify_password_bounded :: "auth_env \<Rightarrow> bytes \<Rightarrow> bytes \<Rightarrow> graph_error + bool" where
  "verify_password_bounded env password h =
     (if ae_worker_closed env then Inl (InternalError (ascii ''Authentication worker closed''))
      else case ae_worker_error env of
             Some e \<Rightarrow> Inl (InternalError (ascii ''Authentication worker failed: '' @ e))
           | None \<Rightarrow> Inr (verify_password env password h))"

definition MAX_PERSISTED_ARGON2_M_COST_KIB :: u32 where
  "MAX_PERSISTED_ARGON2_M_COST_KIB = 64 * 1024"

definition MAX_PERSISTED_ARGON2_T_COST :: u32 where
  "MAX_PERSISTED_ARGON2_T_COST = 4"

definition MAX_PERSISTED_ARGON2_P_COST :: u32 where
  "MAX_PERSISTED_ARGON2_P_COST = 4"

definition is_supported_password_hash :: "auth_env \<Rightarrow> bytes \<Rightarrow> bool" where
  "is_supported_password_hash env encoded =
     (case ae_parse env encoded of
        None \<Rightarrow> False
      | Some parsed \<Rightarrow>
         if \<not> phc_is_argon2id parsed \<or> \<not> phc_is_version_0x13 parsed then False
         else case (phc_salt parsed, phc_output_len parsed) of
                (Some (Some decoded_salt_len), Some output_len) \<Rightarrow>
                  (if decoded_salt_len < ae_min_salt_len env then False
                   else case phc_params parsed of
                          None \<Rightarrow> False
                        | Some (m_cost, t_cost, p_cost) \<Rightarrow>
                            ae_default_m_cost env \<le> m_cost \<and> m_cost \<le> MAX_PERSISTED_ARGON2_M_COST_KIB \<and>
                            ae_default_t_cost env \<le> t_cost \<and> t_cost \<le> MAX_PERSISTED_ARGON2_T_COST \<and>
                            1 \<le> p_cost \<and> p_cost \<le> MAX_PERSISTED_ARGON2_P_COST \<and>
                            output_len = ae_default_output_len env)
              | _ \<Rightarrow> False)"

definition hex_digit :: "u8 \<Rightarrow> u8" where
  "hex_digit n = (if n < 10 then 48 + n else 87 + n)"

definition generate_random_password :: "bytes + bytes \<Rightarrow> graph_error + bytes" where
  "generate_random_password draw =
     (case draw of
        Inl e \<Rightarrow> Inl (InternalError (ascii ''Credential generation failed: '' @ e))
      | Inr bs \<Rightarrow> Inr (concat (map (\<lambda>b. [hex_digit (b div 16), hex_digit (b mod 16)]) bs)))"

section \<open>Construction\<close>

definition FALLBACK_DUMMY_PASSWORD_HASH :: bytes where
  "FALLBACK_DUMMY_PASSWORD_HASH =
     ascii ''$argon2id$v=19$m=19456,t=2,p=1$YnlvcmlkYi10aW1pbmc$AAAAAAAAAAAAAAAAAAAAAAAAAAAAAAAAAAAAAAAAAAA''"

definition default_roles :: "(bytes \<times> role) list" where
  "default_roles =
     [(ascii ''GOD'', role_god), (ascii ''ADMIN'', role_admin), (ascii ''DBA'', role_dba), (ascii ''USER'', role_user),
      (ascii ''GUEST'', role_guest)]"

definition from_password_hashes :: "bytes option \<Rightarrow> bytes \<Rightarrow> int \<Rightarrow> login_throttle_config \<Rightarrow> auth_manager" where
  "from_password_hashes root_hash dummy session_ttl throttle =
     \<lparr>am_users = (case root_hash of
                    None \<Rightarrow> []
                  | Some h \<Rightarrow> [(ascii ''root'', \<lparr>us_username = ascii ''root'', us_password_hash = h,
                                                 us_roles = [ascii ''GOD''], us_enabled = True\<rparr>)]),
      am_roles = default_roles, am_sessions = [], am_dummy_password_hash = dummy, am_failed_attempts = [],
      am_login_rate_limiter = login_rate_limiter_new throttle,
      am_argon2_permits = lt_max_concurrent_verifications throttle,
      am_throttle = throttle, am_session_ttl = session_ttl\<rparr>"

text \<open>The random draws of a construction, each an error text or the bytes drawn.\<close>

record init_draws =
  id_root_password :: "bytes + bytes"
  id_root_salt :: "bytes + bytes"
  id_dummy_password :: "bytes + bytes"
  id_dummy_salt :: "bytes + bytes"
  id_closed_password :: "bytes + bytes"
  id_closed_salt :: "bytes + bytes"

definition try_with_throttle ::
  "auth_env \<Rightarrow> init_draws \<Rightarrow> bytes \<Rightarrow> int \<Rightarrow> login_throttle_config \<Rightarrow> graph_error + auth_manager" where
  "try_with_throttle env d root_password session_ttl throttle =
     (case validate_throttle throttle of
        Inl e \<Rightarrow> Inl (InvalidOperation e)
      | Inr _ \<Rightarrow>
         (case hash_password env (id_root_salt d) root_password of
            Inl e \<Rightarrow> Inl e
          | Inr root_hash \<Rightarrow>
             (case generate_random_password (id_dummy_password d) of
                Inl e \<Rightarrow> Inl e
              | Inr dummy_password \<Rightarrow>
                 (case hash_password env (id_dummy_salt d) dummy_password of
                    Inl e \<Rightarrow> Inl e
                  | Inr dummy \<Rightarrow> Inr (from_password_hashes (Some root_hash) dummy session_ttl throttle)))))"

definition try_with_config :: "auth_env \<Rightarrow> init_draws \<Rightarrow> bytes \<Rightarrow> int \<Rightarrow> graph_error + auth_manager" where
  "try_with_config env d root_password session_ttl =
     try_with_throttle env d root_password session_ttl login_throttle_default"

definition fail_closed :: "auth_env \<Rightarrow> init_draws \<Rightarrow> int \<Rightarrow> auth_manager" where
  "fail_closed env d session_ttl =
     (let dummy = (case generate_random_password (id_closed_password d) of
                     Inl _ \<Rightarrow> FALLBACK_DUMMY_PASSWORD_HASH
                   | Inr p \<Rightarrow>
                      (case hash_password env (id_closed_salt d) p of
                         Inl _ \<Rightarrow> FALLBACK_DUMMY_PASSWORD_HASH
                       | Inr h \<Rightarrow> h))
      in from_password_hashes None dummy session_ttl login_throttle_default)"

definition with_config :: "auth_env \<Rightarrow> init_draws \<Rightarrow> bytes \<Rightarrow> int \<Rightarrow> auth_manager" where
  "with_config env d root_password session_ttl =
     (case try_with_config env d root_password session_ttl of
        Inr m \<Rightarrow> m
      | Inl _ \<Rightarrow> fail_closed env d session_ttl)"

definition with_ttl :: "auth_env \<Rightarrow> init_draws \<Rightarrow> bytes option \<Rightarrow> int \<Rightarrow> auth_manager" where
  "with_ttl env d root_password_env session_ttl =
     (case (case root_password_env of
              Some p \<Rightarrow> if trim p \<noteq> [] then Inr p else generate_random_password (id_root_password d)
            | None \<Rightarrow> generate_random_password (id_root_password d)) of
        Inl _ \<Rightarrow> fail_closed env d session_ttl
      | Inr root_password \<Rightarrow> with_config env d root_password session_ttl)"

definition DEFAULT_SESSION_TTL_SECS :: int where
  "DEFAULT_SESSION_TTL_SECS = 24 * 60 * 60"

definition auth_manager_new :: "auth_env \<Rightarrow> init_draws \<Rightarrow> bytes option \<Rightarrow> auth_manager" where
  "auth_manager_new env d root_password_env = with_ttl env d root_password_env (from_secs DEFAULT_SESSION_TTL_SECS)"

section \<open>Sessions\<close>

definition invalidate_user_sessions :: "bytes \<Rightarrow> auth_manager \<Rightarrow> nat \<times> auth_manager" where
  "invalidate_user_sessions username m =
     (let sessions = filter (\<lambda>(_, s). as_username s \<noteq> username) (am_sessions m)
      in (length (am_sessions m) - length sessions, m\<lparr>am_sessions := sessions\<rparr>))"

definition get_session_roles :: "int \<Rightarrow> i64 \<Rightarrow> auth_manager \<Rightarrow> (bytes list option \<times> auth_manager) option" where
  "get_session_roles now session_id m =
     (case map_of (am_sessions m) session_id of
        None \<Rightarrow> Some (None, m)
      | Some s \<Rightarrow>
         (if now < as_expires_at s
          then case system_add now (am_session_ttl m) of
                 None \<Rightarrow> None
               | Some t \<Rightarrow> Some (Some (as_roles s), m\<lparr>am_sessions := AList.update session_id (s\<lparr>as_expires_at := t\<rparr>) (am_sessions m)\<rparr>)
          else Some (None, m\<lparr>am_sessions := AList.delete session_id (am_sessions m)\<rparr>)))"

definition has_live_session_without_touch :: "int \<Rightarrow> i64 \<Rightarrow> auth_manager \<Rightarrow> bool \<times> auth_manager" where
  "has_live_session_without_touch now session_id m =
     (case map_of (am_sessions m) session_id of
        None \<Rightarrow> (False, m)
      | Some s \<Rightarrow>
         (if now < as_expires_at s then (True, m)
          else (False, m\<lparr>am_sessions := AList.delete session_id (am_sessions m)\<rparr>)))"

definition check_permission ::
  "int \<Rightarrow> i64 \<Rightarrow> bytes \<Rightarrow> permission \<Rightarrow> auth_manager \<Rightarrow> ((graph_error + bool) \<times> auth_manager) option" where
  "check_permission now session_id sp p m =
     (case get_session_roles now session_id m of
        None \<Rightarrow> None
      | Some (None, m') \<Rightarrow> Some (Inl (AuthFailed (ascii ''Invalid or expired session'')), m')
      | Some (Some session_roles, m') \<Rightarrow>
          Some (Inr (list_ex (\<lambda>name. case map_of (am_roles m') name of
                                        None \<Rightarrow> False
                                      | Some r \<Rightarrow> has_permission r sp p) session_roles), m'))"

definition is_admin_session :: "int \<Rightarrow> i64 \<Rightarrow> auth_manager \<Rightarrow> ((graph_error + bool) \<times> auth_manager) option" where
  "is_admin_session now session_id m =
     (case get_session_roles now session_id m of
        None \<Rightarrow> None
      | Some (None, m') \<Rightarrow> Some (Inl (AuthFailed (ascii ''Invalid or expired session'')), m')
      | Some (Some session_roles, m') \<Rightarrow>
          Some (Inr (list_ex (\<lambda>r. r = ascii ''GOD'' \<or> r = ascii ''ADMIN'') session_roles), m'))"

definition cleanup_expired_sessions :: "int \<Rightarrow> auth_manager \<Rightarrow> nat \<times> auth_manager" where
  "cleanup_expired_sessions now m =
     (let expired = map fst (filter (\<lambda>(_, s). as_expires_at s \<le> now) (am_sessions m))
      in (length expired, m\<lparr>am_sessions := fold AList.delete expired (am_sessions m)\<rparr>))"

definition sign_out :: "i64 \<Rightarrow> auth_manager \<Rightarrow> (graph_error + unit) \<times> auth_manager" where
  "sign_out session_id m =
     (case map_of (am_sessions m) session_id of
        None \<Rightarrow> (Inl (InvalidOperation (ascii ''Session not found'')), m)
      | Some _ \<Rightarrow> (Inr (), m\<lparr>am_sessions := AList.delete session_id (am_sessions m)\<rparr>))"

section \<open>Login\<close>

definition auth_begin :: "auth_env \<Rightarrow> bytes \<Rightarrow> bytes \<Rightarrow> auth_manager \<Rightarrow> graph_error + user \<times> bool" where
  "auth_begin env username password m =
     (if trim username = [] \<or> trim password = []
      then case verify_password_bounded env password (am_dummy_password_hash m) of
             Inl e \<Rightarrow> Inl e
           | Inr _ \<Rightarrow> Inl (AuthFailed (ascii ''Invalid credentials''))
      else case map_of (am_users m) username of
             None \<Rightarrow>
               (case verify_password_bounded env password (am_dummy_password_hash m) of
                  Inl e \<Rightarrow> Inl e
                | Inr _ \<Rightarrow> Inl (AuthFailed (ascii ''User not found'')))
           | Some user \<Rightarrow>
               (case verify_password_bounded env password (us_password_hash user) of
                  Inl e \<Rightarrow> Inl e
                | Inr valid \<Rightarrow> Inr (user, valid)))"

text \<open>The loop that draws a session id.\<close>

fun pick_session_id :: "(bytes + u64) list \<Rightarrow> (i64 \<times> auth_session) list \<Rightarrow> (bytes + i64) option" where
  "pick_session_id [] sessions = None"
| "pick_session_id (Inl e # draws) sessions = Some (Inl e)"
| "pick_session_id (Inr w # draws) sessions =
     (let candidate = drop_bit 1 w
      in if candidate \<noteq> 0 \<and> map_of sessions candidate = None then Some (Inr candidate)
         else pick_session_id draws sessions)"

definition fail_attempt :: "int \<Rightarrow> bytes \<Rightarrow> auth_manager \<Rightarrow> auth_manager option" where
  "fail_attempt now username m =
     (let entry = (case map_of (am_failed_attempts m) username of
                     None \<Rightarrow> \<lparr>fa_count = 0, fa_locked_until = None\<rparr> | Some e \<Rightarrow> e);
          entry = entry\<lparr>fa_count := fa_count entry + 1\<rparr>
      in if lt_max_failed_attempts (am_throttle m) \<le> fa_count entry \<and> lt_lockout_duration (am_throttle m) \<noteq> 0
         then case system_add now (lt_lockout_duration (am_throttle m)) of
                None \<Rightarrow> None
              | Some t \<Rightarrow> Some (m\<lparr>am_failed_attempts := AList.update username (entry\<lparr>fa_locked_until := Some t\<rparr>) (am_failed_attempts m)\<rparr>)
         else Some (m\<lparr>am_failed_attempts := AList.update username entry (am_failed_attempts m)\<rparr>))"

definition auth_finish ::
  "int \<Rightarrow> (bytes + u64) list \<Rightarrow> bytes \<Rightarrow> user \<Rightarrow> bool \<Rightarrow> auth_manager \<Rightarrow> ((graph_error + i64) \<times> auth_manager) option" where
  "auth_finish now draws username user valid m =
     (if \<not> us_enabled user then Some (Inl (AuthFailed (ascii ''User is disabled'')), m)
      else if \<not> valid
      then map_option (\<lambda>m'. (Inl (AuthFailed (ascii ''Invalid password'')), m')) (fail_attempt now username m)
      else case pick_session_id draws (am_sessions m) of
             None \<Rightarrow> None
           | Some (Inl e) \<Rightarrow> Some (Inl (InternalError (ascii ''Session ID generation failed: '' @ e)), m)
           | Some (Inr session_id) \<Rightarrow>
              (case system_add now (am_session_ttl m) of
                 None \<Rightarrow> None
               | Some expires \<Rightarrow>
                  Some (Inr session_id,
                        m\<lparr>am_failed_attempts := AList.delete username (am_failed_attempts m),
                          am_sessions := AList.update session_id
                            \<lparr>as_id = session_id, as_username = username, as_roles = us_roles user, as_created_at = now,
                             as_expires_at = expires\<rparr> (am_sessions m)\<rparr>)))"

definition authenticate_evaluated ::
  "auth_env \<Rightarrow> int \<Rightarrow> (bytes + u64) list \<Rightarrow> bytes \<Rightarrow> bytes \<Rightarrow> auth_manager \<Rightarrow> ((graph_error + i64) \<times> auth_manager) option" where
  "authenticate_evaluated env now draws username password m =
     (case auth_begin env username password m of
        Inl e \<Rightarrow> Some (Inl e, m)
      | Inr (user, valid) \<Rightarrow> auth_finish now draws username user valid m)"

definition lockout_remaining :: "int \<Rightarrow> bytes \<Rightarrow> auth_manager \<Rightarrow> int option" where
  "lockout_remaining now username m =
     (case map_of (am_failed_attempts m) username of
        None \<Rightarrow> None
      | Some e \<Rightarrow>
         (case fa_locked_until e of
            None \<Rightarrow> None
          | Some t \<Rightarrow> if now \<le> t \<and> t - now \<noteq> 0 then Some (t - now) else None))"

text \<open>The clocks read by one login: two \<open>Instant\<close>s of the limiter and two \<open>SystemTime\<close>s.\<close>

record login_clock =
  lc_check :: int
  lc_record :: int
  lc_lockout :: int
  lc_now :: int

definition is_auth_failed :: "graph_error + 'a \<Rightarrow> bool" where
  "is_auth_failed r = (case r of Inl (AuthFailed _) \<Rightarrow> True | _ \<Rightarrow> False)"

definition authenticate_from ::
  "auth_env \<Rightarrow> login_clock \<Rightarrow> (bytes + u64) list \<Rightarrow> bytes \<Rightarrow> bytes \<Rightarrow> bytes option \<Rightarrow> auth_manager \<Rightarrow>
   ((graph_error + i64) \<times> auth_manager) option" where
  "authenticate_from env clk draws username password source m =
     (case retry_after (lc_check clk) username source (am_login_rate_limiter m) of
        None \<Rightarrow> None
      | Some (retry, rl) \<Rightarrow>
         (let m = m\<lparr>am_login_rate_limiter := rl\<rparr>
          in case retry of
               Some d \<Rightarrow> Some (Inl (TooManyAttempts (max 1 (as_secs d))), m)
             | None \<Rightarrow>
                (case lockout_remaining (lc_lockout clk) username m of
                   Some d \<Rightarrow> Some (Inl (TooManyAttempts (max 1 (as_secs d))), m)
                 | None \<Rightarrow>
                    (case authenticate_evaluated env (lc_now clk) draws username password m of
                       None \<Rightarrow> None
                     | Some (outcome, m) \<Rightarrow>
                        Some (outcome,
                              if is_auth_failed outcome
                              then m\<lparr>am_login_rate_limiter := record_failure (lc_record clk) username source (am_login_rate_limiter m)\<rparr>
                              else m)))))"

definition authenticate ::
  "auth_env \<Rightarrow> login_clock \<Rightarrow> (bytes + u64) list \<Rightarrow> bytes \<Rightarrow> bytes \<Rightarrow> auth_manager \<Rightarrow>
   ((graph_error + i64) \<times> auth_manager) option" where
  "authenticate env clk draws username password m = authenticate_from env clk draws username password None m"

section \<open>Users\<close>

definition user_not_found :: "bytes \<Rightarrow> graph_error" where
  "user_not_found username = InvalidOperation (ascii ''User '' @ username @ ascii '' not found'')"

definition is_root :: "bytes \<Rightarrow> bool" where
  "is_root username \<longleftrightarrow> eq_ignore_ascii_case username (ascii ''root'')"

definition is_god :: "bytes \<Rightarrow> bool" where
  "is_god r \<longleftrightarrow> eq_ignore_ascii_case r (ascii ''GOD'')"

definition create_user ::
  "auth_env \<Rightarrow> bytes + bytes \<Rightarrow> bytes \<Rightarrow> bytes \<Rightarrow> bytes list \<Rightarrow> auth_manager \<Rightarrow> (graph_error + unit) \<times> auth_manager" where
  "create_user env salt_draw username password roles m =
     (if trim username = [] then (Inl (InvalidOperation (ascii ''Username must not be blank'')), m)
      else if is_root username then (Inl (InvalidOperation (ascii ''The root identity is reserved'')), m)
      else if list_ex is_god roles then (Inl (InvalidOperation (ascii ''The root-only role cannot be assigned'')), m)
      else if map_of (am_users m) username \<noteq> None
      then (Inl (InvalidOperation (ascii ''User '' @ username @ ascii '' already exists'')), m)
      else case hash_password env salt_draw password of
             Inl e \<Rightarrow> (Inl e, m)
           | Inr h \<Rightarrow>
              (Inr (), m\<lparr>am_users := AList.update username
                          \<lparr>us_username = username, us_password_hash = h, us_roles = roles, us_enabled = True\<rparr> (am_users m)\<rparr>))"

definition delete_user :: "bytes \<Rightarrow> auth_manager \<Rightarrow> (graph_error + unit) \<times> auth_manager" where
  "delete_user username m =
     (if is_root username then (Inl (InvalidOperation (ascii ''Cannot delete root user'')), m)
      else case map_of (am_users m) username of
             None \<Rightarrow> (Inl (user_not_found username), m)
           | Some _ \<Rightarrow>
              (Inr (), snd (invalidate_user_sessions username (m\<lparr>am_users := AList.delete username (am_users m)\<rparr>))))"

text \<open>The shape of the methods that change one user and revoke the user's sessions.\<close>

definition alter_user :: "(user \<Rightarrow> user) \<Rightarrow> bytes \<Rightarrow> auth_manager \<Rightarrow> (graph_error + unit) \<times> auth_manager" where
  "alter_user f username m =
     (case map_of (am_users m) username of
        None \<Rightarrow> (Inl (user_not_found username), m)
      | Some u \<Rightarrow>
         (Inr (), snd (invalidate_user_sessions username (m\<lparr>am_users := AList.update username (f u) (am_users m)\<rparr>))))"

definition grant_role :: "bytes \<Rightarrow> bytes \<Rightarrow> auth_manager \<Rightarrow> (graph_error + unit) \<times> auth_manager" where
  "grant_role username r m =
     (if is_root username then (Inl (InvalidOperation (ascii ''Cannot alter root user roles'')), m)
      else if is_god r then (Inl (InvalidOperation (ascii ''The root-only role cannot be assigned'')), m)
      else alter_user (\<lambda>u. if r \<in> set (us_roles u) then u else u\<lparr>us_roles := us_roles u @ [r]\<rparr>) username m)"

definition revoke_role :: "bytes \<Rightarrow> bytes \<Rightarrow> auth_manager \<Rightarrow> (graph_error + unit) \<times> auth_manager" where
  "revoke_role username r m =
     (if is_root username then (Inl (InvalidOperation (ascii ''Cannot alter root user roles'')), m)
      else alter_user (\<lambda>u. u\<lparr>us_roles := filter (\<lambda>x. x \<noteq> r) (us_roles u)\<rparr>) username m)"

definition set_user_enabled :: "bytes \<Rightarrow> bool \<Rightarrow> auth_manager \<Rightarrow> (graph_error + unit) \<times> auth_manager" where
  "set_user_enabled username enabled m =
     (if is_root username then (Inl (InvalidOperation (ascii ''Cannot alter root user state'')), m)
      else alter_user (\<lambda>u. u\<lparr>us_enabled := enabled\<rparr>) username m)"

definition change_password ::
  "auth_env \<Rightarrow> bytes + bytes \<Rightarrow> bytes \<Rightarrow> bytes \<Rightarrow> auth_manager \<Rightarrow> (graph_error + unit) \<times> auth_manager" where
  "change_password env salt_draw username password m =
     (if is_root username then (Inl (InvalidOperation (ascii ''Root password is managed by process configuration'')), m)
      else case hash_password env salt_draw password of
             Inl e \<Rightarrow> (Inl e, m)
           | Inr h \<Rightarrow> alter_user (\<lambda>u. u\<lparr>us_password_hash := h\<rparr>) username m)"

definition upsert_persisted_user :: "auth_env \<Rightarrow> user \<Rightarrow> auth_manager \<Rightarrow> (graph_error + bool) \<times> auth_manager" where
  "upsert_persisted_user env u m =
     (if is_root (us_username u) then (Inr False, m)
      else if list_ex is_god (us_roles u) then (Inl (InvalidOperation (ascii ''Persisted user record contains a root-only role'')), m)
      else if trim (us_username u) = [] \<or> us_password_hash u = []
      then (Inl (InvalidOperation (ascii ''Persisted user record is incomplete'')), m)
      else if \<not> is_supported_password_hash env (us_password_hash u)
      then (Inl (InvalidOperation (ascii ''Persisted user record contains an invalid password hash'')), m)
      else if list_ex (\<lambda>r. map_of (am_roles m) r = None) (us_roles u)
      then (Inl (InvalidOperation (ascii ''Persisted user record contains an unknown role'')), m)
      else if map_of (am_users m) (us_username u) = Some u then (Inr False, m)
      else (Inr True, snd (invalidate_user_sessions (us_username u)
                            (m\<lparr>am_users := AList.update (us_username u) u (am_users m)\<rparr>))))"

section \<open>Reachable states\<close>

text \<open>One completed call other than a login, with any arguments, draws and clock readings.\<close>

inductive auth_admin_step :: "auth_env \<Rightarrow> auth_manager \<Rightarrow> auth_manager \<Rightarrow> bool" for env where
  step_create: "create_user env salt username password roles m = (r, m') \<Longrightarrow> auth_admin_step env m m'"
| step_delete: "delete_user username m = (r, m') \<Longrightarrow> auth_admin_step env m m'"
| step_grant: "grant_role username rn m = (r, m') \<Longrightarrow> auth_admin_step env m m'"
| step_revoke: "revoke_role username rn m = (r, m') \<Longrightarrow> auth_admin_step env m m'"
| step_enabled: "set_user_enabled username b m = (r, m') \<Longrightarrow> auth_admin_step env m m'"
| step_password: "change_password env salt username password m = (r, m') \<Longrightarrow> auth_admin_step env m m'"
| step_upsert: "upsert_persisted_user env u m = (rb, m') \<Longrightarrow> auth_admin_step env m m'"
| step_permission: "check_permission now sid sp p m = Some (rp, m') \<Longrightarrow> auth_admin_step env m m'"
| step_roles: "get_session_roles now sid m = Some (ro, m') \<Longrightarrow> auth_admin_step env m m'"
| step_admin: "is_admin_session now sid m = Some (rp, m') \<Longrightarrow> auth_admin_step env m m'"
| step_live: "has_live_session_without_touch now sid m = (b, m') \<Longrightarrow> auth_admin_step env m m'"
| step_invalidate: "invalidate_user_sessions username m = (n, m') \<Longrightarrow> auth_admin_step env m m'"
| step_cleanup: "cleanup_expired_sessions now m = (n, m') \<Longrightarrow> auth_admin_step env m m'"
| step_sign_out: "sign_out sid m = (r, m') \<Longrightarrow> auth_admin_step env m m'"

inductive auth_step :: "auth_env \<Rightarrow> auth_manager \<Rightarrow> auth_manager \<Rightarrow> bool" for env where
  step_login: "authenticate_from env clk draws username password source m = Some (r, m') \<Longrightarrow> auth_step env m m'"
| step_admin_call: "auth_admin_step env m m' \<Longrightarrow> auth_step env m m'"

inductive auth_reachable :: "auth_env \<Rightarrow> auth_manager \<Rightarrow> bool" for env where
  reach_throttle: "try_with_throttle env d pw ttl c = Inr m \<Longrightarrow> auth_reachable env m"
| reach_ttl: "auth_reachable env (with_ttl env d e ttl)"
| reach_step: "auth_reachable env m \<Longrightarrow> auth_step env m m' \<Longrightarrow> auth_reachable env m'"

section \<open>Invariant\<close>

definition user_ok :: "bytes \<Rightarrow> user \<Rightarrow> bool" where
  "user_ok k u \<longleftrightarrow> us_username u = k \<and>
     (if is_root k then k = ascii ''root'' \<and> us_roles u = [ascii ''GOD''] \<and> us_enabled u
      else \<not> list_ex is_god (us_roles u))"

definition session_ok :: "(bytes \<times> user) list \<Rightarrow> i64 \<Rightarrow> auth_session \<Rightarrow> bool" where
  "session_ok users i s \<longleftrightarrow> as_id s = i \<and> i \<noteq> 0 \<and>
     (\<exists>u. map_of users (as_username s) = Some u \<and> us_enabled u \<and> as_roles s = us_roles u)"

definition users_ok :: "(bytes \<times> user) list \<Rightarrow> bool" where
  "users_ok users \<longleftrightarrow> distinct (map fst users) \<and> (\<forall>k u. map_of users k = Some u \<longrightarrow> user_ok k u)"

definition sessions_ok :: "(bytes \<times> user) list \<Rightarrow> (i64 \<times> auth_session) list \<Rightarrow> bool" where
  "sessions_ok users ss \<longleftrightarrow> distinct (map fst ss) \<and> (\<forall>i s. map_of ss i = Some s \<longrightarrow> session_ok users i s)"

definition auth_ok :: "auth_manager \<Rightarrow> bool" where
  "auth_ok m \<longleftrightarrow> users_ok (am_users m) \<and> am_roles m = default_roles \<and> sessions_ok (am_users m) (am_sessions m)"

lemma sessions_ok_delete: "sessions_ok us ss \<Longrightarrow> sessions_ok us (AList.delete i ss)"
  by (auto simp: sessions_ok_def distinct_delete delete_conv')

lemma sessions_ok_fold_delete: "sessions_ok us ss \<Longrightarrow> sessions_ok us (fold AList.delete is ss)"
  by (induction "is" arbitrary: ss) (auto simp: sessions_ok_delete)

lemma sessions_ok_update: "sessions_ok us ss \<Longrightarrow> session_ok us i s \<Longrightarrow> sessions_ok us (AList.update i s ss)"
  by (auto simp: sessions_ok_def distinct_update update_conv')

lemma sessions_ok_extend:
  "sessions_ok us ss \<Longrightarrow> map_of us k = None \<Longrightarrow> sessions_ok (AList.update k u us) ss"
  by (fastforce simp: sessions_ok_def session_ok_def update_conv')

text \<open>Changing one user and dropping the sessions of that user keeps the others right.\<close>

lemma sessions_ok_revoke:
  assumes "sessions_ok us ss" and same: "\<And>k'. k' \<noteq> k \<Longrightarrow> map_of us' k' = map_of us k'"
  shows "sessions_ok us' (filter (\<lambda>(_, s). as_username s \<noteq> k) ss)"
  unfolding sessions_ok_def
proof (intro conjI allI impI)
  from assms(1) show "distinct (map fst (filter (\<lambda>(_, s). as_username s \<noteq> k) ss))"
    by (simp add: sessions_ok_def distinct_map_filter)
  fix i s assume "map_of (filter (\<lambda>(_, s). as_username s \<noteq> k) ss) i = Some s"
  with assms(1) have "map_of ss i = Some s" "as_username s \<noteq> k"
    by (auto simp: sessions_ok_def map_of_filter_entry split: option.splits if_splits)
  with assms(1) same show "session_ok us' i s" by (simp add: sessions_ok_def session_ok_def)
qed

lemma users_ok_update: "users_ok us \<Longrightarrow> user_ok k u \<Longrightarrow> users_ok (AList.update k u us)"
  by (auto simp: users_ok_def distinct_update update_conv')

lemma users_ok_delete: "users_ok us \<Longrightarrow> users_ok (AList.delete k us)"
  by (auto simp: users_ok_def distinct_delete delete_conv')

lemma auth_ok_set_user:
  assumes "auth_ok m" and "user_ok k u"
  shows "auth_ok (snd (invalidate_user_sessions k (m\<lparr>am_users := AList.update k u (am_users m)\<rparr>)))"
  using assms by (auto simp: auth_ok_def invalidate_user_sessions_def Let_def users_ok_update update_conv' intro: sessions_ok_revoke)

lemma auth_ok_alter_user:
  assumes "auth_ok m" and "alter_user f k m = (r, m')" and "\<And>u. user_ok k u \<Longrightarrow> user_ok k (f u)"
  shows "auth_ok m'"
  using assms auth_ok_set_user [OF assms(1), of k]
  by (auto simp: alter_user_def auth_ok_def users_ok_def split: option.splits)

lemma pick_session_id_fresh:
  "pick_session_id draws ss = Some (Inr i) \<Longrightarrow> i \<noteq> 0 \<and> map_of ss i = None"
  by (induction draws ss rule: pick_session_id.induct) (auto simp: Let_def split: if_splits)

lemma auth_ok_limiter [simp]: "auth_ok (m\<lparr>am_login_rate_limiter := rl\<rparr>) = auth_ok m"
  by (simp add: auth_ok_def)

lemma auth_ok_fail_attempt: "auth_ok m \<Longrightarrow> fail_attempt now u m = Some m' \<Longrightarrow> auth_ok m'"
  by (auto simp: fail_attempt_def auth_ok_def Let_def split: option.splits if_splits)

lemma auth_ok_finish:
  assumes "auth_ok m" and "map_of (am_users m) k = Some u" and "auth_finish now draws k u valid m = Some (r, m')"
  shows "auth_ok m'"
proof (cases "us_enabled u \<and> valid")
  case False
  with assms show ?thesis by (auto simp: auth_finish_def auth_ok_fail_attempt split: if_splits)
next
  case True
  with assms(3) show ?thesis
    using assms(1,2)
    by (auto simp: auth_finish_def auth_ok_def session_ok_def split: option.splits sum.splits
        dest!: pick_session_id_fresh intro!: sessions_ok_update)
qed

lemma auth_ok_evaluated:
  assumes "auth_ok m" and "authenticate_evaluated env now draws k p m = Some (r, m')"
  shows "auth_ok m'"
proof (cases "auth_begin env k p m")
  case (Inl e)
  with assms show ?thesis by (simp add: authenticate_evaluated_def)
next
  case (Inr uv)
  obtain u v where uv: "uv = (u, v)" by (cases uv)
  with Inr have "map_of (am_users m) k = Some u"
    by (auto simp: auth_begin_def split: if_splits option.splits sum.splits)
  from auth_ok_finish [OF assms(1) this] assms(2) Inr uv show ?thesis by (auto simp: authenticate_evaluated_def)
qed

lemma auth_ok_login:
  assumes "auth_ok m" and "authenticate_from env clk draws k p src m = Some (r, m')"
  shows "auth_ok m'"
proof -
  have "auth_ok m2" if "authenticate_evaluated env (lc_now clk) draws k p (m\<lparr>am_login_rate_limiter := rl\<rparr>) = Some (o1, m2)" for rl o1 m2
    using auth_ok_evaluated [OF _ that] assms(1) by simp
  with assms show ?thesis
    by (auto simp: authenticate_from_def Let_def split: option.splits prod.splits if_splits)
qed

lemma auth_ok_get_session_roles:
  assumes "auth_ok m" and "get_session_roles now i m = Some (r, m')"
  shows "auth_ok m'"
  using assms
  by (auto simp: get_session_roles_def auth_ok_def split: option.splits if_splits intro!: sessions_ok_update sessions_ok_delete)
    (auto simp: sessions_ok_def session_ok_def)

lemma auth_ok_create:
  assumes "auth_ok m" and "create_user env salt k p rs m = (r, m')"
  shows "auth_ok m'"
  using assms
  by (auto simp: create_user_def auth_ok_def user_ok_def split: if_splits sum.splits
      intro!: users_ok_update sessions_ok_extend)

lemma auth_ok_delete:
  assumes "auth_ok m" and "delete_user k m = (r, m')"
  shows "auth_ok m'"
  using assms
  using sessions_ok_revoke [of "am_users m" "am_sessions m" k "AList.delete k (am_users m)"]
  by (auto simp: delete_user_def auth_ok_def invalidate_user_sessions_def Let_def delete_conv' users_ok_delete
      split: if_splits option.splits)

lemma auth_ok_grant: "auth_ok m \<Longrightarrow> grant_role k rn m = (r, m') \<Longrightarrow> auth_ok m'"
  by (auto simp: grant_role_def user_ok_def split: if_splits elim!: auth_ok_alter_user)

lemma auth_ok_revoke: "auth_ok m \<Longrightarrow> revoke_role k rn m = (r, m') \<Longrightarrow> auth_ok m'"
  by (auto simp: revoke_role_def user_ok_def list_ex_iff split: if_splits elim!: auth_ok_alter_user)

lemma auth_ok_enabled: "auth_ok m \<Longrightarrow> set_user_enabled k b m = (r, m') \<Longrightarrow> auth_ok m'"
  by (auto simp: set_user_enabled_def user_ok_def split: if_splits elim!: auth_ok_alter_user)

lemma auth_ok_password: "auth_ok m \<Longrightarrow> change_password env salt k p m = (r, m') \<Longrightarrow> auth_ok m'"
  by (auto simp: change_password_def user_ok_def split: if_splits sum.splits elim!: auth_ok_alter_user)

lemma auth_ok_upsert: "auth_ok m \<Longrightarrow> upsert_persisted_user env u m = (r, m') \<Longrightarrow> auth_ok m'"
  by (auto simp: upsert_persisted_user_def user_ok_def split: if_splits intro: auth_ok_set_user)

lemma auth_ok_sessions:
  assumes "auth_ok m"
  shows "has_live_session_without_touch now i m = (b, m') \<Longrightarrow> auth_ok m'"
    and "invalidate_user_sessions k m = (n, m') \<Longrightarrow> auth_ok m'"
    and "cleanup_expired_sessions now m = (n, m') \<Longrightarrow> auth_ok m'"
    and "sign_out i m = (r, m') \<Longrightarrow> auth_ok m'"
  using assms
  by (auto simp: has_live_session_without_touch_def invalidate_user_sessions_def cleanup_expired_sessions_def sign_out_def
      auth_ok_def Let_def sessions_ok_delete sessions_ok_fold_delete sessions_ok_revoke split: option.splits if_splits)

lemma auth_ok_checks:
  assumes "auth_ok m"
  shows "check_permission now i sp p m = Some (r, m') \<Longrightarrow> auth_ok m'"
    and "is_admin_session now i m = Some (r, m') \<Longrightarrow> auth_ok m'"
  using auth_ok_get_session_roles [OF assms]
  by (auto simp: check_permission_def is_admin_session_def split: option.splits prod.splits)

lemma auth_ok_admin_step: "auth_admin_step env m m' \<Longrightarrow> auth_ok m \<Longrightarrow> auth_ok m'"
  by (induction rule: auth_admin_step.induct)
    (blast intro: auth_ok_create auth_ok_delete auth_ok_grant auth_ok_revoke auth_ok_enabled auth_ok_password
      auth_ok_upsert auth_ok_get_session_roles auth_ok_sessions auth_ok_checks)+

lemma auth_ok_step: "auth_step env m m' \<Longrightarrow> auth_ok m \<Longrightarrow> auth_ok m'"
  by (induction rule: auth_step.induct) (blast intro: auth_ok_login auth_ok_admin_step)+

lemma auth_ok_from_hashes: "auth_ok (from_password_hashes h d ttl c)"
  by (auto simp: from_password_hashes_def auth_ok_def users_ok_def user_ok_def sessions_ok_def is_root_def eq_ignore_ascii_case_def
      split: option.splits)

lemma auth_ok_try: "try_with_throttle env d pw ttl c = Inr m \<Longrightarrow> auth_ok m"
  by (auto simp: try_with_throttle_def auth_ok_from_hashes split: sum.splits)

lemma auth_ok_ttl: "auth_ok (with_ttl env d e ttl)"
  by (auto simp: with_ttl_def with_config_def try_with_config_def fail_closed_def Let_def auth_ok_from_hashes auth_ok_try
      split: sum.splits option.splits)

lemma auth_reachable_ok: "auth_reachable env m \<Longrightarrow> auth_ok m"
  by (induction rule: auth_reachable.induct) (auto simp: auth_ok_try auth_ok_ttl auth_ok_step)

lemma auth_ok_session: "auth_ok m \<Longrightarrow> map_of (am_sessions m) i = Some s \<Longrightarrow> session_ok (am_users m) i s"
  by (simp add: auth_ok_def sessions_ok_def)

section \<open>Permissions\<close>

text \<open>The built-in roles that grant a permission, in any space.\<close>

definition granting :: "permission \<Rightarrow> bytes list" where
  "granting p = map ascii (case p of
     PRead \<Rightarrow> [''GOD'', ''ADMIN'', ''DBA'', ''USER'', ''GUEST'']
   | PWrite \<Rightarrow> [''GOD'', ''ADMIN'', ''DBA'', ''USER'']
   | PCreate \<Rightarrow> [''GOD'', ''ADMIN'', ''DBA'']
   | PAlter \<Rightarrow> [''GOD'', ''ADMIN'', ''DBA'']
   | PDelete \<Rightarrow> [''GOD'', ''ADMIN'']
   | PDrop \<Rightarrow> [''GOD'', ''ADMIN''])"

lemmas role_defs = role_god_def role_admin_def role_dba_def role_user_def role_guest_def

lemma default_roles_grant:
  "(case map_of default_roles rn of None \<Rightarrow> False | Some r \<Rightarrow> has_permission r sp p) \<longleftrightarrow> rn \<in> set (granting p)"
  by (cases p) (auto simp: default_roles_def role_defs has_permission_def permission_any_def granting_def split: if_splits)

lemma get_session_roles_cases:
  assumes "get_session_roles now i m = Some (r, m')"
  shows "am_users m' = am_users m \<and> am_roles m' = am_roles m \<and>
    r = (case map_of (am_sessions m) i of None \<Rightarrow> None | Some s \<Rightarrow> if now < as_expires_at s then Some (as_roles s) else None)"
  using assms by (auto simp: get_session_roles_def split: option.splits if_splits)

lemma check_permission_value:
  assumes "auth_ok m" and "check_permission now i sp p m = Some (r, m')"
  shows "r = (case map_of (am_sessions m) i of
           None \<Rightarrow> Inl (AuthFailed (ascii ''Invalid or expired session''))
         | Some s \<Rightarrow> if now < as_expires_at s then Inr (list_ex (\<lambda>rn. rn \<in> set (granting p)) (as_roles s))
                     else Inl (AuthFailed (ascii ''Invalid or expired session'')))"
proof -
  from assms(2) obtain ro where g: "get_session_roles now i m = Some (ro, m')"
    by (auto simp: check_permission_def split: option.splits prod.splits)
  have "am_roles m' = default_roles" using get_session_roles_cases [OF g] assms(1) by (simp add: auth_ok_def)
  with assms(2) g get_session_roles_cases [OF g] show ?thesis
    by (auto simp: check_permission_def default_roles_grant split: option.splits if_splits)
qed

section \<open>Rate limiting of logins\<close>

lemma auth_admin_step_limiter:
  "auth_admin_step env m m' \<Longrightarrow> am_login_rate_limiter m' = am_login_rate_limiter m \<and> am_failed_attempts m' = am_failed_attempts m"
  by (induction rule: auth_admin_step.induct)
    (auto simp: create_user_def delete_user_def grant_role_def revoke_role_def set_user_enabled_def change_password_def alter_user_def
      upsert_persisted_user_def check_permission_def get_session_roles_def is_admin_session_def has_live_session_without_touch_def
      invalidate_user_sessions_def cleanup_expired_sessions_def sign_out_def Let_def split: if_splits option.splits sum.splits prod.splits)

lemma evaluated_limiter:
  "authenticate_evaluated env now draws k p m = Some (r, m') \<Longrightarrow> am_login_rate_limiter m' = am_login_rate_limiter m"
  by (auto simp: authenticate_evaluated_def auth_finish_def fail_attempt_def Let_def split: sum.splits option.splits if_splits)

text \<open>What a login does to the limiter is an attempt that fails exactly when the outcome is \<open>AuthFailed\<close>.\<close>

lemma login_limiter_attempt:
  assumes "authenticate_from env clk draws k p src m = Some (r, m')"
  shows "limiter_attempt \<lparr>la_check = lc_check clk, la_record = lc_record clk, la_username = k, la_source = src,
           la_fails = is_auth_failed r\<rparr> (am_login_rate_limiter m) = Some (is_auth_failed r, am_login_rate_limiter m')"
  using assms
  by (auto simp: authenticate_from_def limiter_attempt_def is_auth_failed_def Let_def split: option.splits prod.splits if_splits
      dest!: evaluated_limiter)

text \<open>
  A run of a manager: \<open>auth_run env c k m t F\<close> when calls, made one after the other, have led to \<open>m\<close> at time \<open>t\<close> and \<open>F\<close> are the
  times of the rejected credentials of the account with key \<open>k\<close>.
\<close>

inductive auth_run :: "auth_env \<Rightarrow> login_throttle_config \<Rightarrow> bytes \<Rightarrow> auth_manager \<Rightarrow> int \<Rightarrow> int list \<Rightarrow> bool" for env c k where
  run_start: "try_with_throttle env d pw ttl c = Inr m \<Longrightarrow> 0 \<le> t \<Longrightarrow> auth_run env c k m t []"
| run_login: "auth_run env c k m t F \<Longrightarrow> t \<le> lc_check clk \<Longrightarrow> lc_check clk \<le> lc_record clk \<Longrightarrow>
    authenticate_from env clk draws username password source m = Some (r, m') \<Longrightarrow>
    auth_run env c k m' (lc_record clk) (if is_auth_failed r \<and> account_key username = k then F @ [lc_record clk] else F)"
| run_admin: "auth_run env c k m t F \<Longrightarrow> auth_admin_step env m m' \<Longrightarrow> auth_run env c k m' t F"

lemma try_with_throttle_limiter:
  "try_with_throttle env d pw ttl c = Inr m \<Longrightarrow>
   am_login_rate_limiter m = login_rate_limiter_new c \<and> 0 < lt_max_account_failures c"
  by (auto simp: try_with_throttle_def from_password_hashes_def validate_throttle_def throttle_problems_def
      split: sum.splits if_splits)

lemma auth_run_inv:
  assumes "auth_run env c (account_key u) m t F" and "0 \<le> lt_window c" and "lt_window c \<le> 2 ^ 63 * 1000000000"
  shows "limiter_inv (am_login_rate_limiter m) (account_key u) F t \<and> rl_config (am_login_rate_limiter m) = c \<and>
    0 < lt_max_account_failures c \<and> 0 \<le> t"
  using assms
proof (induction rule: auth_run.induct)
  case (run_start d pw ttl m t)
  with try_with_throttle_limiter [OF run_start.hyps(1)] show ?case
    by (simp add: limiter_inv_new login_rate_limiter_new_def [of c, symmetric]) (simp add: login_rate_limiter_new_def)
next
  case (run_login m t F clk draws username password source r m')
  let ?a = "\<lparr>la_check = lc_check clk, la_record = lc_record clk, la_username = username, la_source = source,
              la_fails = is_auth_failed r\<rparr>"
  from run_login have I: "limiter_inv (am_login_rate_limiter m) (account_key u) F t"
    "rl_config (am_login_rate_limiter m) = c" "0 < lt_max_account_failures c" "0 \<le> t" by auto
  have "in_range (rl_config (am_login_rate_limiter m)) t" using I run_login.prems by (simp add: in_range_def)
  from limiter_attempt_inv [OF I(1) refl _ this _ _ login_limiter_attempt [OF run_login.hyps(4)]] I run_login.hyps(2,3)
  show ?case by (auto split: if_splits)
next
  case (run_admin m t F m')
  with auth_admin_step_limiter [OF run_admin.hyps(2)] show ?case by simp
qed

section \<open>Lockout and session ids\<close>

lemma lockout_login:
  assumes "map_of (am_failed_attempts m) k = Some e" and "fa_locked_until e = Some t" and "lc_lockout clk < t"
    and "authenticate_from env clk draws k p src m = Some (r, m')"
  shows "(\<exists>n \<ge> 1. r = Inl (TooManyAttempts n)) \<and> (\<exists>rl. m' = m\<lparr>am_login_rate_limiter := rl\<rparr>)"
  using assms
  by (auto simp: authenticate_from_def lockout_remaining_def Let_def split: option.splits prod.splits)

definition locked_until :: "auth_manager \<Rightarrow> bytes \<Rightarrow> int \<Rightarrow> bool" where
  "locked_until m k t \<longleftrightarrow> (\<exists>e. map_of (am_failed_attempts m) k = Some e \<and> fa_locked_until e = Some t)"

text \<open>Calls in which no login of \<open>k\<close> reads the clock at \<open>t\<close> or later; everything else is free.\<close>

inductive calls_before :: "auth_env \<Rightarrow> bytes \<Rightarrow> int \<Rightarrow> auth_manager \<Rightarrow> auth_manager \<Rightarrow> bool" for env k t where
  before_refl: "calls_before env k t m m"
| before_login: "calls_before env k t m m1 \<Longrightarrow> k' \<noteq> k \<or> lc_lockout clk < t \<Longrightarrow>
    authenticate_from env clk draws k' p src m1 = Some (r, m2) \<Longrightarrow> calls_before env k t m m2"
| before_admin: "calls_before env k t m m1 \<Longrightarrow> auth_admin_step env m1 m2 \<Longrightarrow> calls_before env k t m m2"

lemma evaluated_other_attempts:
  "authenticate_evaluated env now draws k' p m = Some (r, m') \<Longrightarrow> k' \<noteq> k \<Longrightarrow>
   map_of (am_failed_attempts m') k = map_of (am_failed_attempts m) k"
  by (auto simp: authenticate_evaluated_def auth_finish_def fail_attempt_def update_conv' delete_conv' Let_def
      split: sum.splits option.splits if_splits)

lemma login_other_attempts:
  assumes "authenticate_from env clk draws k' p src m = Some (r, m')" and "k' \<noteq> k"
  shows "map_of (am_failed_attempts m') k = map_of (am_failed_attempts m) k"
  using assms
  by (auto simp: authenticate_from_def Let_def split: option.splits prod.splits if_splits dest!: evaluated_other_attempts)

lemma calls_before_locked:
  assumes "calls_before env k t m m'" and "locked_until m k t"
  shows "locked_until m' k t"
  using assms
proof (induction rule: calls_before.induct)
  case (before_login m m1 k' clk draws p src r m2)
  then have L: "locked_until m1 k t" by simp
  show ?case
  proof (cases "k' = k")
    case True
    with before_login.hyps(2) have "lc_lockout clk < t" by simp
    with L lockout_login [of m1 k _ t clk env draws p src r m2] before_login.hyps(3) True show ?thesis
      by (auto simp: locked_until_def)
  next
    case False
    with L login_other_attempts [OF before_login.hyps(3)] show ?thesis by (simp add: locked_until_def)
  qed
next
  case (before_admin m m1 m2)
  with auth_admin_step_limiter [OF before_admin.hyps(2)] show ?case by (simp add: locked_until_def)
qed

text \<open>The failure that reaches the limit starts the lockout.\<close>

lemma failure_locks:
  assumes "authenticate_from env clk draws k p src m = Some (Inl (AuthFailed (ascii ''Invalid password'')), m')"
    and "lt_max_failed_attempts (am_throttle m) \<le> (case map_of (am_failed_attempts m) k of None \<Rightarrow> 0 | Some e \<Rightarrow> fa_count e) + 1"
    and "lt_lockout_duration (am_throttle m) \<noteq> 0"
  shows "locked_until m' k (lc_now clk + lt_lockout_duration (am_throttle m))"
proof -
  have fa: "locked_until m2 k (lc_now clk + lt_lockout_duration (am_throttle m))"
    if "fail_attempt (lc_now clk) k (m\<lparr>am_login_rate_limiter := rl\<rparr>) = Some m2" for rl m2
    using that assms(2,3)
    by (auto simp: fail_attempt_def locked_until_def system_add_def update_conv' Let_def split: option.splits if_splits)
  have ne: "ascii ''Invalid password'' \<noteq> ascii ''User is disabled''" "ascii ''Invalid password'' \<noteq> ascii ''User not found''"
    "ascii ''Invalid password'' \<noteq> ascii ''Invalid credentials''" by (simp_all add: ascii_def)
  from assms(1) ne obtain rl m2 where
    "fail_attempt (lc_now clk) k (m\<lparr>am_login_rate_limiter := rl\<rparr>) = Some m2" "am_failed_attempts m' = am_failed_attempts m2"
    by (auto simp: authenticate_from_def authenticate_evaluated_def auth_begin_def auth_finish_def verify_password_bounded_def
        is_auth_failed_def Let_def split: option.splits prod.splits if_splits sum.splits)
  with fa show ?thesis by (auto simp: locked_until_def)
qed

lemma pick_session_id_total:
  assumes "w \<in> set ws" and "drop_bit 1 w \<noteq> 0" and "map_of ss (drop_bit 1 w) = None"
  shows "\<exists>i. pick_session_id (map Inr ws) ss = Some (Inr i)"
  using assms by (induction ws) (auto simp: Let_def)

lemma fresh_candidate:
  assumes "Suc (length ss) < card ((drop_bit 1 :: u64 \<Rightarrow> u64) ` set ws)"
  shows "\<exists>w \<in> set ws. drop_bit 1 w \<noteq> 0 \<and> map_of ss (drop_bit 1 w) = None"
proof (rule ccontr)
  assume "\<not> ?thesis"
  then have "(drop_bit 1 :: u64 \<Rightarrow> u64) ` set ws \<subseteq> insert 0 (fst ` set ss)"
    by (auto simp: map_of_eq_None_iff)
  then have "card ((drop_bit 1 :: u64 \<Rightarrow> u64) ` set ws) \<le> card (insert 0 (fst ` set ss))" by (intro card_mono) auto
  also have "\<dots> \<le> Suc (card (fst ` set ss))" by (simp add: card_insert_le_m1 card_insert_if)
  also have "card (fst ` set ss) \<le> length ss" by (metis card_length length_map set_map)
  finally show False using assms by simp
qed

section \<open>An instance\<close>

text \<open>A manager whose password hashes are the passwords themselves, used to show that the hypotheses below can hold.\<close>

definition plain_env :: auth_env where
  "plain_env = \<lparr>ae_parse = (\<lambda>_. Some \<lparr>phc_is_argon2id = True, phc_is_version_0x13 = True, phc_salt = Some (Some 16),
                    phc_output_len = Some 32, phc_params = Some (19456, 2, 1)\<rparr>),
     ae_verify = (\<lambda>p h. p = h), ae_encode_salt = Inr, ae_hash = (\<lambda>p _. Inr p), ae_worker_closed = False, ae_worker_error = None,
     ae_default_m_cost = 19456, ae_default_t_cost = 2, ae_default_output_len = 32, ae_min_salt_len = 8\<rparr>"

definition plain_draws :: init_draws where
  "plain_draws = \<lparr>id_root_password = Inr [1], id_root_salt = Inr [1], id_dummy_password = Inr [1], id_dummy_salt = Inr [1],
     id_closed_password = Inr [1], id_closed_salt = Inr [1]\<rparr>"

definition plain_clock :: "int \<Rightarrow> login_clock" where
  "plain_clock t = \<lparr>lc_check = t, lc_record = t, lc_lockout = t, lc_now = t\<rparr>"

definition plain_manager :: auth_manager where
  "plain_manager = from_password_hashes (Some (ascii ''pw'')) (ascii ''01'') 10 login_throttle_default"

definition plain_session :: auth_manager where
  "plain_session = plain_manager\<lparr>am_sessions := [(2, \<lparr>as_id = 2, as_username = ascii ''root'', as_roles = [ascii ''GOD''],
     as_created_at = 0, as_expires_at = 10\<rparr>)]\<rparr>"

lemma plain_start: "try_with_throttle plain_env plain_draws (ascii ''pw'') 10 login_throttle_default = Inr plain_manager"
  by code_simp

lemma plain_login:
  "authenticate_from plain_env (plain_clock 0) [Inr 4] (ascii ''root'') (ascii ''pw'') None plain_manager = Some (Inr 2, plain_session)"
  by code_simp

lemma plain_reachable: "auth_reachable plain_env plain_session"
  by (rule reach_step [OF reach_throttle [OF plain_start] step_login [OF plain_login]])

section \<open>Properties\<close>




lemma plain_check:
  "check_permission 3 2 (ascii ''s'') PDrop plain_session =
     Some (Inr True, plain_session\<lparr>am_sessions := [(2, \<lparr>as_id = 2, as_username = ascii ''root'', as_roles = [ascii ''GOD''],
       as_created_at = 0, as_expires_at = 13\<rparr>)]\<rparr>)"
  by code_simp


text \<open>
  C32. Revocation is immediate: once a user has been deleted, disabled or enabled, given or stripped of a role, or given a new password,
  no session of the user is left.
\<close>

theorem revocation_immediate:
  assumes "(Inr (), m') \<in> {delete_user k m, grant_role k rn m, revoke_role k rn m, set_user_enabled k b m, change_password env salt k p m}"
    and "map_of (am_sessions m') i = Some s"
  shows "as_username s \<noteq> k"
  using assms
  by (auto simp: delete_user_def grant_role_def revoke_role_def set_user_enabled_def change_password_def alter_user_def
      invalidate_user_sessions_def Let_def split: if_splits option.splits sum.splits dest!: map_of_SomeD)

definition plain_two :: auth_manager where
  "plain_two = plain_session\<lparr>am_users := am_users plain_session @ [(ascii ''bob'',
     \<lparr>us_username = ascii ''bob'', us_password_hash = ascii ''b'', us_roles = [ascii ''USER''], us_enabled = True\<rparr>)]\<rparr>"

theorem revocation_immediate_witness:
  "\<exists>m'. delete_user (ascii ''bob'') plain_two = (Inr (), m') \<and> (\<exists>s. map_of (am_sessions m') 2 = Some s \<and> as_username s \<noteq> ascii ''bob'')"
proof -
  let ?s = "\<lparr>as_id = 2, as_username = ascii ''root'', as_roles = [ascii ''GOD''], as_created_at = 0, as_expires_at = 10\<rparr> :: auth_session"
  have d: "delete_user (ascii ''bob'') plain_two = (Inr (), plain_session)" by code_simp
  have s: "map_of (am_sessions plain_session) 2 = Some ?s" by (simp add: plain_session_def)
  have "as_username ?s \<noteq> ascii ''bob''"
    by (rule revocation_immediate [where k = "ascii ''bob''" and m = plain_two and m' = plain_session and i = 2, OF _ s])
      (simp add: d)
  with d s show ?thesis by blast
qed

text \<open>
  C10. With attempts made one after the other, no interval of the length of the window, wherever it starts, holds more rejected credentials
  of an account than the account's budget, whatever other calls are made in between and from whatever sources.
\<close>

theorem account_guesses_bounded:
  assumes "auth_run env c (account_key u) m t F" and "0 \<le> lt_window c" and "lt_window c \<le> 2 ^ 63 * 1000000000"
  shows "length (filter (\<lambda>x. a \<le> x \<and> x \<le> a + lt_window c) F) \<le> lt_max_account_failures c"
proof -
  from auth_run_inv [OF assms] have I: "limiter_inv (am_login_rate_limiter m) (account_key u) F t"
    "rl_config (am_login_rate_limiter m) = c" by auto
  then have "window_ok (lt_window c) (lt_max_account_failures c) F" "sorted F" by (auto simp: limiter_inv_def tracks_def)
  then show ?thesis by (rule window_bound)
qed

definition plain_failed :: auth_manager where
  "plain_failed = plain_manager\<lparr>am_failed_attempts := [(ascii ''root'', \<lparr>fa_count = 1, fa_locked_until = None\<rparr>)],
     am_login_rate_limiter := (login_rate_limiter_new login_throttle_default)\<lparr>rl_failures := [(account_key (ascii ''root''), [0])]\<rparr>\<rparr>"

lemma plain_wrong:
  "authenticate_from plain_env (plain_clock 0) [] (ascii ''root'') (ascii ''x'') None plain_manager =
     Some (Inl (AuthFailed (ascii ''Invalid password'')), plain_failed)"
  by code_simp

theorem account_guesses_bounded_witness:
  "\<exists>F. F \<noteq> [] \<and> auth_run plain_env login_throttle_default (account_key (ascii ''root'')) plain_failed 0 F \<and>
     length (filter (\<lambda>x. 0 \<le> x \<and> x \<le> 0 + lt_window login_throttle_default) F) \<le> lt_max_account_failures login_throttle_default"
proof -
  have r: "auth_run plain_env login_throttle_default (account_key (ascii ''root'')) plain_failed 0 [0]"
    using run_login [OF run_start [where k = "account_key (ascii ''root'')" and t = 0, OF plain_start] _ _ plain_wrong] by (simp add: plain_clock_def is_auth_failed_def)
  have "0 \<le> lt_window login_throttle_default" "lt_window login_throttle_default \<le> 2 ^ 63 * 1000000000"
    by (simp_all add: login_throttle_default_def from_secs_def LOGIN_RATE_WINDOW_SECS_def)
  from account_guesses_bounded [OF r this, of 0] r show ?thesis by blast
qed

text \<open>
  C11. The failure that reaches the limit of an account locks it: until the lockout has run, and whatever calls are made in between, every
  login of the account is refused with a retry time of at least one second, a right password included, and makes no session.
\<close>

theorem lockout_enforced:
  assumes "authenticate_from env clk draws k p src m = Some (Inl (AuthFailed (ascii ''Invalid password'')), m1)"
    and "lt_max_failed_attempts (am_throttle m) \<le> (case map_of (am_failed_attempts m) k of None \<Rightarrow> 0 | Some e \<Rightarrow> fa_count e) + 1"
    and "lt_lockout_duration (am_throttle m) \<noteq> 0"
    and "calls_before env k (lc_now clk + lt_lockout_duration (am_throttle m)) m1 m2"
    and "authenticate_from env clk' draws' k p' src' m2 = Some (r, m3)"
    and "lc_lockout clk' < lc_now clk + lt_lockout_duration (am_throttle m)"
  shows "(\<exists>n \<ge> 1. r = Inl (TooManyAttempts n)) \<and> am_sessions m3 = am_sessions m2"
  using calls_before_locked [OF assms(4) failure_locks [OF assms(1-3)]] lockout_login [OF _ _ assms(6,5)]
  by (auto simp: locked_until_def)

definition plain_fourth :: auth_manager where
  "plain_fourth = plain_manager\<lparr>am_failed_attempts := [(ascii ''root'', \<lparr>fa_count = 4, fa_locked_until = None\<rparr>)]\<rparr>"

definition plain_locked :: auth_manager where
  "plain_locked = plain_failed\<lparr>am_failed_attempts := [(ascii ''root'', \<lparr>fa_count = 5, fa_locked_until = Some 300000000000\<rparr>)]\<rparr>"

lemma plain_fifth:
  "authenticate_from plain_env (plain_clock 0) [] (ascii ''root'') (ascii ''x'') None plain_fourth =
     Some (Inl (AuthFailed (ascii ''Invalid password'')), plain_locked)"
  by code_simp

lemma plain_refused:
  "authenticate_from plain_env (plain_clock 1) [Inr 4] (ascii ''root'') (ascii ''pw'') None plain_locked =
     Some (Inl (TooManyAttempts 299), plain_locked)"
  by code_simp

theorem lockout_enforced_witness:
  "\<exists>n \<ge> 1. map_option fst (authenticate_from plain_env (plain_clock 1) [Inr 4] (ascii ''root'') (ascii ''pw'') None plain_locked) =
     Some (Inl (TooManyAttempts n))"
  using lockout_enforced [OF plain_fifth _ _ before_refl plain_refused] plain_refused
  by (auto simp: plain_clock_def plain_fourth_def plain_manager_def from_password_hashes_def login_throttle_default_def
      MAX_FAILED_ATTEMPTS_def LOCKOUT_DURATION_SECS_def from_secs_def)

text \<open>
  C31. The loop that draws a session id ends: as soon as the draws hold more distinct candidates than there are sessions, plus one, it
  returns an id that is not zero and names no session.
\<close>

theorem session_id_loop_ends:
  assumes "Suc (length ss) < card ((drop_bit 1 :: u64 \<Rightarrow> u64) ` set ws)"
  shows "\<exists>i. pick_session_id (map Inr ws) ss = Some (Inr i) \<and> i \<noteq> 0 \<and> map_of ss i = None"
  using fresh_candidate [OF assms] pick_session_id_total [of _ ws ss] pick_session_id_fresh [of "map Inr ws" ss] by blast

theorem session_id_loop_ends_witness: "\<exists>i. pick_session_id (map Inr [0, 4]) [] = Some (Inr i) \<and> i \<noteq> 0 \<and> map_of [] i = None"
proof -
  have "(drop_bit 1 :: u64 \<Rightarrow> u64) ` set [0, 4] = {0, 2}" by (simp add: drop_bit_eq_div)
  then have "Suc (length ([] :: (i64 \<times> auth_session) list)) < card ((drop_bit 1 :: u64 \<Rightarrow> u64) ` set [0, 4])" by simp
  from session_id_loop_ends [OF this] show ?thesis by simp
qed


end
