(* ===== verification/MetaSchema.thy ===== *)
theory MetaSchema
  imports Partition
begin

text \<open>
  Metadata of the meta service: the schema types (\<^verbatim>\<open>byoridb-meta/src/schema.rs\<close>), its errors
  (\<^verbatim>\<open>byoridb-meta/src/error.rs\<close>), its binary keys (\<^verbatim>\<open>byoridb-meta/src/key.rs\<close>) and the column changes of
  \<open>ALTER\<close>, which \<^verbatim>\<open>service/tag.rs\<close> and \<^verbatim>\<open>service/edge.rs\<close> write out alike.

  The lemmas show that keys of different objects differ, what an \<open>ALTER\<close> does to the columns, and that it keeps
  column names distinct.
\<close>

section \<open>Schema types\<close>

datatype vid_type =
    VidInt64
  | VidFixedString nat

record space =
  sp_id :: u32
  sp_name :: bytes
  sp_partition_num :: u32
  sp_replica_factor :: u32
  sp_vid_type :: vid_type
  sp_partition_strategy :: partition_strategy

datatype data_type =
    TBool | TInt8 | TInt16 | TInt32 | TInt64 | TFloat | TDouble | TString
  | TFixedString nat
  | TTimestamp | TDate | TTime | TDateTime | TGeography

record field =
  fd_name :: bytes
  fd_data_type :: data_type
  fd_nullable :: bool
  fd_default :: "bytes option"

type_synonym i32 = "32 word"

record tag_schema =
  ts_id :: u32
  ts_space_id :: u32
  ts_name :: bytes
  ts_version :: i32
  ts_fields :: "field list"

record edge_schema =
  es_id :: u32
  es_space_id :: u32
  es_name :: bytes
  es_version :: i32
  es_fields :: "field list"

record tag_index =
  ti_id :: u32
  ti_space_id :: u32
  ti_index_name :: bytes
  ti_tag_id :: u32
  ti_fields :: "bytes list"

record edge_index =
  ei_id :: u32
  ei_space_id :: u32
  ei_index_name :: bytes
  ei_edge_type :: u32
  ei_fields :: "bytes list"

record part_allocation =
  al_space_id :: u32
  al_part_id :: u32
  al_hosts :: "(bytes \<times> u32) list"

datatype alter_operation =
    AddColumn field
  | DropColumn bytes
  | ChangeColumn field

section \<open>Errors\<close>

datatype meta_error =
    SpaceNotFound bytes
  | SpaceAlreadyExists bytes
  | TagNotFound bytes
  | TagAlreadyExists bytes
  | EdgeNotFound bytes
  | EdgeAlreadyExists bytes
  | IndexNotFound bytes
  | IndexAlreadyExists bytes
  | FieldNotFound bytes
  | FieldAlreadyExists bytes
  | InvalidAlterOperation bytes
  | UserNotFound bytes
  | UserAlreadyExists bytes
  | HostNotFound bytes u32
  | InvalidPartition bytes
  | InvalidPartitionStrategy bytes
  | PartitionNotFound u32 u32
  | MetaKVStore bytes
  | MetaCodec bytes
  | MetaSerialization bytes
  | MetaInternal bytes
  | MetaStorage bytes
  | MetaNetwork bytes
  | MetaInvalidOperation bytes

section \<open>Keys\<close>

definition meta_space_key :: "u32 \<Rightarrow> bytes" where
  "meta_space_key space_id = ascii ''space_'' @ u32_to_be space_id"

definition meta_space_prefix :: bytes where
  "meta_space_prefix = ascii ''space_''"

definition meta_tag_key :: "u32 \<Rightarrow> u32 \<Rightarrow> bytes" where
  "meta_tag_key space_id tag_id = ascii ''tag_'' @ u32_to_be space_id @ ascii ''_'' @ u32_to_be tag_id"

definition meta_tag_version_key :: "u32 \<Rightarrow> u32 \<Rightarrow> i32 \<Rightarrow> bytes" where
  "meta_tag_version_key space_id tag_id version =
     ascii ''tag_'' @ u32_to_be space_id @ ascii ''_'' @ u32_to_be tag_id @ ascii ''_v'' @ u32_to_be version"

definition meta_tag_prefix :: "u32 \<Rightarrow> bytes" where
  "meta_tag_prefix space_id = ascii ''tag_'' @ u32_to_be space_id @ ascii ''_''"

definition meta_edge_key :: "u32 \<Rightarrow> u32 \<Rightarrow> bytes" where
  "meta_edge_key space_id edge_id = ascii ''edge_'' @ u32_to_be space_id @ ascii ''_'' @ u32_to_be edge_id"

definition meta_edge_version_key :: "u32 \<Rightarrow> u32 \<Rightarrow> i32 \<Rightarrow> bytes" where
  "meta_edge_version_key space_id edge_id version =
     ascii ''edge_'' @ u32_to_be space_id @ ascii ''_'' @ u32_to_be edge_id @ ascii ''_v'' @ u32_to_be version"

definition meta_edge_prefix :: "u32 \<Rightarrow> bytes" where
  "meta_edge_prefix space_id = ascii ''edge_'' @ u32_to_be space_id @ ascii ''_''"

definition meta_tag_index_key :: "u32 \<Rightarrow> u32 \<Rightarrow> bytes" where
  "meta_tag_index_key space_id index_id = ascii ''tag_idx_'' @ u32_to_be space_id @ ascii ''_'' @ u32_to_be index_id"

definition meta_edge_index_key :: "u32 \<Rightarrow> u32 \<Rightarrow> bytes" where
  "meta_edge_index_key space_id index_id = ascii ''edge_idx_'' @ u32_to_be space_id @ ascii ''_'' @ u32_to_be index_id"

definition meta_ring_key :: "u32 \<Rightarrow> bytes" where
  "meta_ring_key space_id = ascii ''ring_'' @ u32_to_be space_id"

lemmas meta_key_defs = meta_space_key_def meta_tag_key_def meta_tag_version_key_def meta_edge_key_def meta_edge_version_key_def
  meta_tag_index_key_def meta_edge_index_key_def meta_ring_key_def

section \<open>Column changes\<close>

definition column_missing :: "bytes \<Rightarrow> meta_error" where
  "column_missing name = InvalidAlterOperation (ascii ''Column '' @ [39] @ name @ [39] @ ascii '' does not exist'')"

text \<open>\<open>iter_mut().find(..)\<close> followed by an assignment: the first column of that name is replaced.\<close>

fun replace_first :: "field \<Rightarrow> field list \<Rightarrow> field list option" where
  "replace_first f [] = None"
| "replace_first f (g # gs) = (if fd_name g = fd_name f then Some (f # gs) else map_option ((#) g) (replace_first f gs))"

fun alter_column :: "alter_operation \<Rightarrow> field list \<Rightarrow> meta_error + field list" where
  "alter_column (AddColumn f) cs =
     (if \<not> fd_nullable f \<and> fd_default f = None
      then Inl (InvalidAlterOperation (ascii ''Column '' @ [39] @ fd_name f @ [39] @
                  ascii '' must be nullable or have a default value for ADD COLUMN''))
      else if list_ex (\<lambda>g. fd_name g = fd_name f) cs then Inl (FieldAlreadyExists (fd_name f))
      else Inr (cs @ [f]))"
| "alter_column (DropColumn name) cs =
     (let rest = filter (\<lambda>g. fd_name g \<noteq> name) cs
      in if length rest = length cs then Inl (column_missing name) else Inr rest)"
| "alter_column (ChangeColumn f) cs =
     (case replace_first f cs of None \<Rightarrow> Inl (column_missing (fd_name f)) | Some cs' \<Rightarrow> Inr cs')"

fun alter_columns :: "alter_operation list \<Rightarrow> field list \<Rightarrow> meta_error + field list" where
  "alter_columns [] cs = Inr cs"
| "alter_columns (op # ops) cs =
     (case alter_column op cs of Inl e \<Rightarrow> Inl e | Inr cs' \<Rightarrow> alter_columns ops cs')"

section \<open>Keys: lemmas\<close>

text \<open>The families of keys have different lengths, so a key tells its family; within one family it tells the arguments.\<close>

lemma meta_key_lengths [simp]:
  "length (meta_space_key s) = 10" "length (meta_tag_key s i) = 13" "length (meta_tag_version_key s i v) = 19"
  "length (meta_edge_key s i) = 14" "length (meta_edge_version_key s i v) = 20" "length (meta_tag_index_key s i) = 17"
  "length (meta_edge_index_key s i) = 18" "length (meta_ring_key s) = 9"
  by (simp_all add: meta_key_defs ascii_def)

lemma meta_key_inject [simp]:
  "meta_space_key s = meta_space_key s' \<longleftrightarrow> s = s'"
  "meta_tag_key s i = meta_tag_key s' i' \<longleftrightarrow> s = s' \<and> i = i'"
  "meta_tag_version_key s i v = meta_tag_version_key s' i' v' \<longleftrightarrow> s = s' \<and> i = i' \<and> v = v'"
  "meta_edge_key s i = meta_edge_key s' i' \<longleftrightarrow> s = s' \<and> i = i'"
  "meta_edge_version_key s i v = meta_edge_version_key s' i' v' \<longleftrightarrow> s = s' \<and> i = i' \<and> v = v'"
  "meta_tag_index_key s i = meta_tag_index_key s' i' \<longleftrightarrow> s = s' \<and> i = i'"
  "meta_edge_index_key s i = meta_edge_index_key s' i' \<longleftrightarrow> s = s' \<and> i = i'"
  "meta_ring_key s = meta_ring_key s' \<longleftrightarrow> s = s'"
  by (simp_all add: meta_key_defs)

section \<open>Column changes: lemmas\<close>

lemma replace_first_names: "replace_first f fs = Some gs \<Longrightarrow> map fd_name gs = map fd_name fs"
  by (induction fs arbitrary: gs) (auto split: if_splits)

lemma has_column: "list_ex (\<lambda>g. fd_name g = n) fs \<longleftrightarrow> n \<in> fd_name ` set fs"
  by (auto simp: list_ex_iff)

lemma alter_column_distinct:
  assumes "alter_column op fs = Inr gs" and "distinct (map fd_name fs)"
  shows "distinct (map fd_name gs)"
  using assms
  by (cases op)
    (auto simp: Let_def has_column distinct_map_filter replace_first_names split: if_splits option.splits)

lemma alter_columns_distinct:
  "alter_columns ops fs = Inr gs \<Longrightarrow> distinct (map fd_name fs) \<Longrightarrow> distinct (map fd_name gs)"
  by (induction ops arbitrary: fs) (auto split: sum.splits dest: alter_column_distinct)

text \<open>Columns as a map from names: what one change does, and when it is refused.\<close>

definition columns :: "field list \<Rightarrow> bytes \<Rightarrow> field option" where
  "columns fs n = find (\<lambda>f. fd_name f = n) fs"

fun column_spec :: "alter_operation \<Rightarrow> (bytes \<Rightarrow> field option) \<Rightarrow> (bytes \<Rightarrow> field option) option" where
  "column_spec (AddColumn f) m =
     (if m (fd_name f) = None \<and> (fd_nullable f \<or> fd_default f \<noteq> None) then Some (m(fd_name f \<mapsto> f)) else None)"
| "column_spec (DropColumn n) m = (if m n \<noteq> None then Some (m(n := None)) else None)"
| "column_spec (ChangeColumn f) m = (if m (fd_name f) \<noteq> None then Some (m(fd_name f \<mapsto> f)) else None)"

lemma columns_None: "columns fs n = None \<longleftrightarrow> n \<notin> fd_name ` set fs"
  by (auto simp: columns_def find_None_iff)

lemma columns_append: "columns (fs @ gs) n = (case columns fs n of None \<Rightarrow> columns gs n | Some f \<Rightarrow> Some f)"
  by (induction fs) (auto simp: columns_def)

lemma columns_filter: "columns (filter (\<lambda>f. fd_name f \<noteq> n) fs) = (columns fs)(n := None)"
proof
  fix k
  show "columns (filter (\<lambda>f. fd_name f \<noteq> n) fs) k = ((columns fs)(n := None)) k"
    by (induction fs) (auto simp: columns_def)
qed

lemma columns_Cons: "columns (g # fs) = (columns fs)(fd_name g \<mapsto> g)"
  by (auto simp: columns_def fun_eq_iff)

lemma columns_replace_first: "replace_first f fs = Some gs \<Longrightarrow> columns gs = (columns fs)(fd_name f \<mapsto> f)"
proof (induction fs arbitrary: gs)
  case (Cons g fs)
  show ?case
  proof (cases "fd_name g = fd_name f")
    case True
    with Cons.prems show ?thesis by (auto simp: columns_Cons)
  next
    case False
    with Cons.prems obtain hs where "replace_first f fs = Some hs" "gs = g # hs" by auto
    with Cons.IH False show ?thesis by (auto simp: columns_Cons fun_eq_iff)
  qed
qed simp

lemma replace_first_None: "replace_first f fs = None \<longleftrightarrow> columns fs (fd_name f) = None"
  by (induction fs) (auto simp: columns_def)

lemma alter_column_refines:
  "map_option columns (case alter_column op fs of Inl _ \<Rightarrow> None | Inr gs \<Rightarrow> Some gs) = column_spec op (columns fs)"
proof (cases op)
  case (AddColumn f)
  have "columns (fs @ [f]) = (columns fs)(fd_name f \<mapsto> f)" if "columns fs (fd_name f) = None"
    using that by (auto simp: columns_append columns_Cons fun_eq_iff columns_def [of "[]"] split: option.splits)
  with AddColumn show ?thesis by (auto simp: has_column columns_None)
next
  case (DropColumn n)
  have "length (filter (\<lambda>g. fd_name g \<noteq> n) fs) = length fs \<longleftrightarrow> columns fs n = None"
  proof
    assume "length (filter (\<lambda>g. fd_name g \<noteq> n) fs) = length fs"
    then have "\<forall>g \<in> set fs. fd_name g \<noteq> n" using length_filter_less [of _ fs "\<lambda>g. fd_name g \<noteq> n"] by (metis less_irrefl)
    then show "columns fs n = None" by (auto simp: columns_None)
  next
    assume "columns fs n = None"
    then have "filter (\<lambda>g. fd_name g \<noteq> n) fs = fs" by (auto simp: columns_None filter_id_conv)
    then show "length (filter (\<lambda>g. fd_name g \<noteq> n) fs) = length fs" by simp
  qed
  with DropColumn show ?thesis by (simp add: Let_def columns_filter)
next
  case (ChangeColumn f)
  then show ?thesis
    using columns_replace_first [of f fs] replace_first_None [of f fs] by (auto split: option.splits)
qed

end
