(* ===== verification/MetaService.thy ===== *)
theory MetaService
  imports MetaSchema HashRing RaftStorage
begin

unbundle bit_operations_syntax

text \<open>
  The meta service (\<^verbatim>\<open>byoridb-meta/src/service/\<close>): its state, the storage hosts (\<^verbatim>\<open>host.rs\<close>), spaces (\<^verbatim>\<open>space.rs\<close>) and
  partition allocations with their hash rings (\<^verbatim>\<open>partition.rs\<close>). A \<open>DashMap\<close> is an association list, iterated in the
  order of the list; the set of partitions of a host is a list without repetitions. \<open>serde_json\<close> and the methods of the key-value store
  are parameters, collected in \<open>meta_env\<close>: a serializer gives the bytes or the text of the error.
\<close>

section \<open>State\<close>

datatype host_status = Online | Offline

record storage_host_info =
  sh_host :: bytes
  sh_port :: u32
  sh_last_heartbeat :: int
  sh_status :: host_status
  sh_partitions :: "(u32 \<times> u32) list"

record host_summary =
  hs_host :: bytes
  hs_port :: u32
  hs_status :: host_status
  hs_leader_count :: u64
  hs_part_count :: u64

type_synonym allocations = "(u32 \<times> (bytes \<times> u32) list) list"

record 's meta_service =
  ms_kvstore :: 's
  ms_spaces :: "(u32 \<times> space) list"
  ms_space_names :: "(bytes \<times> u32) list"
  ms_next_space_id :: u32
  ms_part_allocations :: "(u32 \<times> allocations) list"
  ms_storage_hosts :: "((bytes \<times> u32) \<times> storage_host_info) list"
  ms_host_timeout :: int
  ms_hash_rings :: "(u32 \<times> consistent_hash_ring) list"
  ms_tags :: "((u32 \<times> u32) \<times> tag_schema) list"
  ms_tag_names :: "((u32 \<times> bytes) \<times> u32) list"
  ms_next_tag_id :: u32
  ms_edges :: "((u32 \<times> u32) \<times> edge_schema) list"
  ms_edge_names :: "((u32 \<times> bytes) \<times> u32) list"
  ms_next_edge_id :: u32
  ms_tag_indexes :: "((u32 \<times> u32) \<times> tag_index) list"
  ms_tag_index_names :: "((u32 \<times> bytes) \<times> u32) list"
  ms_next_tag_index_id :: u32
  ms_edge_indexes :: "((u32 \<times> u32) \<times> edge_index) list"
  ms_edge_index_names :: "((u32 \<times> bytes) \<times> u32) list"
  ms_next_edge_index_id :: u32
  ms_cluster_id :: i64

record ('s, 'e) meta_env =
  me_ops :: "('s, 'e) kvstore"
  me_etext :: "'e \<Rightarrow> bytes"
  me_space :: "space serializer"
  me_ring :: "consistent_hash_ring serializer"
  me_read_ring :: "consistent_hash_ring deserializer"
  me_tag :: "tag_schema serializer"
  me_read_tag :: "tag_schema deserializer"
  me_edge :: "edge_schema serializer"
  me_read_edge :: "edge_schema deserializer"
  me_tag_index :: "tag_index serializer"
  me_edge_index :: "edge_index serializer"

text \<open>\<open>nanos\<close> is the nanosecond part of the system time.\<close>

definition meta_service_new :: "'s \<Rightarrow> i64 \<Rightarrow> 's meta_service" where
  "meta_service_new kv nanos =
     \<lparr>ms_kvstore = kv, ms_spaces = [], ms_space_names = [], ms_next_space_id = 1, ms_part_allocations = [], ms_storage_hosts = [],
      ms_host_timeout = 30 * 1000000000, ms_hash_rings = [], ms_tags = [], ms_tag_names = [], ms_next_tag_id = 1, ms_edges = [],
      ms_edge_names = [], ms_next_edge_id = 1, ms_tag_indexes = [], ms_tag_index_names = [], ms_next_tag_index_id = 1,
      ms_edge_indexes = [], ms_edge_index_names = [], ms_next_edge_index_id = 1, ms_cluster_id = nanos XOR 0x6c62272e07bb0142\<rparr>"

text \<open>\<open>let value = serde_json::to_vec(..)?; self.kvstore.put(&key, &value).await?\<close>, and \<open>delete(..)?\<close>.\<close>

definition meta_put :: "('s, 'e) meta_env \<Rightarrow> bytes \<Rightarrow> bytes + bytes \<Rightarrow> 's meta_service \<Rightarrow> (meta_error + unit) \<times> 's meta_service" where
  "meta_put env key data m =
     (case data of
        Inl e \<Rightarrow> (Inl (MetaSerialization e), m)
      | Inr v \<Rightarrow>
         (case kv_put (me_ops env) (ms_kvstore m) key v of
            (Inl e, s) \<Rightarrow> (Inl (MetaKVStore (me_etext env e)), m\<lparr>ms_kvstore := s\<rparr>)
          | (Inr _, s) \<Rightarrow> (Inr (), m\<lparr>ms_kvstore := s\<rparr>)))"

definition meta_delete :: "('s, 'e) meta_env \<Rightarrow> bytes \<Rightarrow> 's meta_service \<Rightarrow> (meta_error + unit) \<times> 's meta_service" where
  "meta_delete env key m =
     (case kv_delete (me_ops env) (ms_kvstore m) key of
        (Inl e, s) \<Rightarrow> (Inl (MetaKVStore (me_etext env e)), m\<lparr>ms_kvstore := s\<rparr>)
      | (Inr _, s) \<Rightarrow> (Inr (), m\<lparr>ms_kvstore := s\<rparr>))"

definition id_text :: "u32 \<Rightarrow> bytes" where
  "id_text i = ascii ''ID '' @ dec_nat (unat i)"

section \<open>Hosts\<close>

text \<open>\<open>Instant::duration_since\<close>, which is zero for a later instant.\<close>

definition duration_since :: "int \<Rightarrow> int \<Rightarrow> int" where
  "duration_since now t = max 0 (now - t)"

definition handle_heartbeat ::
  "int \<Rightarrow> bytes \<Rightarrow> u32 \<Rightarrow> bytes \<Rightarrow> i64 \<Rightarrow> 's meta_service \<Rightarrow> (meta_error + i64) \<times> 's meta_service" where
  "handle_heartbeat now host port node_role req_cluster_id m =
     (if req_cluster_id \<noteq> 0 \<and> req_cluster_id \<noteq> ms_cluster_id m
      then (Inl (MetaInvalidOperation (ascii ''cluster_id mismatch: expected '' @ dec_int (sint (ms_cluster_id m)) @
                   ascii '', got '' @ dec_int (sint req_cluster_id))), m)
      else if node_role \<noteq> ascii ''storage'' then (Inr (ms_cluster_id m), m)
      else (let info = (case map_of (ms_storage_hosts m) (host, port) of
                          Some i \<Rightarrow> i\<lparr>sh_last_heartbeat := now, sh_status := Online\<rparr>
                        | None \<Rightarrow> \<lparr>sh_host = host, sh_port = port, sh_last_heartbeat = now, sh_status = Online, sh_partitions = []\<rparr>)
            in (Inr (ms_cluster_id m), m\<lparr>ms_storage_hosts := AList.update (host, port) info (ms_storage_hosts m)\<rparr>)))"

definition get_active_storage_hosts :: "int \<Rightarrow> 's meta_service \<Rightarrow> (bytes \<times> u32) list" where
  "get_active_storage_hosts now m =
     map (\<lambda>e. (sh_host (snd e), sh_port (snd e)))
       (filter (\<lambda>e. duration_since now (sh_last_heartbeat (snd e)) < ms_host_timeout m) (ms_storage_hosts m))"

definition get_all_storage_hosts :: "'s meta_service \<Rightarrow> storage_host_info list" where
  "get_all_storage_hosts m = map snd (ms_storage_hosts m)"

definition cleanup_stale_hosts :: "int \<Rightarrow> 's meta_service \<Rightarrow> (bytes \<times> u32) list \<times> 's meta_service" where
  "cleanup_stale_hosts now m =
     (let is_stale = (\<lambda>e. ms_host_timeout m \<le> duration_since now (sh_last_heartbeat (snd e)))
      in (map fst (filter is_stale (ms_storage_hosts m)),
          m\<lparr>ms_storage_hosts := filter (\<lambda>e. \<not> is_stale e) (ms_storage_hosts m)\<rparr>))"

definition storage_host_count :: "'s meta_service \<Rightarrow> nat" where
  "storage_host_count m = length (ms_storage_hosts m)"

definition leader_counts :: "'s meta_service \<Rightarrow> ((bytes \<times> u32) \<times> u64) list" where
  "leader_counts m =
     fold (\<lambda>hosts counts.
             case hosts of
               [] \<Rightarrow> counts
             | h # _ \<Rightarrow> AList.update h ((case map_of counts h of None \<Rightarrow> 0 | Some n \<Rightarrow> n) + 1) counts)
       (concat (map (\<lambda>e. map snd (snd e)) (ms_part_allocations m))) []"

definition list_hosts_with_counts :: "int \<Rightarrow> 's meta_service \<Rightarrow> host_summary list" where
  "list_hosts_with_counts now m =
     map (\<lambda>e. \<lparr>hs_host = sh_host (snd e), hs_port = sh_port (snd e),
               hs_status = (if duration_since now (sh_last_heartbeat (snd e)) < ms_host_timeout m then Online else Offline),
               hs_leader_count =
                 (case map_of (leader_counts m) (sh_host (snd e), sh_port (snd e)) of None \<Rightarrow> 0 | Some n \<Rightarrow> n),
               hs_part_count = of_nat (length (sh_partitions (snd e)))\<rparr>) (ms_storage_hosts m)"

definition get_host_partitions :: "bytes \<Rightarrow> u32 \<Rightarrow> 's meta_service \<Rightarrow> (u32 \<times> u32) list" where
  "get_host_partitions host port m =
     (case map_of (ms_storage_hosts m) (host, port) of Some info \<Rightarrow> sh_partitions info | None \<Rightarrow> [])"

definition add_host_partition :: "bytes \<Rightarrow> u32 \<Rightarrow> u32 \<Rightarrow> u32 \<Rightarrow> 's meta_service \<Rightarrow> 's meta_service" where
  "add_host_partition host port space_id part_id m =
     (case map_of (ms_storage_hosts m) (host, port) of
        None \<Rightarrow> m
      | Some info \<Rightarrow>
          m\<lparr>ms_storage_hosts := AList.update (host, port)
              (info\<lparr>sh_partitions := List.insert (space_id, part_id) (sh_partitions info)\<rparr>) (ms_storage_hosts m)\<rparr>)"

definition remove_host_partition :: "bytes \<Rightarrow> u32 \<Rightarrow> u32 \<Rightarrow> u32 \<Rightarrow> 's meta_service \<Rightarrow> 's meta_service" where
  "remove_host_partition host port space_id part_id m =
     (case map_of (ms_storage_hosts m) (host, port) of
        None \<Rightarrow> m
      | Some info \<Rightarrow>
          m\<lparr>ms_storage_hosts := AList.update (host, port)
              (info\<lparr>sh_partitions := removeAll (space_id, part_id) (sh_partitions info)\<rparr>) (ms_storage_hosts m)\<rparr>)"

section \<open>Partitions and rings\<close>

definition get_parts_alloc :: "u32 \<Rightarrow> 's meta_service \<Rightarrow> part_allocation list" where
  "get_parts_alloc space_id m =
     (case map_of (ms_part_allocations m) space_id of
        Some parts \<Rightarrow> map (\<lambda>(part_id, hosts). \<lparr>al_space_id = space_id, al_part_id = part_id, al_hosts = hosts\<rparr>) parts
      | None \<Rightarrow> [])"

definition get_part_id :: "i64 \<Rightarrow> u32 \<Rightarrow> u32" where
  "get_part_id vid partition_num = compute_partition vid partition_num"

definition compute_part_id :: "i64 \<Rightarrow> u32 \<Rightarrow> partition_strategy \<Rightarrow> u32" where
  "compute_part_id vid partition_num strategy = strategy_partition strategy vid partition_num"

definition get_part_hosts :: "u32 \<Rightarrow> u32 \<Rightarrow> 's meta_service \<Rightarrow> meta_error + (bytes \<times> u32) list" where
  "get_part_hosts space_id part_id m =
     (case map_of (ms_part_allocations m) space_id of
        None \<Rightarrow> Inl (PartitionNotFound space_id part_id)
      | Some parts \<Rightarrow> (case map_of parts part_id of None \<Rightarrow> Inl (PartitionNotFound space_id part_id) | Some hosts \<Rightarrow> Inr hosts))"

definition update_part_allocation :: "u32 \<Rightarrow> u32 \<Rightarrow> (bytes \<times> u32) list \<Rightarrow> 's meta_service \<Rightarrow> 's meta_service" where
  "update_part_allocation space_id part_id hosts m =
     m\<lparr>ms_part_allocations := AList.update space_id
         (AList.update part_id hosts (case map_of (ms_part_allocations m) space_id of None \<Rightarrow> [] | Some parts \<Rightarrow> parts))
         (ms_part_allocations m)\<rparr>"

definition persist_ring :: "('s, 'e) meta_env \<Rightarrow> u32 \<Rightarrow> 's meta_service \<Rightarrow> (meta_error + unit) \<times> 's meta_service" where
  "persist_ring env space_id m =
     (case map_of (ms_hash_rings m) space_id of
        None \<Rightarrow> (Inr (), m)
      | Some ring \<Rightarrow> meta_put env (meta_ring_key space_id) (me_ring env ring) m)"

definition load_ring :: "('s, 'e) meta_env \<Rightarrow> u32 \<Rightarrow> 's meta_service \<Rightarrow> meta_error + consistent_hash_ring option" where
  "load_ring env space_id m =
     (case kv_get (me_ops env) (ms_kvstore m) (meta_ring_key space_id) of
        Inl e \<Rightarrow> Inl (MetaKVStore (me_etext env e))
      | Inr None \<Rightarrow> Inr None
      | Inr (Some value) \<Rightarrow>
         (case me_read_ring env value of Inl e \<Rightarrow> Inl (MetaSerialization e) | Inr ring \<Rightarrow> Inr (Some ring)))"

text \<open>
  One iteration of the loops over the rings: \<open>change\<close> adds or removes the node, \<open>skip\<close> is the test that leaves a ring alone. \<open>iter\<close> is
  the iteration order of a \<open>HashSet\<close>.
\<close>

definition change_ring ::
  "(ring_node set \<Rightarrow> ring_node list) \<Rightarrow> (consistent_hash_ring \<Rightarrow> bool) \<Rightarrow> (consistent_hash_ring \<Rightarrow> consistent_hash_ring) \<Rightarrow>
   u32 \<times> consistent_hash_ring \<Rightarrow> 's meta_service \<times> migration_task list \<times> u32 list \<Rightarrow>
   's meta_service \<times> migration_task list \<times> u32 list" where
  "change_ring iter skip change e acc =
     (case (e, acc) of ((space_id, ring), (m, migrations, ids)) \<Rightarrow>
        if skip ring then acc
        else case compute_migrations iter ring (change ring) of
               (moves, _, ring') \<Rightarrow>
                 (case get_allocations ring' of
                    (allocs, ring'') \<Rightarrow>
                      (m\<lparr>ms_hash_rings := AList.update space_id ring'' (ms_hash_rings m),
                         ms_part_allocations := AList.update space_id allocs (ms_part_allocations m)\<rparr>,
                       migrations @ moves, ids @ [space_id])))"

fun persist_rings :: "('s, 'e) meta_env \<Rightarrow> u32 list \<Rightarrow> 's meta_service \<Rightarrow> (meta_error + unit) \<times> 's meta_service" where
  "persist_rings env [] m = (Inr (), m)"
| "persist_rings env (i # ids) m =
     (case persist_ring env i m of (Inl e, m') \<Rightarrow> (Inl e, m') | (Inr _, m') \<Rightarrow> persist_rings env ids m')"

definition change_rings ::
  "('s, 'e) meta_env \<Rightarrow> (ring_node set \<Rightarrow> ring_node list) \<Rightarrow> (consistent_hash_ring \<Rightarrow> bool) \<Rightarrow>
   (consistent_hash_ring \<Rightarrow> consistent_hash_ring) \<Rightarrow> 's meta_service \<Rightarrow> (meta_error + migration_task list) \<times> 's meta_service" where
  "change_rings env iter skip change m =
     (case fold (change_ring iter skip change) (ms_hash_rings m) (m, [], []) of
        (m', migrations, ids) \<Rightarrow>
          (case persist_rings env ids m' of (Inl e, m'') \<Rightarrow> (Inl e, m'') | (Inr _, m'') \<Rightarrow> (Inr migrations, m'')))"

definition add_node_to_rings ::
  "('s, 'e) meta_env \<Rightarrow> (ring_node set \<Rightarrow> ring_node list) \<Rightarrow> bytes \<Rightarrow> u32 \<Rightarrow> 's meta_service \<Rightarrow>
   (meta_error + migration_task list) \<times> 's meta_service" where
  "add_node_to_rings env iter host port m =
     (let node = ring_node_new host port
      in change_rings env iter (\<lambda>r. node \<in> set (ch_nodes r)) (ring_add_node node) m)"

definition remove_node_from_rings ::
  "('s, 'e) meta_env \<Rightarrow> (ring_node set \<Rightarrow> ring_node list) \<Rightarrow> bytes \<Rightarrow> u32 \<Rightarrow> 's meta_service \<Rightarrow>
   (meta_error + migration_task list) \<times> 's meta_service" where
  "remove_node_from_rings env iter host port m =
     (let node = ring_node_new host port
      in change_rings env iter (\<lambda>r. node \<notin> set (ch_nodes r)) (ring_remove_node node) m)"

definition has_ring :: "u32 \<Rightarrow> 's meta_service \<Rightarrow> bool" where
  "has_ring space_id m \<longleftrightarrow> map_of (ms_hash_rings m) space_id \<noteq> None"

section \<open>Spaces\<close>

definition get_space :: "u32 \<Rightarrow> 's meta_service \<Rightarrow> meta_error + space" where
  "get_space space_id m =
     (case map_of (ms_spaces m) space_id of None \<Rightarrow> Inl (SpaceNotFound (id_text space_id)) | Some sp \<Rightarrow> Inr sp)"

definition get_space_by_name :: "bytes \<Rightarrow> 's meta_service \<Rightarrow> meta_error + space" where
  "get_space_by_name name m =
     (case map_of (ms_space_names m) name of None \<Rightarrow> Inl (SpaceNotFound name) | Some i \<Rightarrow> get_space i m)"

definition list_spaces :: "'s meta_service \<Rightarrow> space list" where
  "list_spaces m = map snd (ms_spaces m)"

definition get_part_id_for_space :: "u32 \<Rightarrow> i64 \<Rightarrow> 's meta_service \<Rightarrow> meta_error + u32" where
  "get_part_id_for_space space_id vid m =
     (case get_space space_id m of
        Inl e \<Rightarrow> Inl e
      | Inr sp \<Rightarrow> Inr (strategy_partition (sp_partition_strategy sp) vid (sp_partition_num sp)))"

definition track_partitions :: "u32 \<Rightarrow> allocations \<Rightarrow> 's meta_service \<Rightarrow> 's meta_service" where
  "track_partitions space_id allocs m =
     fold (\<lambda>(part_id, hosts). fold (\<lambda>(host, port). add_host_partition host port space_id part_id) hosts) allocs m"

definition create_space ::
  "('s, 'e) meta_env \<Rightarrow> int \<Rightarrow> bytes \<Rightarrow> u32 \<Rightarrow> u32 \<Rightarrow> vid_type \<Rightarrow> partition_strategy \<Rightarrow> 's meta_service \<Rightarrow>
   (meta_error + u32) \<times> 's meta_service" where
  "create_space env now name partition_num replica_factor vt strategy m =
     (if map_of (ms_space_names m) name \<noteq> None then (Inl (SpaceAlreadyExists name), m)
      else case validate_strategy strategy partition_num of
             Inl e \<Rightarrow> (Inl (InvalidPartitionStrategy e), m)
           | Inr _ \<Rightarrow>
              (let space_id = ms_next_space_id m;
                   sp = \<lparr>sp_id = space_id, sp_name = name, sp_partition_num = partition_num, sp_replica_factor = replica_factor,
                         sp_vid_type = vt, sp_partition_strategy = strategy\<rparr>;
                   m = m\<lparr>ms_next_space_id := space_id + 1, ms_spaces := AList.update space_id sp (ms_spaces m),
                         ms_space_names := AList.update name space_id (ms_space_names m)\<rparr>
               in case meta_put env (meta_space_key space_id) (me_space env sp) m of
                    (Inl e, m) \<Rightarrow> (Inl e, m)
                  | (Inr _, m) \<Rightarrow>
                     (let hosts = get_active_storage_hosts now m;
                          ring = fold (\<lambda>h. ring_add_node (ring_node_new (fst h) (snd h))) hosts
                                   (ring_new partition_num replica_factor ring_config_default)
                      in case get_allocations ring of
                           (allocs, ring) \<Rightarrow>
                             (let m = track_partitions space_id allocs
                                        (m\<lparr>ms_part_allocations := AList.update space_id allocs (ms_part_allocations m),
                                           ms_hash_rings := AList.update space_id ring (ms_hash_rings m)\<rparr>)
                              in case persist_ring env space_id m of
                                   (Inl e, m) \<Rightarrow> (Inl e, m)
                                 | (Inr _, m) \<Rightarrow> (Inr space_id, m)))))"

definition drop_space :: "('s, 'e) meta_env \<Rightarrow> bytes \<Rightarrow> 's meta_service \<Rightarrow> (meta_error + unit) \<times> 's meta_service" where
  "drop_space env name m =
     (case map_of (ms_space_names m) name of
        None \<Rightarrow> (Inl (SpaceNotFound name), m)
      | Some space_id \<Rightarrow>
         (let m = m\<lparr>ms_space_names := AList.delete name (ms_space_names m), ms_spaces := AList.delete space_id (ms_spaces m),
                    ms_part_allocations := AList.delete space_id (ms_part_allocations m),
                    ms_hash_rings := AList.delete space_id (ms_hash_rings m)\<rparr>
          in case meta_delete env (meta_space_key space_id) m of
               (Inl e, m) \<Rightarrow> (Inl e, m)
             | (Inr _, m) \<Rightarrow> meta_delete env (meta_ring_key space_id) m))"

section \<open>Tables of named objects\<close>

text \<open>
  Spaces, tags, edges and indexes are kept alike: a table from names to ids, a table of the objects, and the next id. \<open>key\<close> gives
  the key of an object from its name and id, \<open>nm\<close> and \<open>idf\<close> read name and id from the object.
\<close>

definition table_ok ::
  "('n \<Rightarrow> u32 \<Rightarrow> 'k) \<Rightarrow> ('o \<Rightarrow> 'n) \<Rightarrow> ('o \<Rightarrow> u32) \<Rightarrow> u32 \<Rightarrow> ('n \<times> u32) list \<Rightarrow> ('k \<times> 'o) list \<Rightarrow> bool" where
  "table_ok key nm idf next_id names objs \<longleftrightarrow> distinct (map fst objs) \<and>
     (\<forall>n i. map_of names n = Some i \<longrightarrow> (\<exists>x. map_of objs (key n i) = Some x \<and> nm x = n \<and> idf x = i)) \<and>
     (\<forall>k x. map_of objs k = Some x \<longrightarrow> k = key (nm x) (idf x) \<and> map_of names (nm x) = Some (idf x) \<and> idf x < next_id)"

fun table_at ::
  "('n \<Rightarrow> u32 \<Rightarrow> 'k) \<Rightarrow> ('o \<Rightarrow> 'n) \<Rightarrow> ('o \<Rightarrow> u32) \<Rightarrow> nat \<Rightarrow> u32 \<times> ('n \<times> u32) list \<times> ('k \<times> 'o) list \<Rightarrow> bool" where
  "table_at key nm idf n (next_id, names, objs) \<longleftrightarrow> table_ok key nm idf next_id names objs \<and> unat next_id \<le> n"

locale named_table =
  fixes key :: "'n \<Rightarrow> u32 \<Rightarrow> 'k" and nm :: "'o \<Rightarrow> 'n" and idf :: "'o \<Rightarrow> u32"
  assumes key_id: "key n i = key n' i' \<Longrightarrow> i = i'"
begin

lemma table_new: "table_ok key nm idf i [] []"
  by (simp add: table_ok_def)

lemma table_lookup:
  assumes "table_ok key nm idf next_id names objs" and "map_of names n = Some i"
  obtains x where "map_of objs (key n i) = Some x" and "nm x = n" and "idf x = i"
  using assms unfolding table_ok_def by blast

lemma table_object:
  assumes "table_ok key nm idf next_id names objs" and "map_of objs k = Some x"
  shows "k = key (nm x) (idf x) \<and> map_of names (nm x) = Some (idf x) \<and> idf x < next_id"
  using assms unfolding table_ok_def by blast

lemma table_create:
  assumes ok: "table_ok key nm idf next_id names objs" and new: "map_of names (nm x) = None" and i: "idf x = next_id" "next_id < next_id + 1"
  shows "table_ok key nm idf (next_id + 1) (AList.update (nm x) next_id names) (AList.update (key (nm x) next_id) x objs)"
  unfolding table_ok_def
proof (intro conjI allI impI)
  show "distinct (map fst (AList.update (key (nm x) next_id) x objs))" using ok by (simp add: table_ok_def distinct_update)
next
  fix n j assume n: "map_of (AList.update (nm x) next_id names) n = Some j"
  show "\<exists>y. map_of (AList.update (key (nm x) next_id) x objs) (key n j) = Some y \<and> nm y = n \<and> idf y = j"
  proof (cases "n = nm x")
    case True
    with n i show ?thesis by (simp add: update_conv')
  next
    case False
    with n obtain y where y: "map_of objs (key n j) = Some y" "nm y = n" "idf y = j"
      using ok by (auto simp: update_conv' elim: table_lookup)
    with table_object [OF ok y(1)] have "key n j \<noteq> key (nm x) next_id" by (auto dest: key_id)
    with y show ?thesis by (simp add: update_conv')
  qed
next
  fix k y assume k: "map_of (AList.update (key (nm x) next_id) x objs) k = Some y"
  have "idf z < next_id + 1" if "idf z < next_id" for z using that i(2) by (rule less_trans)
  with k i new table_object [OF ok] show "k = key (nm y) (idf y)" "map_of (AList.update (nm x) next_id names) (nm y) = Some (idf y)"
    "idf y < next_id + 1"
    by (fastforce simp: update_conv' split: if_splits)+
qed

lemma table_drop:
  assumes ok: "table_ok key nm idf next_id names objs" and n: "map_of names n = Some i"
  shows "table_ok key nm idf next_id (AList.delete n names) (AList.delete (key n i) objs)"
  unfolding table_ok_def
proof (intro conjI allI impI)
  show "distinct (map fst (AList.delete (key n i) objs))" using ok by (simp add: table_ok_def distinct_delete)
next
  fix n' j assume "map_of (AList.delete n names) n' = Some j"
  then have n': "n' \<noteq> n" "map_of names n' = Some j" by (auto simp: delete_conv' split: if_splits)
  obtain y where y: "map_of objs (key n' j) = Some y" "nm y = n'" "idf y = j" using ok n'(2) by (rule table_lookup)
  obtain x where x: "map_of objs (key n i) = Some x" "nm x = n" using ok n by (rule table_lookup)
  from x y n'(1) have "key n' j \<noteq> key n i" by auto
  with y show "\<exists>y. map_of (AList.delete (key n i) objs) (key n' j) = Some y \<and> nm y = n' \<and> idf y = j" by (simp add: delete_conv')
next
  fix k y assume "map_of (AList.delete (key n i) objs) k = Some y"
  then have y: "k \<noteq> key n i" "map_of objs k = Some y" by (auto simp: delete_conv' split: if_splits)
  from table_object [OF ok y(2)] y(1) n
  show "k = key (nm y) (idf y)" "map_of (AList.delete n names) (nm y) = Some (idf y)" "idf y < next_id"
    by (auto simp: delete_conv')
qed

text \<open>The objects of a table are those its names lead to.\<close>

lemma table_listed:
  assumes ok: "table_ok key nm idf next_id names objs"
  shows "x \<in> set (map snd objs) \<and> nm x = n \<longleftrightarrow> (\<exists>i. map_of names n = Some i \<and> map_of objs (key n i) = Some x)"
proof
  assume x: "x \<in> set (map snd objs) \<and> nm x = n"
  then obtain k where "(k, x) \<in> set objs" by auto
  then have "map_of objs k = Some x" using ok by (simp add: table_ok_def)
  with table_object [OF ok this] x show "\<exists>i. map_of names n = Some i \<and> map_of objs (key n i) = Some x" by auto
next
  assume "\<exists>i. map_of names n = Some i \<and> map_of objs (key n i) = Some x"
  then obtain i where i: "map_of names n = Some i" "map_of objs (key n i) = Some x" by blast
  obtain y where "map_of objs (key n i) = Some y" "nm y = n" using ok i(1) by (rule table_lookup)
  moreover have "x \<in> set (map snd objs)" using map_of_SomeD [OF i(2)] by force
  ultimately show "x \<in> set (map snd objs) \<and> nm x = n" using i(2) by simp
qed

lemma table_replace:
  assumes ok: "table_ok key nm idf next_id names objs" and "map_of objs k = Some x" and "nm y = nm x" and "idf y = idf x"
  shows "table_ok key nm idf next_id names (AList.update k y objs)"
  unfolding table_ok_def
proof (intro conjI allI impI)
  show "distinct (map fst (AList.update k y objs))" using ok by (simp add: table_ok_def distinct_update)
next
  fix n i assume n: "map_of names n = Some i"
  obtain z where "map_of objs (key n i) = Some z" "nm z = n" "idf z = i" using ok n by (rule table_lookup)
  with assms(2-4) show "\<exists>x. map_of (AList.update k y objs) (key n i) = Some x \<and> nm x = n \<and> idf x = i"
    by (auto simp: update_conv')
next
  fix k' z assume "map_of (AList.update k y objs) k' = Some z"
  with table_object [OF ok] assms(2-4)
  show "k' = key (nm z) (idf z)" "map_of names (nm z) = Some (idf z)" "idf z < next_id"
    by (fastforce simp: update_conv' split: if_splits)+
qed

text \<open>The table with its bounded counter: one more object needs one more id.\<close>

lemma table_at_mono: "table_at key nm idf n t \<Longrightarrow> table_at key nm idf (Suc n) t"
  by (cases t) simp

lemma table_at_create:
  assumes ok: "table_at key nm idf n (next_id, names, objs)" and "map_of names (nm x) = None" "idf x = next_id" and n: "n < 2 ^ 32 - 1"
  shows "table_at key nm idf (Suc n) (next_id + 1, AList.update (nm x) next_id names, AList.update (key (nm x) next_id) x objs)"
proof -
  have "unat next_id < 2 ^ 32 - 1" using ok n by simp
  then have "unat (next_id + 1) = Suc (unat next_id)" by (simp add: unat_word_ariths)
  with table_create [OF _ assms(2,3)] ok show ?thesis by (simp add: word_less_nat_alt)
qed

lemma table_at_drop:
  "table_at key nm idf n (next_id, names, objs) \<Longrightarrow> map_of names k = Some i \<Longrightarrow>
   table_at key nm idf (Suc n) (next_id, AList.delete k names, AList.delete (key k i) objs)"
  by (simp add: table_drop)

lemma table_at_replace:
  "table_at key nm idf n (next_id, names, objs) \<Longrightarrow> map_of objs k = Some x \<Longrightarrow> nm y = nm x \<Longrightarrow> idf y = idf x \<Longrightarrow>
   table_at key nm idf (Suc n) (next_id, names, AList.update k y objs)"
  by (simp add: table_replace)

end

definition space_key_of :: "bytes \<Rightarrow> u32 \<Rightarrow> u32" where
  "space_key_of n i = i"

definition member_key_of :: "u32 \<times> bytes \<Rightarrow> u32 \<Rightarrow> u32 \<times> u32" where
  "member_key_of n i = (fst n, i)"

interpretation space_table: named_table space_key_of sp_name sp_id
  by unfold_locales (simp add: space_key_of_def)

section \<open>Routing in a new space\<close>

lemma map_of_fold_update:
  assumes "distinct (map f xs)"
  shows "a \<in> set xs \<Longrightarrow> map_of (fold (\<lambda>a. AList.update (f a) (g a)) xs m) (f a) = Some (g a)"
    and "k \<notin> f ` set xs \<Longrightarrow> map_of (fold (\<lambda>a. AList.update (f a) (g a)) xs m) k = map_of m k"
  using assms by (induction xs rule: rev_induct) (auto simp: update_conv' intro: rev_image_eqI)

lemma ring_add_fields:
  "set (ch_nodes (ring_add_node node r)) = insert node (set (ch_nodes r))" "ch_config (ring_add_node node r) = ch_config r"
  by (auto simp: ring_add_node_def)

lemma ring_from_hosts_ok:
  "ring_ok (ring_from_hosts pn rf hosts c)"
  "ch_partition_num (ring_from_hosts pn rf hosts c) = pn" "ch_replica_factor (ring_from_hosts pn rf hosts c) = rf"
  "ch_config (ring_from_hosts pn rf hosts c) = c"
  "set (ch_nodes (ring_from_hosts pn rf hosts c)) = (\<lambda>h. ring_node_new (fst h) (snd h)) ` set hosts"
proof -
  let ?P = "\<lambda>r hs. ring_ok r \<and> ch_partition_num r = pn \<and> ch_replica_factor r = rf \<and> ch_config r = c \<and>
    set (ch_nodes r) = (\<lambda>h. ring_node_new (fst h) (snd h)) ` set hs"
  have "?P (ring_from_hosts pn rf hosts c) hosts"
    unfolding ring_from_hosts_def
  proof (induction hosts rule: rev_induct)
    case Nil
    show ?case using ring_ok_new [of pn rf c] by (simp add: ring_new_def)
  next
    case (snoc h hs)
    then show ?case by (auto simp: ring_add_fields ring_add_same_partitions intro: ring_ok_add)
  qed
  then show "ring_ok (ring_from_hosts pn rf hosts c)"
    "ch_partition_num (ring_from_hosts pn rf hosts c) = pn" "ch_replica_factor (ring_from_hosts pn rf hosts c) = rf"
    "ch_config (ring_from_hosts pn rf hosts c) = c"
    "set (ch_nodes (ring_from_hosts pn rf hosts c)) = (\<lambda>h. ring_node_new (fst h) (snd h)) ` set hosts" by blast+
qed

lemma ring_add_positions:
  assumes "node \<notin> set (ch_nodes r)" and "virtual_nodes (ch_config r) \<noteq> 0"
  shows "ch_ring (ring_add_node node r) \<noteq> []"
proof -
  obtain n where n: "unat (virtual_nodes (ch_config r)) = Suc n" using assms(2) by (metis not0_implies_Suc unat_eq_zero)
  have "btree_insert k v m \<noteq> []" for k v and m :: ring_map by (cases m) auto
  with assms(1) show ?thesis by (simp add: ring_add_node_def n del: upt_Suc) (simp add: upt_conv_Cons fold_insert_not_Nil del: upt_Suc)
qed

lemma ring_from_hosts_walkable:
  assumes "virtual_nodes c \<noteq> 0"
  shows "ch_nodes (ring_from_hosts pn rf hosts c) = [] \<or> ch_ring (ring_from_hosts pn rf hosts c) \<noteq> []"
proof (induction hosts rule: rev_induct)
  case Nil
  show ?case by (simp add: ring_from_hosts_def ring_new_def)
next
  case (snoc h hs)
  let ?r = "ring_from_hosts pn rf hs c" and ?n = "ring_node_new (fst h) (snd h)"
  have eq: "ring_from_hosts pn rf (hs @ [h]) c = ring_add_node ?n ?r" by (simp add: ring_from_hosts_def)
  show ?case
  proof (cases "?n \<in> set (ch_nodes ?r)")
    case True
    with snoc show ?thesis unfolding eq by (auto simp: ring_add_node_def)
  next
    case False
    with ring_add_positions [of ?n ?r] assms show ?thesis unfolding eq by (simp add: ring_from_hosts_ok)
  qed
qed

lemma ring_get_nodes_hosts:
  assumes "ring_ok r" and "ch_ring r \<noteq> []"
  shows "distinct (ring_get_nodes r h n)" "set (ring_get_nodes r h n) \<subseteq> set (ch_nodes r)" "ring_get_nodes r h n \<noteq> []"
    "length (ring_get_nodes r h n) \<le> max 1 (unat n)"
proof -
  let ?w = "map (\<lambda>e. fst (snd e)) (btree_from (ch_ring r) h @ ch_ring r)"
  have "set ?w = (\<lambda>e. fst (snd e)) ` set (ch_ring r)" by (simp only: set_map set_walk)
  also have "\<dots> \<subseteq> set (ch_nodes r)" using assms(1) by (auto simp: ring_ok_def)
  finally have w: "?w \<noteq> []" "set ?w \<subseteq> set (ch_nodes r)" using assms(2) by simp_all
  show "distinct (ring_get_nodes r h n)" unfolding ring_get_nodes_eq [OF assms(2)] by simp
  show "set (ring_get_nodes r h n) \<subseteq> set (ch_nodes r)"
    using subset_trans [OF set_take_subset, of "firsts ?w" "set (ch_nodes r)"] w(2)
    unfolding ring_get_nodes_eq [OF assms(2)] set_firsts by blast
  have "firsts ?w \<noteq> []" using w(1) set_firsts [of ?w] by (metis set_empty)
  then show "ring_get_nodes r h n \<noteq> []" unfolding ring_get_nodes_eq [OF assms(2)] by simp
  show "length (ring_get_nodes r h n) \<le> max 1 (unat n)" unfolding ring_get_nodes_eq [OF assms(2)] by simp
qed

definition node_addr :: "ring_node \<Rightarrow> bytes \<times> u32" where
  "node_addr n = (rn_host n, rn_port n)"

lemma all_hosts_nodes: "all_hosts a = map node_addr (pa_primary a # pa_replicas a)"
  by (simp add: all_hosts_def node_addr_def)

lemma node_addr_inject: "node_addr a = node_addr b \<longleftrightarrow> a = b"
  by (cases a; cases b) (simp add: node_addr_def)

lemma allocation_lookup:
  assumes "ring_ok r" and "compute_assignments r = map g [1..<Suc (unat (ch_partition_num r))]" and "\<And>q. pa_part_id (g q) = of_nat q"
    and "p \<noteq> 0" and "p \<le> ch_partition_num r"
  shows "map_of (fst (get_allocations r)) p = Some (all_hosts (g (unat p)))"
proof -
  let ?ps = "[1..<Suc (unat (ch_partition_num r))]"
  have "fst (get_allocations r) = fold (\<lambda>a. AList.update (pa_part_id a) (all_hosts a)) (map g ?ps) []"
    using get_all_assignments_eq [OF assms(1)] assms(2) by (simp add: get_allocations_def case_prod_beta del: upt_Suc)
  moreover have "distinct (map pa_part_id (map g ?ps))"
    using unat_u32_bound [of "ch_partition_num r"]
    by (auto simp: distinct_map inj_on_def assms(3) word_unat_eq_iff unat_of_nat comp_def simp del: upt_Suc)
  moreover have "g (unat p) \<in> set (map g ?ps)" using assms(4,5) by (auto simp: word_le_nat_alt unat_gt_0 Suc_le_eq simp del: upt_Suc)
  ultimately show ?thesis using map_of_fold_update(1) [of pa_part_id "map g ?ps" "g (unat p)" all_hosts "[]"] by (simp add: assms(3))
qed

lemma allocation_hosts:
  assumes "ring_ok r" and "ch_nodes r = [] \<or> ch_ring r \<noteq> []" and p: "p \<noteq> 0" "p \<le> ch_partition_num r"
  shows "\<exists>hosts. map_of (fst (get_allocations r)) p = Some hosts \<and> hosts \<noteq> [] \<and> distinct hosts \<and>
    length hosts \<le> max 1 (unat (ch_replica_factor r)) \<and>
    set hosts \<subseteq> (if ch_nodes r = [] then {(ascii ''localhost'', 9779)} else node_addr ` set (ch_nodes r))"
proof (cases "ch_nodes r = []")
  case True
  let ?g = "\<lambda>p. \<lparr>pa_part_id = of_nat p, pa_primary = ring_node_new (ascii ''localhost'') 9779, pa_replicas = []\<rparr>"
  have "compute_assignments r = map ?g [1..<Suc (unat (ch_partition_num r))]" using True by (simp add: compute_assignments_def Let_def del: upt_Suc)
  from allocation_lookup [OF assms(1) this _ p] True show ?thesis by (simp add: all_hosts_def ring_node_new_def)
next
  case False
  with assms(2) have ring: "ch_ring r \<noteq> []" by blast
  obtain g where g: "compute_assignments r = map g [1..<Suc (unat (ch_partition_num r))]" "pa_part_id (g q) = of_nat q"
    "pa_primary (g q) # pa_replicas (g q) = ring_get_nodes r (hash_bytes (u32_to_le (of_nat q))) (ch_replica_factor r)" for q
    by (rule compute_assignments_map [OF assms(2)]) (use False in blast)
  let ?ns = "ring_get_nodes r (hash_bytes (u32_to_le p)) (ch_replica_factor r)"
  have "map_of (fst (get_allocations r)) p = Some (map node_addr ?ns)"
    using allocation_lookup [OF assms(1) g(1,2) p] g(3) [of "unat p"] by (simp add: all_hosts_nodes)
  moreover have "distinct (map node_addr ?ns)"
    using ring_get_nodes_hosts(1) [OF assms(1) ring] by (simp add: distinct_map inj_on_def node_addr_inject)
  moreover have "set (map node_addr ?ns) \<subseteq> node_addr ` set (ch_nodes r)"
    unfolding set_map by (rule image_mono [OF ring_get_nodes_hosts(2) [OF assms(1) ring]])
  ultimately show ?thesis using ring_get_nodes_hosts(3,4) [OF assms(1) ring] False by simp
qed

section \<open>What the operations change\<close>

lemma meta_put_kv: "meta_put env k d m = (r, m') \<Longrightarrow> \<exists>s. m' = m\<lparr>ms_kvstore := s\<rparr>"
  by (cases m) (auto simp: meta_put_def split: sum.splits prod.splits)

lemma meta_delete_kv: "meta_delete env k m = (r, m') \<Longrightarrow> \<exists>s. m' = m\<lparr>ms_kvstore := s\<rparr>"
  by (auto simp: meta_delete_def split: sum.splits prod.splits)

lemma persist_ring_kv: "persist_ring env i m = (r, m') \<Longrightarrow> \<exists>s. m' = m\<lparr>ms_kvstore := s\<rparr>"
  by (cases m) (auto simp: persist_ring_def split: option.splits dest: meta_put_kv)

lemma add_host_partition_hosts: "\<exists>h. add_host_partition a b c d m = m\<lparr>ms_storage_hosts := h\<rparr>"
  by (cases m) (auto simp: add_host_partition_def split: option.splits)

lemma fold_hosts_only:
  assumes "\<And>x m. \<exists>h. f x m = m\<lparr>ms_storage_hosts := h\<rparr>"
  shows "\<exists>h. fold f xs m = m\<lparr>ms_storage_hosts := h\<rparr>"
proof (induction xs arbitrary: m)
  case Nil
  show ?case by (cases m) auto
next
  case (Cons x xs)
  obtain h where "f x m = m\<lparr>ms_storage_hosts := h\<rparr>" using assms by blast
  with Cons.IH [of "f x m"] show ?case by auto
qed

lemma track_partitions_hosts: "\<exists>h. track_partitions i allocs m = m\<lparr>ms_storage_hosts := h\<rparr>"
  unfolding track_partitions_def
  by (rule fold_hosts_only) (auto simp: case_prod_beta intro!: fold_hosts_only add_host_partition_hosts)

text \<open>A space that is created: its id, its record, the ring over the active hosts and the allocation of that ring.\<close>

lemma create_space_ok:
  assumes "create_space env now name pn rf vt st m = (Inr i, m')"
  shows "i = ms_next_space_id m \<and> map_of (ms_space_names m) name = None \<and> validate_strategy st pn = Inr () \<and>
    (\<exists>s h. m' = m\<lparr>ms_next_space_id := i + 1,
       ms_spaces := AList.update i \<lparr>sp_id = i, sp_name = name, sp_partition_num = pn, sp_replica_factor = rf, sp_vid_type = vt,
                                   sp_partition_strategy = st\<rparr> (ms_spaces m),
       ms_space_names := AList.update name i (ms_space_names m), ms_kvstore := s,
       ms_part_allocations := AList.update i
         (fst (get_allocations (ring_from_hosts pn rf (get_active_storage_hosts now m) ring_config_default))) (ms_part_allocations m),
       ms_hash_rings := AList.update i
         (snd (get_allocations (ring_from_hosts pn rf (get_active_storage_hosts now m) ring_config_default))) (ms_hash_rings m),
       ms_storage_hosts := h\<rparr>)"
proof -
  let ?sp = "\<lparr>sp_id = ms_next_space_id m, sp_name = name, sp_partition_num = pn, sp_replica_factor = rf, sp_vid_type = vt,
              sp_partition_strategy = st\<rparr>"
  let ?m1 = "m\<lparr>ms_next_space_id := ms_next_space_id m + 1, ms_spaces := AList.update (ms_next_space_id m) ?sp (ms_spaces m),
               ms_space_names := AList.update name (ms_next_space_id m) (ms_space_names m)\<rparr>"
  let ?i = "ms_next_space_id m"
  obtain r2 m2 where p: "meta_put env (meta_space_key ?i) (me_space env ?sp) ?m1 = (r2, m2)" by fastforce
  from meta_put_kv [OF p] obtain s2 where m2: "m2 = ?m1\<lparr>ms_kvstore := s2\<rparr>" by blast
  have act: "get_active_storage_hosts now m2 = get_active_storage_hosts now m" by (simp add: m2 get_active_storage_hosts_def)
  let ?A = "get_allocations (ring_from_hosts pn rf (get_active_storage_hosts now m) ring_config_default)"
  let ?m3 = "m2\<lparr>ms_part_allocations := AList.update ?i (fst ?A) (ms_part_allocations m2),
                ms_hash_rings := AList.update ?i (snd ?A) (ms_hash_rings m2)\<rparr>"
  obtain h where t: "track_partitions ?i (fst ?A) ?m3 = ?m3\<lparr>ms_storage_hosts := h\<rparr>" using track_partitions_hosts by blast
  obtain r4 m4 where q: "persist_ring env ?i (?m3\<lparr>ms_storage_hosts := h\<rparr>) = (r4, m4)" by fastforce
  from persist_ring_kv [OF q] obtain s4 where m4: "m4 = ?m3\<lparr>ms_storage_hosts := h, ms_kvstore := s4\<rparr>" by auto
  have c: "map_of (ms_space_names m) name = None" "validate_strategy st pn = Inr ()"
    using assms by (auto simp: create_space_def split: if_splits sum.splits)
  have "r2 = Inr ()" using assms c p by (auto simp: create_space_def Let_def split: sum.splits)
  then have "create_space env now name pn rf vt st m = (case r4 of Inl e \<Rightarrow> (Inl e, m4) | Inr _ \<Rightarrow> (Inr ?i, m4))"
    using c p t q act by (simp add: create_space_def Let_def ring_from_hosts_def case_prod_beta split: sum.split)
  with assms have "i = ?i" "m' = m4" by (auto split: sum.splits)
  moreover have "m4 = m\<lparr>ms_next_space_id := ?i + 1, ms_spaces := AList.update ?i ?sp (ms_spaces m),
      ms_space_names := AList.update name ?i (ms_space_names m), ms_kvstore := s4,
      ms_part_allocations := AList.update ?i (fst ?A) (ms_part_allocations m),
      ms_hash_rings := AList.update ?i (snd ?A) (ms_hash_rings m), ms_storage_hosts := h\<rparr>"
    by (simp add: m4 m2)
  ultimately show ?thesis using c by blast
qed

lemma create_space_total:
  assumes "map_of (ms_space_names m) name = None" and "validate_strategy st pn = Inr ()"
    and "\<And>s k v. \<exists>s'. kv_put (me_ops env) s k v = (Inr (), s')" and "\<And>x. \<exists>b. me_space env x = Inr b" and "\<And>x. \<exists>b. me_ring env x = Inr b"
  shows "\<exists>m'. create_space env now name pn rf vt st m = (Inr (ms_next_space_id m), m')"
proof -
  have put: "\<exists>m'. meta_put env k (Inr b) m = (Inr (), m')" for k b m
    using assms(3) [of "ms_kvstore m" k b] by (auto simp: meta_put_def)
  then have sp: "\<exists>m'. meta_put env k (me_space env x) m = (Inr (), m')" for k x m using assms(4) [of x] by auto
  have ri: "\<exists>m'. persist_ring env i m = (Inr (), m')" for i m
  proof (cases "map_of (ms_hash_rings m) i")
    case (Some r)
    with assms(5) [of r] put show ?thesis by (auto simp: persist_ring_def)
  qed (simp add: persist_ring_def)
  let ?i = "ms_next_space_id m"
  let ?sp = "\<lparr>sp_id = ?i, sp_name = name, sp_partition_num = pn, sp_replica_factor = rf, sp_vid_type = vt, sp_partition_strategy = st\<rparr>"
  obtain m2 where p: "meta_put env (meta_space_key ?i) (me_space env ?sp)
      (m\<lparr>ms_next_space_id := ?i + 1, ms_spaces := AList.update ?i ?sp (ms_spaces m),
         ms_space_names := AList.update name ?i (ms_space_names m)\<rparr>) = (Inr (), m2)" using sp by blast
  let ?A = "get_allocations (fold (\<lambda>h. ring_add_node (ring_node_new (fst h) (snd h))) (get_active_storage_hosts now m2)
              (ring_new pn rf ring_config_default))"
  obtain m4 where q: "persist_ring env ?i (track_partitions ?i (fst ?A)
      (m2\<lparr>ms_part_allocations := AList.update ?i (fst ?A) (ms_part_allocations m2),
          ms_hash_rings := AList.update ?i (snd ?A) (ms_hash_rings m2)\<rparr>)) = (Inr (), m4)" using ri by blast
  have "create_space env now name pn rf vt st m = (Inr ?i, m4)"
    using p q assms(1,2) by (simp add: create_space_def Let_def case_prod_beta)
  then show ?thesis by blast
qed

section \<open>Properties\<close>


definition plain_meta_env :: "(memory_kv, bytes) meta_env" where
  "plain_meta_env = \<lparr>me_ops = memory_ops, me_etext = id, me_space = (\<lambda>_. Inr []), me_ring = (\<lambda>_. Inr []),
     me_read_ring = (\<lambda>_. Inl []), me_tag = (\<lambda>_. Inr []), me_read_tag = (\<lambda>_. Inl []), me_edge = (\<lambda>_. Inr []),
     me_read_edge = (\<lambda>_. Inl []), me_tag_index = (\<lambda>_. Inr []), me_edge_index = (\<lambda>_. Inr [])\<rparr>"

definition plain_hosts :: "memory_kv meta_service" where
  "plain_hosts = snd (handle_heartbeat 0 [104] 9779 (ascii ''storage'') 0 (meta_service_new memory_new 7))"


end
