(* ===== verification/MetaCatalog.thy ===== *)
theory MetaCatalog
  imports MetaService
begin

text \<open>
  Tags, edges and their indexes in the meta service (\<^verbatim>\<open>service/tag.rs\<close>, \<^verbatim>\<open>service/edge.rs\<close>, \<^verbatim>\<open>service/index.rs\<close>): creation,
  lookup, \<open>ALTER\<close> with its version history in the key-value store, and removal.

  A generic lemma group on tables of named objects with increasing ids carries the invariant of all five tables.
\<close>

section \<open>Tags\<close>

definition get_tag_by_id :: "u32 \<Rightarrow> u32 \<Rightarrow> 's meta_service \<Rightarrow> meta_error + tag_schema" where
  "get_tag_by_id space_id tag_id m =
     (case map_of (ms_tags m) (space_id, tag_id) of None \<Rightarrow> Inl (TagNotFound (id_text tag_id)) | Some t \<Rightarrow> Inr t)"

definition get_tag :: "u32 \<Rightarrow> bytes \<Rightarrow> 's meta_service \<Rightarrow> meta_error + tag_schema" where
  "get_tag space_id name m =
     (case map_of (ms_tag_names m) (space_id, name) of
        None \<Rightarrow> Inl (TagNotFound name)
      | Some tag_id \<Rightarrow> get_tag_by_id space_id tag_id m)"

definition list_tags :: "u32 \<Rightarrow> 's meta_service \<Rightarrow> tag_schema list" where
  "list_tags space_id m = filter (\<lambda>t. ts_space_id t = space_id) (map snd (ms_tags m))"

definition create_tag ::
  "('s, 'e) meta_env \<Rightarrow> u32 \<Rightarrow> bytes \<Rightarrow> field list \<Rightarrow> 's meta_service \<Rightarrow> (meta_error + u32) \<times> 's meta_service" where
  "create_tag env space_id name fs m =
     (case get_space space_id m of
        Inl e \<Rightarrow> (Inl e, m)
      | Inr _ \<Rightarrow>
         (if map_of (ms_tag_names m) (space_id, name) \<noteq> None then (Inl (TagAlreadyExists name), m)
          else (let tag_id = ms_next_tag_id m;
                    t = \<lparr>ts_id = tag_id, ts_space_id = space_id, ts_name = name, ts_version = 1, ts_fields = fs\<rparr>;
                    m = m\<lparr>ms_next_tag_id := tag_id + 1, ms_tags := AList.update (space_id, tag_id) t (ms_tags m),
                          ms_tag_names := AList.update (space_id, name) tag_id (ms_tag_names m)\<rparr>
                in case meta_put env (meta_tag_key space_id tag_id) (me_tag env t) m of
                     (Inl e, m) \<Rightarrow> (Inl e, m)
                   | (Inr _, m) \<Rightarrow> (Inr tag_id, m))))"

definition drop_tag :: "('s, 'e) meta_env \<Rightarrow> u32 \<Rightarrow> bytes \<Rightarrow> 's meta_service \<Rightarrow> (meta_error + unit) \<times> 's meta_service" where
  "drop_tag env space_id name m =
     (case map_of (ms_tag_names m) (space_id, name) of
        None \<Rightarrow> (Inl (TagNotFound name), m)
      | Some tag_id \<Rightarrow>
          meta_delete env (meta_tag_key space_id tag_id)
            (m\<lparr>ms_tag_names := AList.delete (space_id, name) (ms_tag_names m),
               ms_tags := AList.delete (space_id, tag_id) (ms_tags m)\<rparr>))"

definition alter_tag ::
  "('s, 'e) meta_env \<Rightarrow> u32 \<Rightarrow> bytes \<Rightarrow> alter_operation list \<Rightarrow> 's meta_service \<Rightarrow> (meta_error + i32) \<times> 's meta_service" where
  "alter_tag env space_id name operations m =
     (case map_of (ms_tag_names m) (space_id, name) of
        None \<Rightarrow> (Inl (TagNotFound name), m)
      | Some tag_id \<Rightarrow>
         (case map_of (ms_tags m) (space_id, tag_id) of
            None \<Rightarrow> (Inl (TagNotFound name), m)
          | Some current \<Rightarrow>
             (case alter_columns operations (ts_fields current) of
                Inl e \<Rightarrow> (Inl e, m)
              | Inr new_fields \<Rightarrow>
                 (let new_version = ts_version current + 1
                  in case me_tag env current of
                       Inl e \<Rightarrow> (Inl (MetaSerialization e), m)
                     | Inr history_value \<Rightarrow>
                        (let t = \<lparr>ts_id = tag_id, ts_space_id = space_id, ts_name = name, ts_version = new_version,
                                  ts_fields = new_fields\<rparr>;
                             m = m\<lparr>ms_tags := AList.update (space_id, tag_id) t (ms_tags m)\<rparr>
                         in case me_tag env t of
                              Inl e \<Rightarrow> (Inl (MetaSerialization e), m)
                            | Inr v \<Rightarrow>
                               (case kv_batch_put (me_ops env) (ms_kvstore m)
                                       [(meta_tag_version_key space_id tag_id (ts_version current), history_value),
                                        (meta_tag_key space_id tag_id, v)] of
                                  (Inl e, s) \<Rightarrow> (Inl (MetaKVStore (me_etext env e)), m\<lparr>ms_kvstore := s\<rparr>)
                                | (Inr _, s) \<Rightarrow> (Inr new_version, m\<lparr>ms_kvstore := s\<rparr>)))))))"

fun load_tag_versions ::
  "('s, 'e) meta_env \<Rightarrow> u32 \<Rightarrow> u32 \<Rightarrow> i32 list \<Rightarrow> 's \<Rightarrow> meta_error + tag_schema list" where
  "load_tag_versions env space_id tag_id [] s = Inr []"
| "load_tag_versions env space_id tag_id (version # vs) s =
     (case kv_get (me_ops env) s (meta_tag_version_key space_id tag_id version) of
        Inl e \<Rightarrow> Inl (MetaKVStore (me_etext env e))
      | Inr None \<Rightarrow> load_tag_versions env space_id tag_id vs s
      | Inr (Some data) \<Rightarrow>
         (case me_read_tag env data of
            Inl _ \<Rightarrow> load_tag_versions env space_id tag_id vs s
          | Inr t \<Rightarrow>
             (case load_tag_versions env space_id tag_id vs s of Inl e \<Rightarrow> Inl e | Inr ts \<Rightarrow> Inr (t # ts))))"

definition get_tag_versions :: "('s, 'e) meta_env \<Rightarrow> u32 \<Rightarrow> bytes \<Rightarrow> 's meta_service \<Rightarrow> meta_error + tag_schema list" where
  "get_tag_versions env space_id name m =
     (case map_of (ms_tag_names m) (space_id, name) of
        None \<Rightarrow> Inl (TagNotFound name)
      | Some tag_id \<Rightarrow>
         (case map_of (ms_tags m) (space_id, tag_id) of
            None \<Rightarrow> Inl (TagNotFound name)
          | Some current \<Rightarrow>
             (case load_tag_versions env space_id tag_id (map word_of_int [1..sint (ts_version current) - 1]) (ms_kvstore m) of
                Inl e \<Rightarrow> Inl e
              | Inr versions \<Rightarrow> Inr (versions @ [current]))))"

section \<open>Edges\<close>

definition get_edge_by_id :: "u32 \<Rightarrow> u32 \<Rightarrow> 's meta_service \<Rightarrow> meta_error + edge_schema" where
  "get_edge_by_id space_id edge_id m =
     (case map_of (ms_edges m) (space_id, edge_id) of None \<Rightarrow> Inl (EdgeNotFound (id_text edge_id)) | Some t \<Rightarrow> Inr t)"

definition get_edge :: "u32 \<Rightarrow> bytes \<Rightarrow> 's meta_service \<Rightarrow> meta_error + edge_schema" where
  "get_edge space_id name m =
     (case map_of (ms_edge_names m) (space_id, name) of
        None \<Rightarrow> Inl (EdgeNotFound name)
      | Some edge_id \<Rightarrow> get_edge_by_id space_id edge_id m)"

definition list_edges :: "u32 \<Rightarrow> 's meta_service \<Rightarrow> edge_schema list" where
  "list_edges space_id m = filter (\<lambda>t. es_space_id t = space_id) (map snd (ms_edges m))"

definition create_edge ::
  "('s, 'e) meta_env \<Rightarrow> u32 \<Rightarrow> bytes \<Rightarrow> field list \<Rightarrow> 's meta_service \<Rightarrow> (meta_error + u32) \<times> 's meta_service" where
  "create_edge env space_id name fs m =
     (case get_space space_id m of
        Inl e \<Rightarrow> (Inl e, m)
      | Inr _ \<Rightarrow>
         (if map_of (ms_edge_names m) (space_id, name) \<noteq> None then (Inl (EdgeAlreadyExists name), m)
          else (let edge_id = ms_next_edge_id m;
                    t = \<lparr>es_id = edge_id, es_space_id = space_id, es_name = name, es_version = 1, es_fields = fs\<rparr>;
                    m = m\<lparr>ms_next_edge_id := edge_id + 1, ms_edges := AList.update (space_id, edge_id) t (ms_edges m),
                          ms_edge_names := AList.update (space_id, name) edge_id (ms_edge_names m)\<rparr>
                in case meta_put env (meta_edge_key space_id edge_id) (me_edge env t) m of
                     (Inl e, m) \<Rightarrow> (Inl e, m)
                   | (Inr _, m) \<Rightarrow> (Inr edge_id, m))))"

definition drop_edge :: "('s, 'e) meta_env \<Rightarrow> u32 \<Rightarrow> bytes \<Rightarrow> 's meta_service \<Rightarrow> (meta_error + unit) \<times> 's meta_service" where
  "drop_edge env space_id name m =
     (case map_of (ms_edge_names m) (space_id, name) of
        None \<Rightarrow> (Inl (EdgeNotFound name), m)
      | Some edge_id \<Rightarrow>
          meta_delete env (meta_edge_key space_id edge_id)
            (m\<lparr>ms_edge_names := AList.delete (space_id, name) (ms_edge_names m),
               ms_edges := AList.delete (space_id, edge_id) (ms_edges m)\<rparr>))"

definition alter_edge ::
  "('s, 'e) meta_env \<Rightarrow> u32 \<Rightarrow> bytes \<Rightarrow> alter_operation list \<Rightarrow> 's meta_service \<Rightarrow> (meta_error + i32) \<times> 's meta_service" where
  "alter_edge env space_id name operations m =
     (case map_of (ms_edge_names m) (space_id, name) of
        None \<Rightarrow> (Inl (EdgeNotFound name), m)
      | Some edge_id \<Rightarrow>
         (case map_of (ms_edges m) (space_id, edge_id) of
            None \<Rightarrow> (Inl (EdgeNotFound name), m)
          | Some current \<Rightarrow>
             (case alter_columns operations (es_fields current) of
                Inl e \<Rightarrow> (Inl e, m)
              | Inr new_fields \<Rightarrow>
                 (let new_version = es_version current + 1
                  in case me_edge env current of
                       Inl e \<Rightarrow> (Inl (MetaSerialization e), m)
                     | Inr history_value \<Rightarrow>
                        (let t = \<lparr>es_id = edge_id, es_space_id = space_id, es_name = name, es_version = new_version,
                                  es_fields = new_fields\<rparr>;
                             m = m\<lparr>ms_edges := AList.update (space_id, edge_id) t (ms_edges m)\<rparr>
                         in case me_edge env t of
                              Inl e \<Rightarrow> (Inl (MetaSerialization e), m)
                            | Inr v \<Rightarrow>
                               (case kv_batch_put (me_ops env) (ms_kvstore m)
                                       [(meta_edge_version_key space_id edge_id (es_version current), history_value),
                                        (meta_edge_key space_id edge_id, v)] of
                                  (Inl e, s) \<Rightarrow> (Inl (MetaKVStore (me_etext env e)), m\<lparr>ms_kvstore := s\<rparr>)
                                | (Inr _, s) \<Rightarrow> (Inr new_version, m\<lparr>ms_kvstore := s\<rparr>)))))))"

fun load_edge_versions ::
  "('s, 'e) meta_env \<Rightarrow> u32 \<Rightarrow> u32 \<Rightarrow> i32 list \<Rightarrow> 's \<Rightarrow> meta_error + edge_schema list" where
  "load_edge_versions env space_id edge_id [] s = Inr []"
| "load_edge_versions env space_id edge_id (version # vs) s =
     (case kv_get (me_ops env) s (meta_edge_version_key space_id edge_id version) of
        Inl e \<Rightarrow> Inl (MetaKVStore (me_etext env e))
      | Inr None \<Rightarrow> load_edge_versions env space_id edge_id vs s
      | Inr (Some data) \<Rightarrow>
         (case me_read_edge env data of
            Inl _ \<Rightarrow> load_edge_versions env space_id edge_id vs s
          | Inr t \<Rightarrow>
             (case load_edge_versions env space_id edge_id vs s of Inl e \<Rightarrow> Inl e | Inr ts \<Rightarrow> Inr (t # ts))))"

definition get_edge_versions :: "('s, 'e) meta_env \<Rightarrow> u32 \<Rightarrow> bytes \<Rightarrow> 's meta_service \<Rightarrow> meta_error + edge_schema list" where
  "get_edge_versions env space_id name m =
     (case map_of (ms_edge_names m) (space_id, name) of
        None \<Rightarrow> Inl (EdgeNotFound name)
      | Some edge_id \<Rightarrow>
         (case map_of (ms_edges m) (space_id, edge_id) of
            None \<Rightarrow> Inl (EdgeNotFound name)
          | Some current \<Rightarrow>
             (case load_edge_versions env space_id edge_id (map word_of_int [1..sint (es_version current) - 1]) (ms_kvstore m) of
                Inl e \<Rightarrow> Inl e
              | Inr versions \<Rightarrow> Inr (versions @ [current]))))"

section \<open>Tag indexes\<close>

definition create_tag_index ::
  "('s, 'e) meta_env \<Rightarrow> u32 \<Rightarrow> bytes \<Rightarrow> bytes \<Rightarrow> bytes list \<Rightarrow> 's meta_service \<Rightarrow> (meta_error + u32) \<times> 's meta_service" where
  "create_tag_index env space_id index_name tag_name fs m =
     (case get_tag space_id tag_name m of
        Inl e \<Rightarrow> (Inl e, m)
      | Inr t \<Rightarrow>
         (case find (\<lambda>f. \<not> list_ex (\<lambda>g. fd_name g = f) (ts_fields t)) fs of
            Some f \<Rightarrow> (Inl (FieldNotFound f), m)
          | None \<Rightarrow>
             (if map_of (ms_tag_index_names m) (space_id, index_name) \<noteq> None then (Inl (IndexAlreadyExists index_name), m)
              else (let index_id = ms_next_tag_index_id m;
                        ix = \<lparr>ti_id = index_id, ti_space_id = space_id, ti_index_name = index_name, ti_tag_id = ts_id t,
                              ti_fields = fs\<rparr>;
                        m = m\<lparr>ms_next_tag_index_id := index_id + 1,
                              ms_tag_indexes := AList.update (space_id, index_id) ix (ms_tag_indexes m),
                              ms_tag_index_names := AList.update (space_id, index_name) index_id (ms_tag_index_names m)\<rparr>
                    in case meta_put env (meta_tag_index_key space_id index_id) (me_tag_index env ix) m of
                         (Inl e, m) \<Rightarrow> (Inl e, m)
                       | (Inr _, m) \<Rightarrow> (Inr index_id, m)))))"

definition get_tag_index :: "u32 \<Rightarrow> bytes \<Rightarrow> 's meta_service \<Rightarrow> meta_error + tag_index" where
  "get_tag_index space_id name m =
     (case map_of (ms_tag_index_names m) (space_id, name) of
        None \<Rightarrow> Inl (IndexNotFound name)
      | Some index_id \<Rightarrow>
         (case map_of (ms_tag_indexes m) (space_id, index_id) of None \<Rightarrow> Inl (IndexNotFound name) | Some ix \<Rightarrow> Inr ix))"

definition list_tag_indexes :: "u32 \<Rightarrow> 's meta_service \<Rightarrow> tag_index list" where
  "list_tag_indexes space_id m = filter (\<lambda>x. ti_space_id x = space_id) (map snd (ms_tag_indexes m))"

definition drop_tag_index :: "('s, 'e) meta_env \<Rightarrow> u32 \<Rightarrow> bytes \<Rightarrow> 's meta_service \<Rightarrow> (meta_error + unit) \<times> 's meta_service" where
  "drop_tag_index env space_id name m =
     (case map_of (ms_tag_index_names m) (space_id, name) of
        None \<Rightarrow> (Inl (IndexNotFound name), m)
      | Some index_id \<Rightarrow>
          meta_delete env (meta_tag_index_key space_id index_id)
            (m\<lparr>ms_tag_index_names := AList.delete (space_id, name) (ms_tag_index_names m),
               ms_tag_indexes := AList.delete (space_id, index_id) (ms_tag_indexes m)\<rparr>))"

definition get_tag_indexes_for_tag :: "u32 \<Rightarrow> u32 \<Rightarrow> 's meta_service \<Rightarrow> tag_index list" where
  "get_tag_indexes_for_tag space_id owner m =
     filter (\<lambda>x. ti_space_id x = space_id \<and> ti_tag_id x = owner) (map snd (ms_tag_indexes m))"

section \<open>Edge indexes\<close>

definition create_edge_index ::
  "('s, 'e) meta_env \<Rightarrow> u32 \<Rightarrow> bytes \<Rightarrow> bytes \<Rightarrow> bytes list \<Rightarrow> 's meta_service \<Rightarrow> (meta_error + u32) \<times> 's meta_service" where
  "create_edge_index env space_id index_name edge_name fs m =
     (case get_edge space_id edge_name m of
        Inl e \<Rightarrow> (Inl e, m)
      | Inr t \<Rightarrow>
         (case find (\<lambda>f. \<not> list_ex (\<lambda>g. fd_name g = f) (es_fields t)) fs of
            Some f \<Rightarrow> (Inl (FieldNotFound f), m)
          | None \<Rightarrow>
             (if map_of (ms_edge_index_names m) (space_id, index_name) \<noteq> None then (Inl (IndexAlreadyExists index_name), m)
              else (let index_id = ms_next_edge_index_id m;
                        ix = \<lparr>ei_id = index_id, ei_space_id = space_id, ei_index_name = index_name, ei_edge_type = es_id t,
                              ei_fields = fs\<rparr>;
                        m = m\<lparr>ms_next_edge_index_id := index_id + 1,
                              ms_edge_indexes := AList.update (space_id, index_id) ix (ms_edge_indexes m),
                              ms_edge_index_names := AList.update (space_id, index_name) index_id (ms_edge_index_names m)\<rparr>
                    in case meta_put env (meta_edge_index_key space_id index_id) (me_edge_index env ix) m of
                         (Inl e, m) \<Rightarrow> (Inl e, m)
                       | (Inr _, m) \<Rightarrow> (Inr index_id, m)))))"

definition get_edge_index :: "u32 \<Rightarrow> bytes \<Rightarrow> 's meta_service \<Rightarrow> meta_error + edge_index" where
  "get_edge_index space_id name m =
     (case map_of (ms_edge_index_names m) (space_id, name) of
        None \<Rightarrow> Inl (IndexNotFound name)
      | Some index_id \<Rightarrow>
         (case map_of (ms_edge_indexes m) (space_id, index_id) of None \<Rightarrow> Inl (IndexNotFound name) | Some ix \<Rightarrow> Inr ix))"

definition list_edge_indexes :: "u32 \<Rightarrow> 's meta_service \<Rightarrow> edge_index list" where
  "list_edge_indexes space_id m = filter (\<lambda>x. ei_space_id x = space_id) (map snd (ms_edge_indexes m))"

definition drop_edge_index :: "('s, 'e) meta_env \<Rightarrow> u32 \<Rightarrow> bytes \<Rightarrow> 's meta_service \<Rightarrow> (meta_error + unit) \<times> 's meta_service" where
  "drop_edge_index env space_id name m =
     (case map_of (ms_edge_index_names m) (space_id, name) of
        None \<Rightarrow> (Inl (IndexNotFound name), m)
      | Some index_id \<Rightarrow>
          meta_delete env (meta_edge_index_key space_id index_id)
            (m\<lparr>ms_edge_index_names := AList.delete (space_id, name) (ms_edge_index_names m),
               ms_edge_indexes := AList.delete (space_id, index_id) (ms_edge_indexes m)\<rparr>))"

definition get_edge_indexes_for_edge :: "u32 \<Rightarrow> u32 \<Rightarrow> 's meta_service \<Rightarrow> edge_index list" where
  "get_edge_indexes_for_edge space_id owner m =
     filter (\<lambda>x. ei_space_id x = space_id \<and> ei_edge_type x = owner) (map snd (ms_edge_indexes m))"

section \<open>Calls of the service\<close>

text \<open>
  The calls that change the state of the service, and their effect on it; the answers are dropped. \<open>now\<close> is the time of the call, where it matters.
\<close>

datatype meta_call =
    Heartbeat int bytes u32 bytes i64
  | CleanupStaleHosts int
  | AddHostPartition bytes u32 u32 u32
  | RemoveHostPartition bytes u32 u32 u32
  | UpdatePartAllocation u32 u32 "(bytes \<times> u32) list"
  | AddNodeToRings bytes u32
  | RemoveNodeFromRings bytes u32
  | CreateSpace int bytes u32 u32 vid_type partition_strategy
  | DropSpace bytes
  | CreateTag u32 bytes "field list"
  | DropTag u32 bytes
  | AlterTag u32 bytes "alter_operation list"
  | CreateEdge u32 bytes "field list"
  | DropEdge u32 bytes
  | AlterEdge u32 bytes "alter_operation list"
  | CreateTagIndex u32 bytes bytes "bytes list"
  | DropTagIndex u32 bytes
  | CreateEdgeIndex u32 bytes bytes "bytes list"
  | DropEdgeIndex u32 bytes

fun meta_apply ::
  "('s, 'e) meta_env \<Rightarrow> (ring_node set \<Rightarrow> ring_node list) \<Rightarrow> meta_call \<Rightarrow> 's meta_service \<Rightarrow> 's meta_service" where
  "meta_apply env iter (Heartbeat now h p role c) m = snd (handle_heartbeat now h p role c m)"
| "meta_apply env iter (CleanupStaleHosts now) m = snd (cleanup_stale_hosts now m)"
| "meta_apply env iter (AddHostPartition h p s i) m = add_host_partition h p s i m"
| "meta_apply env iter (RemoveHostPartition h p s i) m = remove_host_partition h p s i m"
| "meta_apply env iter (UpdatePartAllocation s i hosts) m = update_part_allocation s i hosts m"
| "meta_apply env iter (AddNodeToRings h p) m = snd (add_node_to_rings env iter h p m)"
| "meta_apply env iter (RemoveNodeFromRings h p) m = snd (remove_node_from_rings env iter h p m)"
| "meta_apply env iter (CreateSpace now name pn rf vt st) m = snd (create_space env now name pn rf vt st m)"
| "meta_apply env iter (DropSpace name) m = snd (drop_space env name m)"
| "meta_apply env iter (CreateTag s name fs) m = snd (create_tag env s name fs m)"
| "meta_apply env iter (DropTag s name) m = snd (drop_tag env s name m)"
| "meta_apply env iter (AlterTag s name alters) m = snd (alter_tag env s name alters m)"
| "meta_apply env iter (CreateEdge s name fs) m = snd (create_edge env s name fs m)"
| "meta_apply env iter (DropEdge s name) m = snd (drop_edge env s name m)"
| "meta_apply env iter (AlterEdge s name alters) m = snd (alter_edge env s name alters m)"
| "meta_apply env iter (CreateTagIndex s name tag fs) m = snd (create_tag_index env s name tag fs m)"
| "meta_apply env iter (DropTagIndex s name) m = snd (drop_tag_index env s name m)"
| "meta_apply env iter (CreateEdgeIndex s name edge fs) m = snd (create_edge_index env s name edge fs m)"
| "meta_apply env iter (DropEdgeIndex s name) m = snd (drop_edge_index env s name m)"

definition meta_run ::
  "('s, 'e) meta_env \<Rightarrow> (ring_node set \<Rightarrow> ring_node list) \<Rightarrow> meta_call list \<Rightarrow> 's meta_service \<Rightarrow> 's meta_service" where
  "meta_run env iter calls m = fold (meta_apply env iter) calls m"

section \<open>The tables of the catalog\<close>

definition tag_nm :: "tag_schema \<Rightarrow> u32 \<times> bytes" where "tag_nm t = (ts_space_id t, ts_name t)"
definition edge_nm :: "edge_schema \<Rightarrow> u32 \<times> bytes" where "edge_nm t = (es_space_id t, es_name t)"
definition tag_index_nm :: "tag_index \<Rightarrow> u32 \<times> bytes" where "tag_index_nm x = (ti_space_id x, ti_index_name x)"
definition edge_index_nm :: "edge_index \<Rightarrow> u32 \<times> bytes" where "edge_index_nm x = (ei_space_id x, ei_index_name x)"

lemmas nm_defs = tag_nm_def edge_nm_def tag_index_nm_def edge_index_nm_def member_key_of_def space_key_of_def

interpretation tag_table: named_table member_key_of tag_nm ts_id
  by unfold_locales (simp add: member_key_of_def)

interpretation edge_table: named_table member_key_of edge_nm es_id
  by unfold_locales (simp add: member_key_of_def)

interpretation tag_index_table: named_table member_key_of tag_index_nm ti_id
  by unfold_locales (simp add: member_key_of_def)

interpretation edge_index_table: named_table member_key_of edge_index_nm ei_id
  by unfold_locales (simp add: member_key_of_def)

text \<open>The five tables, and what an operation that only works on hosts, rings or the store leaves of them.\<close>

abbreviation spaces_of :: "'s meta_service \<Rightarrow> u32 \<times> (bytes \<times> u32) list \<times> (u32 \<times> space) list" where
  "spaces_of m \<equiv> (ms_next_space_id m, ms_space_names m, ms_spaces m)"
abbreviation tags_of :: "'s meta_service \<Rightarrow> u32 \<times> ((u32 \<times> bytes) \<times> u32) list \<times> ((u32 \<times> u32) \<times> tag_schema) list" where
  "tags_of m \<equiv> (ms_next_tag_id m, ms_tag_names m, ms_tags m)"
abbreviation edges_of :: "'s meta_service \<Rightarrow> u32 \<times> ((u32 \<times> bytes) \<times> u32) list \<times> ((u32 \<times> u32) \<times> edge_schema) list" where
  "edges_of m \<equiv> (ms_next_edge_id m, ms_edge_names m, ms_edges m)"
abbreviation tag_indexes_of :: "'s meta_service \<Rightarrow> u32 \<times> ((u32 \<times> bytes) \<times> u32) list \<times> ((u32 \<times> u32) \<times> tag_index) list" where
  "tag_indexes_of m \<equiv> (ms_next_tag_index_id m, ms_tag_index_names m, ms_tag_indexes m)"
abbreviation edge_indexes_of :: "'s meta_service \<Rightarrow> u32 \<times> ((u32 \<times> bytes) \<times> u32) list \<times> ((u32 \<times> u32) \<times> edge_index) list" where
  "edge_indexes_of m \<equiv> (ms_next_edge_index_id m, ms_edge_index_names m, ms_edge_indexes m)"

definition catalog where
  "catalog m = (spaces_of m, tags_of m, edges_of m, tag_indexes_of m, edge_indexes_of m)"

definition catalog_ok :: "nat \<Rightarrow> 's meta_service \<Rightarrow> bool" where
  "catalog_ok n m \<longleftrightarrow> table_at space_key_of sp_name sp_id n (spaces_of m) \<and> table_at member_key_of tag_nm ts_id n (tags_of m) \<and>
     table_at member_key_of edge_nm es_id n (edges_of m) \<and> table_at member_key_of tag_index_nm ti_id n (tag_indexes_of m) \<and>
     table_at member_key_of edge_index_nm ei_id n (edge_indexes_of m)"

lemma catalog_ok_mono: "catalog_ok n m \<Longrightarrow> catalog_ok (Suc n) m"
  by (simp add: catalog_ok_def)

lemma catalog_ok_cong: "catalog m' = catalog m \<Longrightarrow> catalog_ok n m' \<longleftrightarrow> catalog_ok n m"
  by (simp add: catalog_def catalog_ok_def)

lemma catalog_fields [simp]:
  "catalog (m\<lparr>ms_kvstore := s\<rparr>) = catalog m" "catalog (m\<lparr>ms_storage_hosts := h\<rparr>) = catalog m"
  "catalog (m\<lparr>ms_part_allocations := a\<rparr>) = catalog m" "catalog (m\<lparr>ms_hash_rings := r\<rparr>) = catalog m"
  by (simp_all add: catalog_def)

lemma catalog_put [simp]: "catalog (snd (meta_put env k d m)) = catalog m"
  using meta_put_kv [of env k d m] by (cases "meta_put env k d m") fastforce

lemma catalog_delete [simp]: "catalog (snd (meta_delete env k m)) = catalog m"
  using meta_delete_kv [of env k m] by (cases "meta_delete env k m") fastforce

lemma catalog_persist [simp]: "catalog (snd (persist_ring env i m)) = catalog m"
  using persist_ring_kv [of env i m] by (cases "persist_ring env i m") fastforce

lemma catalog_track [simp]: "catalog (track_partitions i allocs m) = catalog m"
  using track_partitions_hosts [of i allocs m] by fastforce

lemma snd_result: "snd (case p of (x, m) \<Rightarrow> (case x of Inl e \<Rightarrow> (Inl e, m) | Inr u \<Rightarrow> (Inr (g u), m))) = snd p"
  by (cases p) (simp split: sum.split)

lemma catalog_change_ring: "catalog (fst (change_ring iter skip change e acc)) = catalog (fst acc)"
  by (auto simp: change_ring_def catalog_def split: prod.splits)

lemma catalog_change_rings_fold: "catalog (fst (fold (change_ring iter skip change) es acc)) = catalog (fst acc)"
  by (induction es arbitrary: acc) (simp_all add: catalog_change_ring)

lemma catalog_persist_rings [simp]: "catalog (snd (persist_rings env ids m)) = catalog m"
proof (induction ids arbitrary: m)
  case (Cons i ids)
  then show ?case by (auto split: prod.splits sum.splits dest!: persist_ring_kv)
qed simp

lemma catalog_change_rings: "catalog (snd (change_rings env iter skip change m)) = catalog m"
proof -
  obtain m' ms ids where f: "fold (change_ring iter skip change) (ms_hash_rings m) (m, [], []) = (m', ms, ids)" by (metis prod_cases3)
  then have "catalog m' = catalog m" using catalog_change_rings_fold [of iter skip change "ms_hash_rings m" "(m, [], [])"] by simp
  with catalog_persist_rings [of env ids m'] show ?thesis by (simp add: change_rings_def f snd_result)
qed

section \<open>What each call keeps of the tables\<close>


lemma create_tag_catalog:
  assumes ok: "catalog_ok n m" and n: "n < 2 ^ 32 - 1"
  shows "catalog_ok (Suc n) (snd (create_tag env sid name fs m))"
proof (cases "(\<exists>sp. get_space sid m = Inr sp) \<and> map_of (ms_tag_names m) (sid, name) = None")
  case True
  then obtain sp where c: "get_space sid m = Inr sp" "map_of (ms_tag_names m) (sid, name) = None" by blast
  let ?i = "ms_next_tag_id m"
  let ?t = "\<lparr>ts_id = ?i, ts_space_id = sid, ts_name = name, ts_version = 1, ts_fields = fs\<rparr>"
  let ?m = "m\<lparr>ms_next_tag_id := ?i + 1, ms_tags := AList.update (sid, ?i) ?t (ms_tags m),
              ms_tag_names := AList.update (sid, name) ?i (ms_tag_names m)\<rparr>"
  have "catalog (snd (create_tag env sid name fs m)) = catalog ?m" using c by (simp add: create_tag_def Let_def snd_result)
  moreover have "catalog_ok (Suc n) ?m"
    using ok tag_table.table_at_create [of n ?i "ms_tag_names m" "ms_tags m" ?t] c(2) n by (simp add: catalog_ok_def nm_defs)
  ultimately show ?thesis using catalog_ok_cong by blast
next
  case False
  then have "snd (create_tag env sid name fs m) = m" by (auto simp: create_tag_def split: sum.splits)
  with ok show ?thesis by (simp add: catalog_ok_mono)
qed

lemma drop_tag_catalog:
  assumes ok: "catalog_ok n m"
  shows "catalog_ok (Suc n) (snd (drop_tag env sid name m))"
proof (cases "map_of (ms_tag_names m) (sid, name)")
  case (Some i)
  let ?m = "m\<lparr>ms_tag_names := AList.delete (sid, name) (ms_tag_names m), ms_tags := AList.delete (sid, i) (ms_tags m)\<rparr>"
  have "catalog (snd (drop_tag env sid name m)) = catalog ?m" using Some by (simp add: drop_tag_def)
  moreover have "catalog_ok (Suc n) ?m"
    using ok tag_table.table_at_drop [OF _ Some, of n "ms_next_tag_id m" "ms_tags m"] by (simp add: catalog_ok_def nm_defs)
  ultimately show ?thesis using catalog_ok_cong by blast
qed (use ok in \<open>simp add: drop_tag_def catalog_ok_mono\<close>)

text \<open>\<open>alter_tag\<close> fails before any change, or replaces the schema in memory, even where the batch then fails.\<close>

lemma alter_tag_effect:
  "snd (alter_tag env sid name alters m) = m \<or>
   (\<exists>i cur fs h t. map_of (ms_tag_names m) (sid, name) = Some i \<and> map_of (ms_tags m) (sid, i) = Some cur \<and>
      alter_columns alters (ts_fields cur) = Inr fs \<and> me_tag env cur = Inr h \<and>
      t = \<lparr>ts_id = i, ts_space_id = sid, ts_name = name, ts_version = ts_version cur + 1, ts_fields = fs\<rparr> \<and>
      catalog (snd (alter_tag env sid name alters m)) = catalog (m\<lparr>ms_tags := AList.update (sid, i) t (ms_tags m)\<rparr>))"
proof (cases "map_of (ms_tag_names m) (sid, name)")
  case i: (Some i)
  show ?thesis
  proof (cases "map_of (ms_tags m) (sid, i)")
    case cur: (Some cur)
    show ?thesis
    proof (cases "(\<exists>fs. alter_columns alters (ts_fields cur) = Inr fs) \<and> (\<exists>h. me_tag env cur = Inr h)")
      case True
      then obtain fs h where c: "alter_columns alters (ts_fields cur) = Inr fs" "me_tag env cur = Inr h" by blast
      have "catalog (snd (alter_tag env sid name alters m)) = catalog (m\<lparr>ms_tags := AList.update (sid, i)
          \<lparr>ts_id = i, ts_space_id = sid, ts_name = name, ts_version = ts_version cur + 1, ts_fields = fs\<rparr> (ms_tags m)\<rparr>)"
        by (simp add: alter_tag_def i cur c Let_def case_prod_beta split: sum.split)
      with i cur c show ?thesis by blast
    next
      case False
      then have "snd (alter_tag env sid name alters m) = m" by (auto simp: alter_tag_def i cur Let_def split: sum.splits)
      then show ?thesis ..
    qed
  qed (simp add: alter_tag_def i)
qed (simp add: alter_tag_def)

lemma alter_tag_catalog:
  assumes ok: "catalog_ok n m"
  shows "catalog_ok (Suc n) (snd (alter_tag env sid name alters m))"
  using alter_tag_effect [of env sid name alters m]
proof (elim disjE exE conjE)
  assume "snd (alter_tag env sid name alters m) = m"
  with ok show ?thesis by (simp add: catalog_ok_mono)
next
  fix i cur fs h t
  assume i: "map_of (ms_tag_names m) (sid, name) = Some i"
    and t: "t = \<lparr>ts_id = i, ts_space_id = sid, ts_name = name, ts_version = ts_version cur + 1, ts_fields = fs\<rparr>"
    and eq: "catalog (snd (alter_tag env sid name alters m)) = catalog (m\<lparr>ms_tags := AList.update (sid, i) t (ms_tags m)\<rparr>)"
  have tab: "table_ok member_key_of tag_nm ts_id (ms_next_tag_id m) (ms_tag_names m) (ms_tags m)" using ok by (simp add: catalog_ok_def)
  obtain x where x: "map_of (ms_tags m) (member_key_of (sid, name) i) = Some x" "tag_nm x = (sid, name)" "ts_id x = i"
    by (rule tag_table.table_lookup [OF tab i])
  have "catalog_ok (Suc n) (m\<lparr>ms_tags := AList.update (sid, i) t (ms_tags m)\<rparr>)"
    using ok tag_table.table_at_replace [OF _ x(1), of n "ms_next_tag_id m" "ms_tag_names m" t] x(2,3) t
    by (simp add: catalog_ok_def nm_defs)
  with eq show ?thesis using catalog_ok_cong by blast
qed

lemma create_edge_catalog:
  assumes ok: "catalog_ok n m" and n: "n < 2 ^ 32 - 1"
  shows "catalog_ok (Suc n) (snd (create_edge env sid name fs m))"
proof (cases "(\<exists>sp. get_space sid m = Inr sp) \<and> map_of (ms_edge_names m) (sid, name) = None")
  case True
  then obtain sp where c: "get_space sid m = Inr sp" "map_of (ms_edge_names m) (sid, name) = None" by blast
  let ?i = "ms_next_edge_id m"
  let ?t = "\<lparr>es_id = ?i, es_space_id = sid, es_name = name, es_version = 1, es_fields = fs\<rparr>"
  let ?m = "m\<lparr>ms_next_edge_id := ?i + 1, ms_edges := AList.update (sid, ?i) ?t (ms_edges m),
              ms_edge_names := AList.update (sid, name) ?i (ms_edge_names m)\<rparr>"
  have "catalog (snd (create_edge env sid name fs m)) = catalog ?m" using c by (simp add: create_edge_def Let_def snd_result)
  moreover have "catalog_ok (Suc n) ?m"
    using ok edge_table.table_at_create [of n ?i "ms_edge_names m" "ms_edges m" ?t] c(2) n by (simp add: catalog_ok_def nm_defs)
  ultimately show ?thesis using catalog_ok_cong by blast
next
  case False
  then have "snd (create_edge env sid name fs m) = m" by (auto simp: create_edge_def split: sum.splits)
  with ok show ?thesis by (simp add: catalog_ok_mono)
qed

lemma drop_edge_catalog:
  assumes ok: "catalog_ok n m"
  shows "catalog_ok (Suc n) (snd (drop_edge env sid name m))"
proof (cases "map_of (ms_edge_names m) (sid, name)")
  case (Some i)
  let ?m = "m\<lparr>ms_edge_names := AList.delete (sid, name) (ms_edge_names m), ms_edges := AList.delete (sid, i) (ms_edges m)\<rparr>"
  have "catalog (snd (drop_edge env sid name m)) = catalog ?m" using Some by (simp add: drop_edge_def)
  moreover have "catalog_ok (Suc n) ?m"
    using ok edge_table.table_at_drop [OF _ Some, of n "ms_next_edge_id m" "ms_edges m"] by (simp add: catalog_ok_def nm_defs)
  ultimately show ?thesis using catalog_ok_cong by blast
qed (use ok in \<open>simp add: drop_edge_def catalog_ok_mono\<close>)

text \<open>\<open>alter_edge\<close> fails before any change, or replaces the schema in memory, even where the batch then fails.\<close>

lemma alter_edge_effect:
  "snd (alter_edge env sid name alters m) = m \<or>
   (\<exists>i cur fs h t. map_of (ms_edge_names m) (sid, name) = Some i \<and> map_of (ms_edges m) (sid, i) = Some cur \<and>
      alter_columns alters (es_fields cur) = Inr fs \<and> me_edge env cur = Inr h \<and>
      t = \<lparr>es_id = i, es_space_id = sid, es_name = name, es_version = es_version cur + 1, es_fields = fs\<rparr> \<and>
      catalog (snd (alter_edge env sid name alters m)) = catalog (m\<lparr>ms_edges := AList.update (sid, i) t (ms_edges m)\<rparr>))"
proof (cases "map_of (ms_edge_names m) (sid, name)")
  case i: (Some i)
  show ?thesis
  proof (cases "map_of (ms_edges m) (sid, i)")
    case cur: (Some cur)
    show ?thesis
    proof (cases "(\<exists>fs. alter_columns alters (es_fields cur) = Inr fs) \<and> (\<exists>h. me_edge env cur = Inr h)")
      case True
      then obtain fs h where c: "alter_columns alters (es_fields cur) = Inr fs" "me_edge env cur = Inr h" by blast
      have "catalog (snd (alter_edge env sid name alters m)) = catalog (m\<lparr>ms_edges := AList.update (sid, i)
          \<lparr>es_id = i, es_space_id = sid, es_name = name, es_version = es_version cur + 1, es_fields = fs\<rparr> (ms_edges m)\<rparr>)"
        by (simp add: alter_edge_def i cur c Let_def case_prod_beta split: sum.split)
      with i cur c show ?thesis by blast
    next
      case False
      then have "snd (alter_edge env sid name alters m) = m" by (auto simp: alter_edge_def i cur Let_def split: sum.splits)
      then show ?thesis ..
    qed
  qed (simp add: alter_edge_def i)
qed (simp add: alter_edge_def)

lemma alter_edge_catalog:
  assumes ok: "catalog_ok n m"
  shows "catalog_ok (Suc n) (snd (alter_edge env sid name alters m))"
  using alter_edge_effect [of env sid name alters m]
proof (elim disjE exE conjE)
  assume "snd (alter_edge env sid name alters m) = m"
  with ok show ?thesis by (simp add: catalog_ok_mono)
next
  fix i cur fs h t
  assume i: "map_of (ms_edge_names m) (sid, name) = Some i"
    and t: "t = \<lparr>es_id = i, es_space_id = sid, es_name = name, es_version = es_version cur + 1, es_fields = fs\<rparr>"
    and eq: "catalog (snd (alter_edge env sid name alters m)) = catalog (m\<lparr>ms_edges := AList.update (sid, i) t (ms_edges m)\<rparr>)"
  have tab: "table_ok member_key_of edge_nm es_id (ms_next_edge_id m) (ms_edge_names m) (ms_edges m)" using ok by (simp add: catalog_ok_def)
  obtain x where x: "map_of (ms_edges m) (member_key_of (sid, name) i) = Some x" "edge_nm x = (sid, name)" "es_id x = i"
    by (rule edge_table.table_lookup [OF tab i])
  have "catalog_ok (Suc n) (m\<lparr>ms_edges := AList.update (sid, i) t (ms_edges m)\<rparr>)"
    using ok edge_table.table_at_replace [OF _ x(1), of n "ms_next_edge_id m" "ms_edge_names m" t] x(2,3) t
    by (simp add: catalog_ok_def nm_defs)
  with eq show ?thesis using catalog_ok_cong by blast
qed

lemma create_tag_index_catalog:
  assumes ok: "catalog_ok n m" and n: "n < 2 ^ 32 - 1"
  shows "catalog_ok (Suc n) (snd (create_tag_index env sid name own fs m))"
proof (cases "(\<exists>t. get_tag sid own m = Inr t \<and> find (\<lambda>f. \<not> list_ex (\<lambda>g. fd_name g = f) (ts_fields t)) fs = None) \<and>
    map_of (ms_tag_index_names m) (sid, name) = None")
  case True
  then obtain t where c: "get_tag sid own m = Inr t" "find (\<lambda>f. \<not> list_ex (\<lambda>g. fd_name g = f) (ts_fields t)) fs = None"
    "map_of (ms_tag_index_names m) (sid, name) = None" by blast
  let ?i = "ms_next_tag_index_id m"
  let ?t = "\<lparr>ti_id = ?i, ti_space_id = sid, ti_index_name = name, ti_tag_id = ts_id t, ti_fields = fs\<rparr>"
  let ?m = "m\<lparr>ms_next_tag_index_id := ?i + 1, ms_tag_indexes := AList.update (sid, ?i) ?t (ms_tag_indexes m),
              ms_tag_index_names := AList.update (sid, name) ?i (ms_tag_index_names m)\<rparr>"
  have "catalog (snd (create_tag_index env sid name own fs m)) = catalog ?m"
    using c by (simp add: create_tag_index_def Let_def snd_result)
  moreover have "catalog_ok (Suc n) ?m"
    using ok tag_index_table.table_at_create [of n ?i "ms_tag_index_names m" "ms_tag_indexes m" ?t] c(3) n
    by (simp add: catalog_ok_def nm_defs)
  ultimately show ?thesis using catalog_ok_cong by blast
next
  case False
  then have "snd (create_tag_index env sid name own fs m) = m"
    by (auto simp: create_tag_index_def split: sum.splits option.splits)
  with ok show ?thesis by (simp add: catalog_ok_mono)
qed

lemma drop_tag_index_catalog:
  assumes ok: "catalog_ok n m"
  shows "catalog_ok (Suc n) (snd (drop_tag_index env sid name m))"
proof (cases "map_of (ms_tag_index_names m) (sid, name)")
  case (Some i)
  let ?m = "m\<lparr>ms_tag_index_names := AList.delete (sid, name) (ms_tag_index_names m),
              ms_tag_indexes := AList.delete (sid, i) (ms_tag_indexes m)\<rparr>"
  have "catalog (snd (drop_tag_index env sid name m)) = catalog ?m" using Some by (simp add: drop_tag_index_def)
  moreover have "catalog_ok (Suc n) ?m"
    using ok tag_index_table.table_at_drop [OF _ Some, of n "ms_next_tag_index_id m" "ms_tag_indexes m"]
    by (simp add: catalog_ok_def nm_defs)
  ultimately show ?thesis using catalog_ok_cong by blast
qed (use ok in \<open>simp add: drop_tag_index_def catalog_ok_mono\<close>)

lemma create_edge_index_catalog:
  assumes ok: "catalog_ok n m" and n: "n < 2 ^ 32 - 1"
  shows "catalog_ok (Suc n) (snd (create_edge_index env sid name own fs m))"
proof (cases "(\<exists>t. get_edge sid own m = Inr t \<and> find (\<lambda>f. \<not> list_ex (\<lambda>g. fd_name g = f) (es_fields t)) fs = None) \<and>
    map_of (ms_edge_index_names m) (sid, name) = None")
  case True
  then obtain t where c: "get_edge sid own m = Inr t" "find (\<lambda>f. \<not> list_ex (\<lambda>g. fd_name g = f) (es_fields t)) fs = None"
    "map_of (ms_edge_index_names m) (sid, name) = None" by blast
  let ?i = "ms_next_edge_index_id m"
  let ?t = "\<lparr>ei_id = ?i, ei_space_id = sid, ei_index_name = name, ei_edge_type = es_id t, ei_fields = fs\<rparr>"
  let ?m = "m\<lparr>ms_next_edge_index_id := ?i + 1, ms_edge_indexes := AList.update (sid, ?i) ?t (ms_edge_indexes m),
              ms_edge_index_names := AList.update (sid, name) ?i (ms_edge_index_names m)\<rparr>"
  have "catalog (snd (create_edge_index env sid name own fs m)) = catalog ?m"
    using c by (simp add: create_edge_index_def Let_def snd_result)
  moreover have "catalog_ok (Suc n) ?m"
    using ok edge_index_table.table_at_create [of n ?i "ms_edge_index_names m" "ms_edge_indexes m" ?t] c(3) n
    by (simp add: catalog_ok_def nm_defs)
  ultimately show ?thesis using catalog_ok_cong by blast
next
  case False
  then have "snd (create_edge_index env sid name own fs m) = m"
    by (auto simp: create_edge_index_def split: sum.splits option.splits)
  with ok show ?thesis by (simp add: catalog_ok_mono)
qed

lemma drop_edge_index_catalog:
  assumes ok: "catalog_ok n m"
  shows "catalog_ok (Suc n) (snd (drop_edge_index env sid name m))"
proof (cases "map_of (ms_edge_index_names m) (sid, name)")
  case (Some i)
  let ?m = "m\<lparr>ms_edge_index_names := AList.delete (sid, name) (ms_edge_index_names m),
              ms_edge_indexes := AList.delete (sid, i) (ms_edge_indexes m)\<rparr>"
  have "catalog (snd (drop_edge_index env sid name m)) = catalog ?m" using Some by (simp add: drop_edge_index_def)
  moreover have "catalog_ok (Suc n) ?m"
    using ok edge_index_table.table_at_drop [OF _ Some, of n "ms_next_edge_index_id m" "ms_edge_indexes m"]
    by (simp add: catalog_ok_def nm_defs)
  ultimately show ?thesis using catalog_ok_cong by blast
qed (use ok in \<open>simp add: drop_edge_index_def catalog_ok_mono\<close>)

lemma create_space_catalog:
  assumes ok: "catalog_ok n m" and n: "n < 2 ^ 32 - 1"
  shows "catalog_ok (Suc n) (snd (create_space env tm name pn rf vt st m))"
proof (cases "map_of (ms_space_names m) name = None \<and> validate_strategy st pn = Inr ()")
  case True
  let ?i = "ms_next_space_id m"
  let ?t = "\<lparr>sp_id = ?i, sp_name = name, sp_partition_num = pn, sp_replica_factor = rf, sp_vid_type = vt, sp_partition_strategy = st\<rparr>"
  let ?m = "m\<lparr>ms_next_space_id := ?i + 1, ms_spaces := AList.update ?i ?t (ms_spaces m),
              ms_space_names := AList.update name ?i (ms_space_names m)\<rparr>"
  have "catalog (snd (create_space env tm name pn rf vt st m)) = catalog ?m"
    using True by (simp add: create_space_def Let_def case_prod_beta split: sum.split)
  moreover have "catalog_ok (Suc n) ?m"
    using ok space_table.table_at_create [of n ?i "ms_space_names m" "ms_spaces m" ?t] True n by (simp add: catalog_ok_def nm_defs)
  ultimately show ?thesis using catalog_ok_cong by blast
next
  case False
  then have "snd (create_space env tm name pn rf vt st m) = m" by (auto simp: create_space_def split: sum.splits)
  with ok show ?thesis by (simp add: catalog_ok_mono)
qed

lemma drop_space_catalog:
  assumes ok: "catalog_ok n m"
  shows "catalog_ok (Suc n) (snd (drop_space env name m))"
proof (cases "map_of (ms_space_names m) name")
  case (Some i)
  let ?m = "m\<lparr>ms_space_names := AList.delete name (ms_space_names m), ms_spaces := AList.delete i (ms_spaces m)\<rparr>"
  let ?m' = "?m\<lparr>ms_part_allocations := AList.delete i (ms_part_allocations m), ms_hash_rings := AList.delete i (ms_hash_rings m)\<rparr>"
  have "catalog (snd (drop_space env name m)) = catalog ?m'"
    using Some by (simp add: drop_space_def Let_def case_prod_beta split: sum.split)
  then have "catalog (snd (drop_space env name m)) = catalog ?m" by (simp add: catalog_def)
  moreover have "catalog_ok (Suc n) ?m"
    using ok space_table.table_at_drop [OF _ Some, of n "ms_next_space_id m" "ms_spaces m"] by (simp add: catalog_ok_def nm_defs)
  ultimately show ?thesis using catalog_ok_cong by blast
qed (use ok in \<open>simp add: drop_space_def catalog_ok_mono\<close>)

lemma hosts_catalog:
  "catalog (snd (handle_heartbeat tm h p role c m)) = catalog m" "catalog (snd (cleanup_stale_hosts tm m)) = catalog m"
  "catalog (add_host_partition h p i j m) = catalog m" "catalog (remove_host_partition h p i j m) = catalog m"
  "catalog (update_part_allocation i j hosts m) = catalog m"
  "catalog (snd (add_node_to_rings env iter h p m)) = catalog m" "catalog (snd (remove_node_from_rings env iter h p m)) = catalog m"
  by (simp_all add: handle_heartbeat_def cleanup_stale_hosts_def add_host_partition_def remove_host_partition_def update_part_allocation_def
      add_node_to_rings_def remove_node_from_rings_def catalog_change_rings Let_def split: option.split)

lemma catalog_ok_apply:
  assumes "catalog_ok n m" and "n < 2 ^ 32 - 1"
  shows "catalog_ok (Suc n) (meta_apply env iter call m)"
  using assms catalog_ok_mono [OF assms(1)]
  by (cases call) (simp_all add: hosts_catalog [THEN catalog_ok_cong] create_space_catalog drop_space_catalog create_tag_catalog
      drop_tag_catalog alter_tag_catalog create_edge_catalog drop_edge_catalog alter_edge_catalog create_tag_index_catalog
      drop_tag_index_catalog create_edge_index_catalog drop_edge_index_catalog)

lemma catalog_ok_run: "catalog_ok n m \<Longrightarrow> n + length calls < 2 ^ 32 \<Longrightarrow> catalog_ok (n + length calls) (meta_run env iter calls m)"
proof (induction calls arbitrary: n m)
  case (Cons c calls)
  from Cons.IH [OF catalog_ok_apply [OF Cons.prems(1)]] Cons.prems(2) show ?case by (simp add: meta_run_def)
qed (simp add: meta_run_def)

lemma catalog_ok_new: "catalog_ok 1 (meta_service_new kv nanos)"
  by (simp add: catalog_ok_def meta_service_new_def space_table.table_new tag_table.table_new edge_table.table_new
      tag_index_table.table_new edge_index_table.table_new)

section \<open>Version history\<close>

text \<open>What a sequence of \<open>ALTER\<close>s makes of a schema: each that is accepted adds a version, each that is refused adds none.\<close>

fun tag_history :: "tag_schema \<Rightarrow> alter_operation list list \<Rightarrow> tag_schema list" where
  "tag_history t [] = [t]"
| "tag_history t (alters # rest) =
     (case alter_columns alters (ts_fields t) of
        Inl _ \<Rightarrow> tag_history t rest
      | Inr fs \<Rightarrow> t # tag_history (t\<lparr>ts_version := ts_version t + 1, ts_fields := fs\<rparr>) rest)"

definition alter_tag_all ::
  "('s, 'e) meta_env \<Rightarrow> u32 \<Rightarrow> bytes \<Rightarrow> alter_operation list list \<Rightarrow> 's meta_service \<Rightarrow> 's meta_service" where
  "alter_tag_all env sid name alterss m = fold (\<lambda>alters m. snd (alter_tag env sid name alters m)) alterss m"

definition tag_serde_ok :: "('s, 'e) meta_env \<Rightarrow> tag_schema \<Rightarrow> bool" where
  "tag_serde_ok env t \<longleftrightarrow> (\<exists>b. me_tag env t = Inr b \<and> me_read_tag env b = Inr t)"

lemma tag_history_head: "t \<in> set (tag_history t alterss)"
  by (induction alterss arbitrary: t) (auto split: sum.split)

text \<open>The versions below the current one are in the store, under their numbers.\<close>

definition history_at :: "('s, 'e) meta_env \<Rightarrow> u32 \<Rightarrow> bytes \<Rightarrow> tag_schema list \<Rightarrow> tag_schema \<Rightarrow> 's meta_service \<Rightarrow> bool" where
  "history_at env sid name old cur m \<longleftrightarrow>
     map_of (ms_tag_names m) (sid, name) = Some (ts_id cur) \<and> map_of (ms_tags m) (sid, ts_id cur) = Some cur \<and>
     ts_space_id cur = sid \<and> ts_name cur = name \<and> sint (ts_version cur) = int (length old) + 1 \<and>
     load_tag_versions env sid (ts_id cur) (map word_of_int [1..int (length old)]) (ms_kvstore m) = Inr old"

lemma get_tag_versions_history: "history_at env sid name old cur m \<Longrightarrow> get_tag_versions env sid name m = Inr (old @ [cur])"
  by (simp add: history_at_def get_tag_versions_def)

lemma load_tag_versions_cong:
  "(\<And>v. v \<in> set vs \<Longrightarrow> kv_get (me_ops env) s' (meta_tag_version_key sid i v) = kv_get (me_ops env) s (meta_tag_version_key sid i v)) \<Longrightarrow>
   load_tag_versions env sid i vs s' = load_tag_versions env sid i vs s"
  by (induction vs) (simp_all split: sum.split option.split)

lemma load_tag_versions_snoc:
  "load_tag_versions env sid i vs s = Inr old \<Longrightarrow> kv_get (me_ops env) s (meta_tag_version_key sid i v) = Inr (Some b) \<Longrightarrow>
   me_read_tag env b = Inr t \<Longrightarrow> load_tag_versions env sid i (vs @ [v]) s = Inr (old @ [t])"
  by (induction vs arbitrary: old) (auto split: sum.splits option.splits)

lemma version_numbers:
  assumes "sint (v :: i32) = n + 1" and "0 \<le> n" and "w \<in> set (map word_of_int [1..n])"
  shows "w \<noteq> v"
proof
  assume "w = v"
  with assms(3) obtain j where j: "v = word_of_int j" "1 \<le> j" "j \<le> n" by auto
  have "n + 1 < 2 ^ 31" using sint_lt [of v] assms(1) by simp
  with j(2,3) have "sint (word_of_int j :: i32) = j" by (simp add: sint_sbintrunc' signed_take_bit_int_eq_self)
  with j assms(1) show False by simp
qed

lemma alter_tag_history:
  assumes kv: "kv_reliable (me_ops env) view ok" "ok (ms_kvstore m)" and serde: "tag_serde_ok env cur"
    and serde': "tag_serde_ok env (cur\<lparr>ts_version := ts_version cur + 1, ts_fields := fs\<rparr>)"
    and h: "history_at env sid name old cur m" and n: "int (length old) + 1 < 2 ^ 31 - 1"
    and al: "alter_columns alters (ts_fields cur) = Inr fs" and eq: "alter_tag env sid name alters m = (r, m')"
  shows "ok (ms_kvstore m') \<and> history_at env sid name (old @ [cur]) (cur\<lparr>ts_version := ts_version cur + 1, ts_fields := fs\<rparr>) m'"
proof -
  let ?i = "ts_id cur" and ?t = "cur\<lparr>ts_version := ts_version cur + 1, ts_fields := fs\<rparr>" and ?s = "ms_kvstore m"
  have t: "\<lparr>ts_id = ?i, ts_space_id = sid, ts_name = name, ts_version = ts_version cur + 1, ts_fields = fs\<rparr> = ?t"
    using h by (simp add: history_at_def)
  obtain b b' where b: "me_tag env cur = Inr b" "me_read_tag env b = Inr cur" and b': "me_tag env ?t = Inr b'"
    using serde serde' unfolding tag_serde_ok_def by blast
  let ?ps = "[(meta_tag_version_key sid ?i (ts_version cur), b), (meta_tag_key sid ?i, b')]"
  obtain s' where s': "kv_batch_put (me_ops env) ?s ?ps = (Inr (), s')" using kv_reliable.batch_put_ok [OF kv(1)] by blast
  have c: "kv_contract (me_ops env) view ok" using kv(1) by (simp add: kv_reliable_def)
  note view = kv_contract.batch_put_view [OF c kv(2) s']
  have m': "m' = m\<lparr>ms_tags := AList.update (sid, ?i) ?t (ms_tags m), ms_kvstore := s'\<rparr>"
    using eq h b(1) b' s' al by (simp add: alter_tag_def history_at_def Let_def t)
  have get: "kv_get (me_ops env) s' k = Inr (view s' k)" "kv_get (me_ops env) ?s k = Inr (view ?s k)" for k
    using kv_reliable.get_eq [OF kv(1)] view kv(2) by blast+
  have ne: "meta_tag_version_key sid ?i v \<noteq> meta_tag_key sid ?i" for v by (rule notI, drule arg_cong [where f = length]) simp
  have v: "sint (ts_version cur) = int (length old) + 1" using h by (simp add: history_at_def)
  have "load_tag_versions env sid ?i (map word_of_int [1..int (length old)]) s' = Inr old"
    using load_tag_versions_cong [of "map word_of_int [1..int (length old)]" env s' sid ?i ?s] version_numbers [OF v] h view ne
    by (simp add: get history_at_def map_add_def)
  from load_tag_versions_snoc [OF this, of "ts_version cur" b cur] view ne b(2)
  have "load_tag_versions env sid ?i (map word_of_int [1..int (length old)] @ [ts_version cur]) s' = Inr (old @ [cur])"
    by (simp add: get map_add_def)
  moreover have "word_of_int (int (length old) + 1) = ts_version cur" using v by (metis scast_eq scast_id)
  ultimately have "load_tag_versions env sid ?i (map word_of_int [1..int (length (old @ [cur]))]) s' = Inr (old @ [cur])"
    by (simp add: upto_rec2 add.commute)
  moreover have "sint (ts_version cur + 1) = int (length old) + 2" using n v by (simp add: sint_word_ariths signed_take_bit_int_eq_self)
  ultimately show ?thesis using h view unfolding m' by (simp add: history_at_def update_conv')
qed

lemma alter_tag_refused:
  assumes "history_at env sid name old cur m" and "alter_columns alters (ts_fields cur) = Inl e"
  shows "snd (alter_tag env sid name alters m) = m"
  using assms by (simp add: history_at_def alter_tag_def)

lemma alter_tag_all_history:
  assumes "kv_reliable (me_ops env) view ok" and "ok (ms_kvstore m)" and "history_at env sid name old cur m"
    and "\<And>t. t \<in> set (tag_history cur alterss) \<Longrightarrow> tag_serde_ok env t" and "int (length old + length alterss) < 2 ^ 31 - 1"
  shows "get_tag_versions env sid name (alter_tag_all env sid name alterss m) = Inr (old @ tag_history cur alterss)"
  using assms(2-)
proof (induction alterss arbitrary: m old cur)
  case Nil
  then show ?case by (simp add: alter_tag_all_def get_tag_versions_history)
next
  case (Cons alters rest)
  show ?case
  proof (cases "alter_columns alters (ts_fields cur)")
    case (Inl e)
    have "snd (alter_tag env sid name alters m) = m" using Cons.prems(2) Inl by (rule alter_tag_refused)
    with Cons.IH [OF Cons.prems(1,2)] Cons.prems(3,4) Inl show ?thesis by (simp add: alter_tag_all_def)
  next
    case (Inr fs)
    let ?t = "cur\<lparr>ts_version := ts_version cur + 1, ts_fields := fs\<rparr>"
    obtain r m' where eq: "alter_tag env sid name alters m = (r, m')" by fastforce
    have serde: "tag_serde_ok env t" if "t = cur \<or> t \<in> set (tag_history ?t rest)" for t using that Cons.prems(3) Inr by auto
    then have "tag_serde_ok env cur" "tag_serde_ok env ?t" using tag_history_head by blast+
    note h = alter_tag_history [OF assms(1) Cons.prems(1) this Cons.prems(2) _ Inr eq]
    have "int (length old) + 1 < 2 ^ 31 - 1" using Cons.prems(4) by simp
    from Cons.IH [of m' "old @ [cur]" ?t] h [OF this] serde Cons.prems(4) eq Inr show ?thesis by (simp add: alter_tag_all_def)
  qed
qed

lemma create_tag_history:
  assumes "create_tag env sid name fs m = (Inr i, m')"
  shows "history_at env sid name [] \<lparr>ts_id = i, ts_space_id = sid, ts_name = name, ts_version = 1, ts_fields = fs\<rparr> m' \<and>
    (\<exists>v u. kv_put (me_ops env) (ms_kvstore m) (meta_tag_key sid i) v = (Inr u, ms_kvstore m'))"
  using assms by (auto simp: create_tag_def history_at_def meta_put_def Let_def update_conv' split: sum.splits if_splits prod.splits)

section \<open>Properties\<close>

text \<open>
  C12. After any calls of the service since it was started, in any order and with any of them failing, the catalog is consistent: looking a
  space, tag, edge or index up by its name finds an object exactly if the object is listed under that name. In
  particular names are unique within a space, and a name leads to no other object. The number of calls is below the point where a
  32-bit id would wrap around.
\<close>

theorem catalog_lookup_exact:
  assumes "length calls < 2 ^ 32 - 1" and "m = meta_run env iter calls (meta_service_new kv nanos)"
  shows "(get_space_by_name name m = Inr sp \<longleftrightarrow> sp \<in> set (list_spaces m) \<and> sp_name sp = name) \<and>
    (get_tag sid name m = Inr t \<longleftrightarrow> t \<in> set (list_tags sid m) \<and> ts_name t = name) \<and>
    (get_edge sid name m = Inr e \<longleftrightarrow> e \<in> set (list_edges sid m) \<and> es_name e = name) \<and>
    (get_tag_index sid name m = Inr ti \<longleftrightarrow> ti \<in> set (list_tag_indexes sid m) \<and> ti_index_name ti = name) \<and>
    (get_edge_index sid name m = Inr ei \<longleftrightarrow> ei \<in> set (list_edge_indexes sid m) \<and> ei_index_name ei = name)"
proof -
  have "catalog_ok (1 + length calls) m" unfolding assms(2) by (rule catalog_ok_run [OF catalog_ok_new]) (use assms(1) in simp)
  then have ok: "table_ok space_key_of sp_name sp_id (ms_next_space_id m) (ms_space_names m) (ms_spaces m)"
    "table_ok member_key_of tag_nm ts_id (ms_next_tag_id m) (ms_tag_names m) (ms_tags m)"
    "table_ok member_key_of edge_nm es_id (ms_next_edge_id m) (ms_edge_names m) (ms_edges m)"
    "table_ok member_key_of tag_index_nm ti_id (ms_next_tag_index_id m) (ms_tag_index_names m) (ms_tag_indexes m)"
    "table_ok member_key_of edge_index_nm ei_id (ms_next_edge_index_id m) (ms_edge_index_names m) (ms_edge_indexes m)"
    by (simp_all add: catalog_ok_def)
  show ?thesis
  proof (intro conjI)
    show "get_space_by_name name m = Inr sp \<longleftrightarrow> sp \<in> set (list_spaces m) \<and> sp_name sp = name"
      using space_table.table_listed [OF ok(1), of sp name]
      by (simp add: get_space_by_name_def get_space_def list_spaces_def nm_defs split: option.split)
    show "get_tag sid name m = Inr t \<longleftrightarrow> t \<in> set (list_tags sid m) \<and> ts_name t = name"
      using tag_table.table_listed [OF ok(2), of t "(sid, name)"]
      by (simp add: get_tag_def get_tag_by_id_def list_tags_def nm_defs split: option.split)
    show "get_edge sid name m = Inr e \<longleftrightarrow> e \<in> set (list_edges sid m) \<and> es_name e = name"
      using edge_table.table_listed [OF ok(3), of e "(sid, name)"]
      by (simp add: get_edge_def get_edge_by_id_def list_edges_def nm_defs split: option.split)
    show "get_tag_index sid name m = Inr ti \<longleftrightarrow> ti \<in> set (list_tag_indexes sid m) \<and> ti_index_name ti = name"
      using tag_index_table.table_listed [OF ok(4), of ti "(sid, name)"]
      by (simp add: get_tag_index_def list_tag_indexes_def nm_defs split: option.split)
    show "get_edge_index sid name m = Inr ei \<longleftrightarrow> ei \<in> set (list_edge_indexes sid m) \<and> ei_index_name ei = name"
      using edge_index_table.table_listed [OF ok(5), of ei "(sid, name)"]
      by (simp add: get_edge_index_def list_edge_indexes_def nm_defs split: option.split)
  qed
qed

definition catalog_calls :: "meta_call list" where
  "catalog_calls = [CreateSpace 0 (ascii ''g'') 2 1 VidInt64 Hash, CreateTag 1 (ascii ''t'') [], CreateTag 1 (ascii ''u'') [],
     DropTag 1 (ascii ''t''), CreateTag 1 (ascii ''t'') []]"

theorem catalog_lookup_exact_witness:
  "\<exists>t. ts_id t = 3 \<and> t \<in> set (list_tags 1 (meta_run plain_meta_env (\<lambda>_. []) catalog_calls (meta_service_new memory_new 7)))"
proof -
  let ?m = "meta_run plain_meta_env (\<lambda>_. []) catalog_calls (meta_service_new memory_new 7)"
  have "get_tag 1 (ascii ''t'') ?m = Inr \<lparr>ts_id = 3, ts_space_id = 1, ts_name = ascii ''t'', ts_version = 1, ts_fields = []\<rparr>"
    by code_simp
  moreover have "length catalog_calls < 2 ^ 32 - 1" by (simp add: catalog_calls_def)
  ultimately show ?thesis using catalog_lookup_exact [OF _ refl, of catalog_calls] by (metis tag_schema.select_convs(1))
qed

text \<open>
  C13. The history of a tag is complete: after its creation and any \<open>ALTER\<close>s, \<open>get_tag_versions\<close> gives the schema of every version in order, from
  the one it was created with to the current one. An \<open>ALTER\<close> that is accepted adds one version with the changed columns; one that is
  refused adds none. The store does not fail, the schemas can be written and read back, and there are fewer
  \<open>ALTER\<close>s than 32-bit version numbers.
\<close>

theorem tag_versions_complete:
  assumes "kv_reliable (me_ops env) view ok" and "ok (ms_kvstore m)" and "create_tag env sid name fs m = (Inr i, m')"
    and "t0 = \<lparr>ts_id = i, ts_space_id = sid, ts_name = name, ts_version = 1, ts_fields = fs\<rparr>"
    and "\<And>t. t \<in> set (tag_history t0 alterss) \<Longrightarrow> tag_serde_ok env t" and "length alterss < 2 ^ 31 - 1"
  shows "get_tag_versions env sid name (alter_tag_all env sid name alterss m') = Inr (tag_history t0 alterss)"
proof -
  note h = create_tag_history [OF assms(3), folded assms(4)]
  have c: "kv_contract (me_ops env) view ok" using assms(1) by (simp add: kv_reliable_def)
  have "ok (ms_kvstore m')" using h kv_contract.put_view [OF c assms(2)] by blast
  from alter_tag_all_history [OF assms(1) this, of sid name "[]" t0 alterss] h assms(5,6) show ?thesis by simp
qed

definition sample_field :: "bytes \<Rightarrow> field" where
  "sample_field n = \<lparr>fd_name = n, fd_data_type = TInt64, fd_nullable = True, fd_default = None\<rparr>"

definition sample_alters :: "alter_operation list list" where
  "sample_alters = [[AddColumn (sample_field [98])], [DropColumn [99]], [DropColumn [97]]]"

definition sample_tag :: tag_schema where
  "sample_tag = \<lparr>ts_id = 1, ts_space_id = 1, ts_name = [116], ts_version = 1, ts_fields = [sample_field [97]]\<rparr>"

definition history_env :: "(memory_kv, bytes) meta_env" where
  "history_env = plain_meta_env\<lparr>me_tag := (\<lambda>t. Inr [ucast (ts_version t)]),
     me_read_tag := (\<lambda>b. case find (\<lambda>t. [ucast (ts_version t)] = b) (tag_history sample_tag sample_alters) of None \<Rightarrow> Inl [] | Some t \<Rightarrow> Inr t)\<rparr>"

definition one_space :: "memory_kv meta_service" where
  "one_space = (meta_service_new memory_new 7)\<lparr>ms_spaces := [(1, \<lparr>sp_id = 1, sp_name = [103], sp_partition_num = 2, sp_replica_factor = 1,
     sp_vid_type = VidInt64, sp_partition_strategy = Hash\<rparr>)]\<rparr>"

lemma history_env_serde: "list_all (tag_serde_ok history_env) (tag_history sample_tag sample_alters)"
  by (simp add: history_env_def tag_serde_ok_def plain_meta_env_def sample_alters_def sample_tag_def sample_field_def Let_def)

theorem tag_versions_complete_witness:
  "\<exists>m'. create_tag history_env 1 [116] [sample_field [97]] one_space = (Inr 1, m') \<and>
     get_tag_versions history_env 1 [116] (alter_tag_all history_env 1 [116] sample_alters m') = Inr (tag_history sample_tag sample_alters) \<and>
     map (map fd_name \<circ> ts_fields) (tag_history sample_tag sample_alters) = [[[97]], [[97], [98]], [[98]]]"
proof -
  have h: "map (map fd_name \<circ> ts_fields) (tag_history sample_tag sample_alters) = [[[97]], [[97], [98]], [[98]]]"
    by (simp add: sample_alters_def sample_tag_def sample_field_def Let_def)
  have "\<exists>m'. create_tag history_env 1 [116] [sample_field [97]] one_space = (Inr 1, m')"
    by (simp add: create_tag_def get_space_def one_space_def meta_service_new_def history_env_def plain_meta_env_def meta_put_def
        memory_ops_def Let_def split: prod.split)
  then obtain m' where m': "create_tag history_env 1 [116] [sample_field [97]] one_space = (Inr 1, m')" ..
  have env: "me_ops history_env = memory_ops" "ms_kvstore one_space = memory_new"
    by (simp_all add: history_env_def plain_meta_env_def one_space_def meta_service_new_def)
  have "tag_serde_ok history_env t" if "t \<in> set (tag_history sample_tag sample_alters)" for t
    using that history_env_serde by (simp only: list_all_iff)
  then have "get_tag_versions history_env 1 [116] (alter_tag_all history_env 1 [116] sample_alters m') = Inr (tag_history sample_tag sample_alters)"
    by (intro tag_versions_complete [OF _ _ m' sample_tag_def, of memory_get memory_ok])
      (simp_all only: env memory.kv_reliable_axioms memory_ok_new, simp add: sample_alters_def)
  from this h show ?thesis by (intro exI [of _ m'] conjI m')
qed

end
