(* ===== verification/MetaCluster.thy ===== *)
theory MetaCluster
  imports MetaService "HOL-Library.Signed_Division"
begin

text \<open>
  The parts of the meta server that move partitions between hosts: the round-robin allocator (\<^verbatim>\<open>allocator.rs\<close>), the rebalancer
  (\<^verbatim>\<open>rebalancer.rs\<close>), the failure detector (\<^verbatim>\<open>failure_detector.rs\<close>) and the hotspot counters (\<^verbatim>\<open>hotspot.rs\<close>). A call to a storage
  node is a parameter that gives its result. The statistics that are computed in floating point are left out.

  The lemmas show that the allocator spreads partitions evenly, that carrying out the plan for an added node leads from the
  replicas of the old ring to those of the new one, what the failure detector can change, and where a suggested split point lies.
\<close>

section \<open>Allocator\<close>

type_synonym host_addr = "bytes \<times> u32"

definition allocate :: "u32 \<Rightarrow> u32 \<Rightarrow> host_addr list \<Rightarrow> allocations" where
  "allocate partition_num replica_factor available_hosts =
     (if available_hosts = []
      then map (\<lambda>part_id. (of_nat part_id, [(ascii ''localhost'', 9779)])) [1..<Suc (unat partition_num)]
      else (let host_count = length available_hosts;
                effective_replica = min (unat replica_factor) host_count
            in map (\<lambda>part_id.
                      (of_nat part_id,
                       map (\<lambda>replica_idx. available_hosts ! ((part_id - 1 + replica_idx) mod host_count)) [0..<effective_replica]))
                 [1..<Suc (unat partition_num)]))"

section \<open>Rebalancer\<close>

record rebalance_plan =
  rp_space_id :: u32
  rp_migrations :: "migration_task list"
  rp_estimated_data_size :: u64

definition plan_rebalance :: "u32 \<Rightarrow> 's meta_service \<Rightarrow> meta_error + rebalance_plan" where
  "plan_rebalance space_id m =
     (case map_of (ms_hash_rings m) space_id of
        None \<Rightarrow> Inl (MetaInternal (ascii ''No hash ring found for space '' @ dec_nat (unat space_id)))
      | Some _ \<Rightarrow> Inr \<lparr>rp_space_id = space_id, rp_migrations = [], rp_estimated_data_size = 0\<rparr>)"

definition plan_rebalance_with_changes ::
  "(ring_node set \<Rightarrow> ring_node list) \<Rightarrow> u32 \<Rightarrow> consistent_hash_ring \<Rightarrow> consistent_hash_ring \<Rightarrow>
   rebalance_plan \<times> consistent_hash_ring \<times> consistent_hash_ring" where
  "plan_rebalance_with_changes iter space_id old_ring new_ring =
     (case compute_migrations iter old_ring new_ring of
        (migrations, old_ring, new_ring) \<Rightarrow>
          (\<lparr>rp_space_id = space_id, rp_migrations = migrations,
            rp_estimated_data_size = of_nat (length migrations) * 1024 * 1024\<rparr>, old_ring, new_ring))"

text \<open>The replica list after a move: the old host is removed, the new one put at the end.\<close>

definition move_host :: "host_addr \<Rightarrow> host_addr \<Rightarrow> host_addr list \<Rightarrow> host_addr list" where
  "move_host from to hosts = filter (\<lambda>h. h \<noteq> from) hosts @ [to]"

definition move_partition :: "u32 \<Rightarrow> u32 \<Rightarrow> host_addr \<Rightarrow> host_addr \<Rightarrow> 's meta_service \<Rightarrow> 's meta_service" where
  "move_partition space_id part_id from to m =
     (case get_part_hosts space_id part_id m of
        Inl _ \<Rightarrow> m
      | Inr hosts \<Rightarrow> update_part_allocation space_id part_id (move_host from to hosts) m)"

definition move_task :: "u32 \<Rightarrow> migration_task \<Rightarrow> 's meta_service \<Rightarrow> 's meta_service" where
  "move_task space_id t m = move_partition space_id (mt_part_id t) (node_addr (mt_from t)) (node_addr (mt_to t)) m"

text \<open>\<open>migrate\<close> is the result of copying the data of a partition from one storage node to another.\<close>

definition execute_rebalance ::
  "(u32 \<Rightarrow> migration_task \<Rightarrow> 'x + 'y) \<Rightarrow> rebalance_plan \<Rightarrow> 's meta_service \<Rightarrow> migration_task list \<times> 's meta_service" where
  "execute_rebalance migrate plan m =
     fold (\<lambda>t (completed, m).
             case migrate (rp_space_id plan) t of
               Inl _ \<Rightarrow> (completed, m)
             | Inr _ \<Rightarrow> (completed @ [t], move_task (rp_space_id plan) t m)) (rp_migrations plan) ([], m)"

definition execute_rebalance_metadata_only :: "rebalance_plan \<Rightarrow> 's meta_service \<Rightarrow> migration_task list \<times> 's meta_service" where
  "execute_rebalance_metadata_only plan m = (rp_migrations plan, fold (move_task (rp_space_id plan)) (rp_migrations plan) m)"

section \<open>Failure detector\<close>

record failure_detector_config =
  fc_check_interval :: int
  fc_failure_timeout :: int
  fc_min_healthy_nodes :: nat
  fc_auto_reassign :: bool
  fc_max_concurrent_migrations :: nat

definition failure_detector_config_default :: failure_detector_config where
  "failure_detector_config_default =
     \<lparr>fc_check_interval = 10 * 1000000000, fc_failure_timeout = 30 * 1000000000, fc_min_healthy_nodes = 1, fc_auto_reassign = True,
      fc_max_concurrent_migrations = 5\<rparr>"

record failed_node =
  fn_host :: bytes
  fn_port :: u32
  fn_partitions_affected :: "(u32 \<times> u32) list"

record recovery_result =
  rr_failed_nodes :: "failed_node list"
  rr_migrations_executed :: "migration_task list"
  rr_migrations_failed :: "(migration_task \<times> bytes) list"

definition failed_nodes_of :: "host_addr list \<Rightarrow> 's meta_service \<Rightarrow> failed_node list" where
  "failed_nodes_of removed m =
     List.map_filter
       (\<lambda>(host, port).
          let partitions = get_host_partitions host port m
          in if partitions = [] then None
             else Some \<lparr>fn_host = host, fn_port = port, fn_partitions_affected = partitions\<rparr>) removed"

definition group_partitions :: "(u32 \<times> u32) list \<Rightarrow> (u32 \<times> u32 list) list" where
  "group_partitions ps =
     fold (\<lambda>(space_id, part_id) g.
             AList.update space_id ((case map_of g space_id of None \<Rightarrow> [] | Some parts \<Rightarrow> parts) @ [part_id]) g) ps []"

definition reassign ::
  "failed_node list \<Rightarrow> host_addr list \<Rightarrow> u32 \<times> u32 \<Rightarrow> migration_task list \<times> 's meta_service \<Rightarrow> migration_task list \<times> 's meta_service" where
  "reassign failed_nodes healthy part acc =
     (case healthy of
        [] \<Rightarrow> acc
      | (target_host, target_port) # _ \<Rightarrow>
         (case find (\<lambda>n. part \<in> set (fn_partitions_affected n)) failed_nodes of
            None \<Rightarrow> acc
          | Some failed \<Rightarrow>
             (fst acc @ [\<lparr>mt_part_id = snd part, mt_from = ring_node_new (fn_host failed) (fn_port failed),
                          mt_to = ring_node_new target_host target_port, mt_is_primary = True\<rparr>],
              move_partition (fst part) (snd part) (fn_host failed, fn_port failed) (target_host, target_port) (snd acc))))"

text \<open>
  One cycle of the detector. The failure of \<open>update_part_allocation\<close> cannot happen, and the result of notifying the target is ignored.
  The partitions are visited space by space.
\<close>

definition check_and_recover ::
  "failure_detector_config \<Rightarrow> int \<Rightarrow> 's meta_service \<Rightarrow> recovery_result option \<times> 's meta_service" where
  "check_and_recover config now m =
     (case cleanup_stale_hosts now m of
        (removed_hosts, m) \<Rightarrow>
          if removed_hosts = [] then (None, m)
          else (let healthy_hosts = get_active_storage_hosts now m
                in if length healthy_hosts < fc_min_healthy_nodes config then (None, m)
                   else if \<not> fc_auto_reassign config then (None, m)
                   else (let failed_nodes = failed_nodes_of removed_hosts m;
                             affected = concat (map fn_partitions_affected failed_nodes)
                         in if affected = []
                            then (Some \<lparr>rr_failed_nodes = failed_nodes, rr_migrations_executed = [], rr_migrations_failed = []\<rparr>, m)
                            else case fold (reassign failed_nodes healthy_hosts)
                                        (concat (map (\<lambda>(s, ps). map (Pair s) ps) (group_partitions affected))) ([], m) of
                                   (executed, m) \<Rightarrow>
                                     (Some \<lparr>rr_failed_nodes = failed_nodes, rr_migrations_executed = executed,
                                            rr_migrations_failed = []\<rparr>, m))))"

section \<open>Hotspots\<close>

record partition_stats =
  ps_read_count :: u64
  ps_write_count :: u64
  ps_last_reset :: int

type_synonym hotspot_stats = "((u32 \<times> u32) \<times> partition_stats) list"

definition partition_stats_new :: "int \<Rightarrow> partition_stats" where
  "partition_stats_new now = \<lparr>ps_read_count = 0, ps_write_count = 0, ps_last_reset = now\<rparr>"

definition total_count :: "partition_stats \<Rightarrow> u64" where
  "total_count s = ps_read_count s + ps_write_count s"

definition record_batch :: "int \<Rightarrow> u32 \<Rightarrow> u32 \<Rightarrow> u64 \<Rightarrow> u64 \<Rightarrow> hotspot_stats \<Rightarrow> hotspot_stats" where
  "record_batch now space_id part_id read_count write_count d =
     (let s = (case map_of d (space_id, part_id) of None \<Rightarrow> partition_stats_new now | Some s \<Rightarrow> s)
      in AList.update (space_id, part_id)
           (s\<lparr>ps_read_count := ps_read_count s + read_count, ps_write_count := ps_write_count s + write_count\<rparr>) d)"

definition record_request :: "int \<Rightarrow> u32 \<Rightarrow> u32 \<Rightarrow> bool \<Rightarrow> hotspot_stats \<Rightarrow> hotspot_stats" where
  "record_request now space_id part_id is_write d =
     (let s = (case map_of d (space_id, part_id) of None \<Rightarrow> partition_stats_new now | Some s \<Rightarrow> s)
      in AList.update (space_id, part_id)
           (if is_write then s\<lparr>ps_write_count := ps_write_count s + 1\<rparr> else s\<lparr>ps_read_count := ps_read_count s + 1\<rparr>) d)"

definition reset_stats :: "int \<Rightarrow> u32 \<Rightarrow> hotspot_stats \<Rightarrow> hotspot_stats" where
  "reset_stats now space_id d = map (\<lambda>(k, s). (k, if fst k = space_id then partition_stats_new now else s)) d"

definition reset_all_stats :: "int \<Rightarrow> hotspot_stats \<Rightarrow> hotspot_stats" where
  "reset_all_stats now d = map (\<lambda>(k, s). (k, partition_stats_new now)) d"

definition get_partition_stats :: "u32 \<Rightarrow> u32 \<Rightarrow> hotspot_stats \<Rightarrow> (u64 \<times> u64) option" where
  "get_partition_stats space_id part_id d = map_option (\<lambda>s. (ps_read_count s, ps_write_count s)) (map_of d (space_id, part_id))"

definition get_space_total :: "u32 \<Rightarrow> hotspot_stats \<Rightarrow> u64" where
  "get_space_total space_id d = sum_list (map (total_count \<circ> snd) (filter (\<lambda>e. fst (fst e) = space_id) d))"

record split_suggestion =
  ss_part_id :: u32
  ss_new_part_ids :: "u32 list"
  ss_split_points :: "i64 list"

text \<open>Division of a signed number by two goes towards zero; the other operations wrap around.\<close>

definition half :: "i64 \<Rightarrow> i64" where
  "half a = word_of_int (sint a sdiv 2)"

abbreviation i64_min :: i64 where "i64_min \<equiv> 0x8000000000000000"
abbreviation i64_max :: i64 where "i64_max \<equiv> 0x7FFFFFFFFFFFFFFF"

definition split_midpoint :: "i64 \<Rightarrow> i64 \<Rightarrow> i64" where
  "split_midpoint lower upper =
     (if lower = i64_min \<and> upper = i64_max then 0
      else if lower = i64_min then half upper
      else if upper = i64_max then lower + half (i64_max - lower)
      else lower + half (upper - lower))"

text \<open>\<open>part_id as usize - 1\<close> wraps for part 0, which has neither bound then.\<close>

definition split_range :: "i64 list \<Rightarrow> u32 \<Rightarrow> i64 \<times> i64" where
  "split_range boundaries part_id =
     (let part_idx = unat part_id - 1;
          bound = (\<lambda>i d. if part_id \<noteq> 0 \<and> i < length boundaries then boundaries ! i else d)
      in (if part_idx = 0 then i64_min else bound (part_idx - 1) i64_min, bound part_idx i64_max))"

definition suggest_split :: "u32 \<Rightarrow> partition_strategy \<Rightarrow> u32 \<Rightarrow> split_suggestion option" where
  "suggest_split part_id strategy partition_num =
     (case strategy of
        Range boundaries \<Rightarrow>
          Some \<lparr>ss_part_id = part_id, ss_new_part_ids = [part_id, partition_num + 1],
                ss_split_points = [case split_range boundaries part_id of (lower, upper) \<Rightarrow> split_midpoint lower upper]\<rparr>
      | Hash \<Rightarrow> None
      | Modulo \<Rightarrow> None)"

section \<open>Moves of partitions\<close>

lemma get_part_hosts_update:
  "get_part_hosts s p (update_part_allocation s' p' hosts m) = (if s = s' \<and> p = p' then Inr hosts else get_part_hosts s p m)"
  by (auto simp: get_part_hosts_def update_part_allocation_def update_conv' split: option.split)

lemma get_part_hosts_move:
  "get_part_hosts s p (move_partition s' p' from to m) =
     (if s = s' \<and> p = p' then map_sum id (move_host from to) (get_part_hosts s p m) else get_part_hosts s p m)"
  by (auto simp: move_partition_def get_part_hosts_update split: sum.split)

text \<open>A list of moves changes each partition by the moves of that partition, in order.\<close>

lemma get_part_hosts_moves:
  "get_part_hosts s p (fold (move_task s) ts m) =
     map_sum id (fold (\<lambda>t. move_host (node_addr (mt_from t)) (node_addr (mt_to t))) (filter (\<lambda>t. mt_part_id t = p) ts)) (get_part_hosts s p m)"
proof (induction ts arbitrary: m)
  case Nil
  show ?case by (cases "get_part_hosts s p m") auto
next
  case (Cons t ts)
  then show ?case by (cases "get_part_hosts s p m") (auto simp: move_task_def get_part_hosts_move)
qed

lemma map_filter_none: "(\<And>z. z \<in> set zs \<Longrightarrow> f z = None) \<Longrightarrow> List.map_filter f zs = []"
  by (induction zs) (auto simp: map_filter_simps)

lemma map_filter_single:
  assumes "distinct xs" and "x \<in> set xs" and "f x = Some y" and "\<And>z. z \<in> set xs \<Longrightarrow> z \<noteq> x \<Longrightarrow> f z = None"
  shows "List.map_filter f xs = [y]"
  using assms
proof (induction xs)
  case (Cons a xs)
  show ?case
  proof (cases "a = x")
    case True
    have "List.map_filter f xs = []" using Cons.prems(1,4) True by (intro map_filter_none) auto
    with True Cons.prems(3) show ?thesis by (simp add: map_filter_simps)
  next
    case False
    with Cons show ?thesis by (simp add: map_filter_simps)
  qed
qed simp

lemma find_single:
  assumes "y \<in> set xs" and "P y" and "\<And>z. z \<in> set xs \<Longrightarrow> z \<noteq> y \<Longrightarrow> \<not> P z"
  shows "find P xs = Some y"
  using assms
proof (induction xs)
  case (Cons a xs)
  then show ?case by (cases "a = y") auto
qed simp

definition enumerates :: "('a set \<Rightarrow> 'a list) \<Rightarrow> 'a set \<Rightarrow> bool" where
  "enumerates iter A \<longleftrightarrow> set (iter A) = A \<and> distinct (iter A)"

lemma replica_moves_single:
  assumes iter: "enumerates iter (set (pa_replicas old))" "enumerates iter (set (pa_replicas new))"
    and out: "set (pa_replicas old) - set (pa_replicas new) = {x}" and inn: "set (pa_replicas new) - set (pa_replicas old) = {y}"
  shows "replica_moves iter old new = [\<lparr>mt_part_id = pa_part_id old, mt_from = x, mt_to = y, mt_is_primary = False\<rparr>]"
proof -
  note i = iter [unfolded enumerates_def]
  have "find (\<lambda>n. n \<notin> set (pa_replicas old)) (iter (set (pa_replicas new))) = Some y" using inn i by (intro find_single) auto
  then show ?thesis
    unfolding replica_moves_def Let_def using out i by (intro map_filter_single) auto
qed

lemma replica_moves_none:
  "set (pa_replicas old) \<subseteq> set (pa_replicas new) \<Longrightarrow> enumerates iter (set (pa_replicas old)) \<Longrightarrow> replica_moves iter old new = []"
  unfolding replica_moves_def Let_def enumerates_def by (rule map_filter_none) auto

lemma partition_moves_insert:
  assumes iter: "enumerates iter (set (pa_replicas old))" "enumerates iter (set (pa_replicas new))"
    and old: "pa_primary old # pa_replicas old = A @ B @ [x]" and new: "pa_primary new # pa_replicas new = A @ n # B"
    and d: "distinct (A @ n # B @ [x])"
    and hs: "hs = fold (\<lambda>t hs. filter (\<lambda>h. h \<noteq> mt_from t) hs @ [mt_to t]) (partition_moves iter (old, new)) (A @ B @ [x])"
  shows "set hs = set (A @ n # B) \<and> distinct hs"
proof (cases A)
  case (Cons a as)
  have "replica_moves iter old new = [\<lparr>mt_part_id = pa_part_id old, mt_from = x, mt_to = n, mt_is_primary = False\<rparr>]"
    using old new d Cons by (intro replica_moves_single [OF iter]) auto
  with old new d Cons show ?thesis by (auto simp: partition_moves_def hs)
next
  case Nil
  show ?thesis
  proof (cases B)
    case Nil': Nil
    with Nil old new d show ?thesis using replica_moves_none [OF _ iter(1), of new] by (auto simp: partition_moves_def hs)
  next
    case (Cons b bs)
    have "replica_moves iter old new = [\<lparr>mt_part_id = pa_part_id old, mt_from = x, mt_to = b, mt_is_primary = False\<rparr>]"
      using old new d Cons Nil by (intro replica_moves_single [OF iter]) auto
    with old new d Cons Nil show ?thesis by (auto simp: partition_moves_def hs)
  qed
qed

section \<open>The replicas after a node is added\<close>

lemma filter_btree_insert:
  "\<not> P (k, v) \<Longrightarrow> (\<And>e. e \<in> set m \<Longrightarrow> P e \<Longrightarrow> fst e \<noteq> k) \<Longrightarrow> filter P (btree_insert k v m) = filter P m"
  by (induction m) auto

lemma filter_fold_insert:
  assumes "\<And>i. i \<in> set xs \<Longrightarrow> \<not> P (f i, g i)" and "\<And>e i. e \<in> set m \<Longrightarrow> P e \<Longrightarrow> i \<in> set xs \<Longrightarrow> fst e \<noteq> f i"
  shows "filter P (fold (\<lambda>i. btree_insert (f i) (g i)) xs m) = filter P m"
  using assms
proof (induction xs arbitrary: m)
  case (Cons x xs)
  have "fst e \<noteq> f i" if e: "e \<in> set (btree_insert (f x) (g x) m)" "P e" "i \<in> set xs" for e i
  proof -
    have "e \<noteq> (f x, g x)" using e(2) Cons.prems(1) [of x] by auto
    with e(1) set_btree_insert [of "f x" "g x" m] have "e \<in> set m" by blast
    with e(2,3) Cons.prems(2) show ?thesis by simp
  qed
  then have "filter P (fold (\<lambda>i. btree_insert (f i) (g i)) xs (btree_insert (f x) (g x) m)) = filter P (btree_insert (f x) (g x) m)"
    using Cons.prems(1) by (intro Cons.IH) auto
  with filter_btree_insert [of P "f x" "g x" m] Cons.prems show ?case by simp
qed simp

text \<open>The nodes of the ring in the order in which they are met from position \<open>h\<close>, each once.\<close>

definition ring_walk :: "consistent_hash_ring \<Rightarrow> u64 \<Rightarrow> ring_node list" where
  "ring_walk r h = firsts (map (\<lambda>e. fst (snd e)) (btree_from (ch_ring r) h @ ch_ring r))"

lemma filter_firsts: "filter P (firsts xs) = firsts (filter P xs)"
  by (induction xs rule: rev_induct) (auto simp: firsts_snoc)

lemma ring_walk_add:
  assumes "ring_ok r" and "node \<notin> set (ch_nodes r)"
    and free: "\<And>i. i < unat (virtual_nodes (ch_config r)) \<Longrightarrow> vnode_hash node i \<notin> fst ` set (ch_ring r)"
  shows "filter (\<lambda>n. n \<noteq> node) (ring_walk (ring_add_node node r) h) = ring_walk r h"
proof -
  let ?P = "\<lambda>e :: u64 \<times> ring_node \<times> u32. fst (snd e) \<noteq> node" and ?r = "ring_add_node node r"
  have sorted: "btree_ok (ch_ring r)" "btree_ok (ch_ring ?r)" using assms(1) ring_ok_add [OF assms(1)] by (simp_all add: ring_ok_def)
  have "filter ?P (ch_ring ?r) = filter ?P (ch_ring r)"
    using assms(2) free by (force simp: ring_add_node_def intro!: filter_fold_insert)
  also have "filter ?P (ch_ring r) = ch_ring r" using assms(1,2) by (auto simp: ring_ok_def filter_id_conv)
  finally have eq: "filter ?P (ch_ring ?r) = ch_ring r" .
  have "filter ?P (btree_from (ch_ring ?r) h) = filter (\<lambda>e. h \<le> fst e) (filter ?P (ch_ring ?r))"
    by (simp add: btree_from_filter [OF sorted(2)] conj_commute)
  also have "\<dots> = btree_from (ch_ring r) h" by (simp only: eq btree_from_filter [OF sorted(1)])
  finally have "filter ?P (btree_from (ch_ring ?r) h) = btree_from (ch_ring r) h" .
  with eq show ?thesis by (simp add: ring_walk_def filter_firsts filter_map comp_def)
qed

lemma distinct_filter_insert:
  assumes "distinct ys" and "filter (\<lambda>y. y \<noteq> n) ys = xs"
  shows "ys = xs \<or> (\<exists>A B. xs = A @ B \<and> ys = A @ n # B)"
proof (cases "n \<in> set ys")
  case True
  then obtain A B where ys: "ys = A @ n # B" by (auto dest: split_list)
  with assms(1) have "filter (\<lambda>y. y \<noteq> n) A = A" "filter (\<lambda>y. y \<noteq> n) B = B" by (auto simp: filter_id_conv)
  with ys assms(2) show ?thesis by auto
next
  case False
  then have "filter (\<lambda>y. y \<noteq> n) ys = ys" by (auto simp: filter_id_conv)
  with assms(2) show ?thesis by simp
qed

text \<open>One more element moves the last of the first \<open>k\<close> out, or leaves them alone.\<close>

lemma take_insert:
  assumes "distinct ys" and "filter (\<lambda>y. y \<noteq> n) ys = xs" and "0 < k" and "k \<le> length xs"
  shows "take k ys = take k xs \<or>
    (\<exists>A B x. take k xs = A @ B @ [x] \<and> take k ys = A @ n # B \<and> distinct (A @ n # B @ [x]))"
  using distinct_filter_insert [OF assms(1,2)]
proof (elim disjE exE conjE)
  fix A B assume xs: "xs = A @ B" and ys: "ys = A @ n # B"
  show ?thesis
  proof (cases "k \<le> length A")
    case True
    with xs ys show ?thesis by simp
  next
    case False
    define j where "j = k - 1 - length A"
    from False assms(4) have j: "k = length A + Suc j" "j < length B" by (auto simp: j_def xs)
    have "take k xs = A @ take j B @ [B ! j]" "take k ys = A @ n # take j B" using j by (simp_all add: xs ys take_Suc_conv_app_nth)
    moreover have "distinct (A @ n # take j B @ [B ! j])"
    proof -
      have "distinct (A @ n # take (Suc j) B)" using assms(1) by (auto simp: ys dest: in_set_takeD)
      then show ?thesis using j(2) by (simp add: take_Suc_conv_app_nth)
    qed
    ultimately show ?thesis by blast
  qed
qed simp

lemma filter_concat_zip:
  assumes "distinct (map f ps)" and "p \<in> set ps" and "\<And>p t. t \<in> set (h p) \<Longrightarrow> mt_part_id t = f p"
  shows "filter (\<lambda>t. mt_part_id t = f p) (concat (map h ps)) = h p"
  using assms
proof (induction ps)
  case (Cons q ps)
  have all: "filter (\<lambda>t. mt_part_id t = f q) (h q) = h q" using Cons.prems(3) by (auto simp: filter_id_conv)
  have none: "filter (\<lambda>t. mt_part_id t = f q') (h p') = []" if "f q' \<noteq> f p'" for q' p'
    using Cons.prems(3) that by (auto simp: filter_empty_conv)
  show ?case
  proof (cases "p = q")
    case True
    have "filter (\<lambda>t. mt_part_id t = f q) (concat (map h ps)) = []"
      using Cons.prems(1,3) by (auto simp: filter_empty_conv) (metis image_eqI)
    with True all show ?thesis by simp
  next
    case False
    with Cons.prems(2) have p: "p \<in> set ps" by simp
    then have "f p \<in> f ` set ps" by (rule imageI)
    with Cons.prems(1) have "f p \<noteq> f q" by auto
    with p none [of p q] Cons show ?thesis by simp
  qed
qed simp

lemma partition_moves_id: "t \<in> set (partition_moves iter (old, new)) \<Longrightarrow> mt_part_id t = pa_part_id old"
  by (auto simp: partition_moves_def replica_moves_def map_filter_def Let_def split: if_splits)

lemma move_host_node: "move_host (node_addr a) (node_addr b) (map node_addr ns) = map node_addr (filter (\<lambda>h. h \<noteq> a) ns @ [b])"
  by (simp add: move_host_def filter_map comp_def node_addr_inject)

lemma move_host_nodes:
  "fold (\<lambda>t. move_host (node_addr (mt_from t)) (node_addr (mt_to t))) ts (map node_addr ns) =
   map node_addr (fold (\<lambda>t hs. filter (\<lambda>h. h \<noteq> mt_from t) hs @ [mt_to t]) ts ns)"
  by (induction ts arbitrary: ns) (simp_all add: move_host_node del: map_append)

text \<open>The replicas of a partition before and after the node is added.\<close>

lemma replicas_add:
  fixes h :: u64
  assumes "ring_ok r" and "ch_ring r \<noteq> []" and "node \<notin> set (ch_nodes r)"
    and "\<And>i. i < unat (virtual_nodes (ch_config r)) \<Longrightarrow> vnode_hash node i \<notin> fst ` set (ch_ring r)"
    and "unat (ch_replica_factor r) \<le> card ((\<lambda>e. fst (snd e)) ` set (ch_ring r))"
  defines "olds \<equiv> ring_get_nodes r h (ch_replica_factor r)" and "news \<equiv> ring_get_nodes (ring_add_node node r) h (ch_replica_factor r)"
  shows "news = olds \<or> (\<exists>A B x. olds = A @ B @ [x] \<and> news = A @ node # B \<and> distinct (A @ node # B @ [x]))"
proof -
  let ?r = "ring_add_node node r" and ?S = "(\<lambda>e. fst (snd e)) ` set (ch_ring r)"
  define k where "k = max 1 (unat (ch_replica_factor r))"
  have sub: "?S \<subseteq> set (ch_nodes r)" using assms(1) by (auto simp: ring_ok_def)
  have "card ?S \<le> length (ch_nodes r)" using card_mono [OF _ sub] card_length [of "ch_nodes r"] by simp
  moreover have "set (ring_walk r h) = ?S" by (simp only: ring_walk_def set_firsts set_map set_walk)
  then have len: "length (ring_walk r h) = card ?S" using distinct_card [of "ring_walk r h"] by (simp add: ring_walk_def)
  moreover have "Suc 0 \<le> card ?S" using assms(2) by (simp add: Suc_le_eq card_gt_0_iff)
  ultimately have k: "k \<le> length (ring_walk r h)" "max 1 (min (unat (ch_replica_factor r)) (length (ch_nodes r))) = k"
    "max 1 (min (unat (ch_replica_factor r)) (length (ch_nodes ?r))) = k"
    using assms(3,5) by (auto simp: k_def ring_add_node_def)
  have "olds = take k (ring_walk r h)" "news = take k (ring_walk ?r h)"
    using ring_get_nodes_eq [OF assms(2), of h "ch_replica_factor r"] ring_get_nodes_eq [OF ring_add_not_Nil [OF assms(2)], of node h "ch_replica_factor r"] k
    by (simp_all add: olds_def news_def ring_walk_def)
  moreover have "distinct (ring_walk ?r h)" "0 < k" by (simp_all add: ring_walk_def k_def)
  ultimately show ?thesis using take_insert [OF _ ring_walk_add [OF assms(1,3,4)] _ k(1)] by auto
qed

lemma partition_ids_distinct: "distinct (map (of_nat :: nat \<Rightarrow> u32) [1..<Suc (unat (n :: u32))])"
  using unat_u32_bound [of n] by (auto simp: distinct_map inj_on_def word_unat_eq_iff unat_of_nat simp del: upt_Suc)

lemma moves_of_partition:
  assumes "compute_assignments r = map g [1..<Suc (unat n)]" and "compute_assignments r' = map g' [1..<Suc (unat n)]"
    and "ring_ok r" "ring_ok r'" and "\<And>q. pa_part_id (g q) = of_nat q" and "p \<noteq> 0" "p \<le> n"
  shows "filter (\<lambda>t. mt_part_id t = p) (fst (compute_migrations iter r r')) = partition_moves iter (g (unat p), g' (unat p))"
proof -
  let ?ps = "[1..<Suc (unat n)]" and ?h = "\<lambda>q. partition_moves iter (g q, g' q)"
  have zip: "map f (zip (map g ps) (map g' ps)) = map (\<lambda>q. f (g q, g' q)) ps" for f :: "_ \<Rightarrow> migration_task list" and ps by (induction ps) auto
  have "fst (compute_migrations iter r r') = concat (map ?h ?ps)"
    unfolding compute_migrations_fst [OF assms(3,4)] assms(1,2) zip ..
  moreover have "unat p \<in> set ?ps" using assms(6,7) by (auto simp: word_le_nat_alt unat_gt_0 Suc_le_eq simp del: upt_Suc)
  moreover have "mt_part_id t = of_nat q" if "t \<in> set (?h q)" for t q using partition_moves_id [OF that] assms(5) by simp
  ultimately show ?thesis using filter_concat_zip [OF partition_ids_distinct, of "unat p" n ?h] by (simp del: upt_Suc)
qed

section \<open>Properties\<close>


definition single_ring :: consistent_hash_ring where
  "single_ring = ring_add_node (ring_node_new [97] 1) (ring_new 4 1 \<lparr>virtual_nodes = 1\<rparr>)"

definition listed_nodes :: "ring_node set \<Rightarrow> ring_node list" where
  "listed_nodes A = filter (\<lambda>n. n \<in> A) [ring_node_new [97] 1, ring_node_new [100] 1]"


lemma failed_nodes_of_removed:
  assumes "distinct (map fst (ms_storage_hosts m))" and "cleanup_stale_hosts now m = (removed, m')"
  shows "failed_nodes_of removed m' = []"
proof -
  have "map_of (ms_storage_hosts m') k = None" if "k \<in> set removed" for k
    using assms that unfolding map_of_eq_None_iff
    by (fastforce simp: cleanup_stale_hosts_def Let_def distinct_map inj_on_def)
  then show ?thesis unfolding failed_nodes_of_def by (intro map_filter_none) (auto simp: get_host_partitions_def Let_def)
qed

text \<open>
  C16. A cycle of the failure detector reassigns nothing: it forgets the hosts without a recent heartbeat, but the partitions of such a host are
  looked up only after its entry is gone, so that the recovery reports no affected partition, executes no migration, and every
  partition stays allocated to the hosts it had, dead ones included.
\<close>

theorem recovery_never_reassigns:
  assumes "distinct (map fst (ms_storage_hosts m))" and "check_and_recover config now m = (res, m')"
  shows "ms_part_allocations m' = ms_part_allocations m \<and> ms_storage_hosts m' = ms_storage_hosts (snd (cleanup_stale_hosts now m)) \<and>
    res \<in> {None, Some \<lparr>rr_failed_nodes = [], rr_migrations_executed = [], rr_migrations_failed = []\<rparr>}"
proof -
  obtain removed m1 where c: "cleanup_stale_hosts now m = (removed, m1)" by fastforce
  then have "ms_part_allocations m1 = ms_part_allocations m" by (auto simp: cleanup_stale_hosts_def Let_def)
  with assms(2) c failed_nodes_of_removed [OF assms(1) c] show ?thesis
    by (auto simp: check_and_recover_def Let_def split: if_splits)
qed

definition dead_host :: "memory_kv meta_service" where
  "dead_host = (meta_service_new memory_new 7)\<lparr>ms_part_allocations := [(1, [(1, [([104], 9779)])])],
     ms_storage_hosts := [(([104], 9779), \<lparr>sh_host = [104], sh_port = 9779, sh_last_heartbeat = 0, sh_status = Online, sh_partitions = [(1, 1)]\<rparr>),
       (([105], 9779), \<lparr>sh_host = [105], sh_port = 9779, sh_last_heartbeat = 90 * 1000000000, sh_status = Online, sh_partitions = []\<rparr>)]\<rparr>"

theorem recovery_never_reassigns_witness:
  "\<exists>res m'. check_and_recover failure_detector_config_default (100 * 1000000000) dead_host = (res, m') \<and>
     map fst (ms_storage_hosts m') = [([105], 9779)] \<and> get_part_hosts 1 1 m' = Inr [([104], 9779)]"
proof -
  obtain res m' where c: "check_and_recover failure_detector_config_default (100 * 1000000000) dead_host = (res, m')" by fastforce
  have "distinct (map fst (ms_storage_hosts dead_host))" by (simp add: dead_host_def)
  from recovery_never_reassigns [OF this c] c show ?thesis
    by (simp add: get_part_hosts_def cleanup_stale_hosts_def Let_def dead_host_def meta_service_new_def duration_since_def)
qed

text \<open>How many of the first \<open>N\<close> numbers have remainder \<open>j\<close>.\<close>

lemma count_mod:
  assumes "j < n"
  shows "length (filter (\<lambda>q. q mod n = j) [0..<N]) = N div n + (if j < N mod n then 1 else 0)"
proof (induction N)
  case (Suc N)
  then show ?case using assms by (auto simp: div_Suc mod_Suc)
qed simp

lemma add_mod_inject:
  assumes "(q + i) mod n = (q + j) mod n" and "i < n" "j < (n :: nat)"
  shows "i = j"
proof -
  have "b = a" if "(q + a) mod n = (q + b) mod n" "a \<le> b" "b < n" for a b
  proof -
    have "n dvd (q + b) - (q + a)" using that(1) mod_eq_dvd_iff_nat [of "q + a" "q + b" n] that(2) by simp
    with that(2,3) show ?thesis using dvd_imp_le [of n "b - a"] by (cases "a < b") simp_all
  qed
  with assms show ?thesis by (metis nat_le_linear)
qed

lemma allocate_hosts:
  assumes "hosts \<noteq> []"
  shows "allocate pn rf hosts = map (\<lambda>q. (of_nat (Suc q), map (\<lambda>i. hosts ! ((q + i) mod length hosts)) [0..<min (unat rf) (length hosts)])) [0..<unat pn]"
  using assms by (simp add: allocate_def Let_def map_Suc_upt [symmetric] comp_def del: upt_Suc map_Suc_upt)

text \<open>
  The round-robin allocator spreads the partitions evenly: each partition from 1 to the number of partitions gets as many hosts as
  the replication factor asks for, or all where there are fewer, none of them twice; and each host is the first host of
  the same number of partitions, up to one.
\<close>

theorem allocate_balanced:
  assumes "distinct hosts" and "hosts \<noteq> []" and "rf \<noteq> 0"
  shows "map fst (allocate pn rf hosts) = map of_nat [1..<Suc (unat pn)] \<and>
    list_all (\<lambda>e. length (snd e) = min (unat rf) (length hosts) \<and> distinct (snd e) \<and> set (snd e) \<subseteq> set hosts) (allocate pn rf hosts) \<and>
    list_all (\<lambda>h. length (filter (\<lambda>e. hd (snd e) = h) (allocate pn rf hosts)) - unat pn div length hosts \<le> 1 \<and>
      unat pn div length hosts \<le> length (filter (\<lambda>e. hd (snd e) = h) (allocate pn rf hosts))) hosts"
proof (intro conjI)
  let ?n = "length hosts" and ?k = "min (unat rf) (length hosts)"
  let ?hs = "\<lambda>q. map (\<lambda>i. hosts ! ((q + i) mod ?n)) [0..<?k]"
  have n: "0 < ?n" "0 < ?k" using assms(2,3) by (auto simp: unat_gt_0)
  show "map fst (allocate pn rf hosts) = map of_nat [1..<Suc (unat pn)]"
    using assms(2) by (simp add: allocate_def Let_def comp_def del: upt_Suc)
  have "distinct (?hs q)" for q
  proof -
    have "i = j" if "i < ?k" "j < ?k" "(q + i) mod ?n = (q + j) mod ?n" for i j
      using that by (auto intro: add_mod_inject)
    with assms(1) n show ?thesis by (auto simp: distinct_map inj_on_def nth_eq_iff_index_eq)
  qed
  then show "list_all (\<lambda>e. length (snd e) = ?k \<and> distinct (snd e) \<and> set (snd e) \<subseteq> set hosts) (allocate pn rf hosts)"
    using n by (auto simp: allocate_hosts [OF assms(2)] list_all_iff)
  have "length (filter (\<lambda>e. hd (snd e) = hosts ! j) (allocate pn rf hosts)) = unat pn div ?n + (if j < unat pn mod ?n then 1 else 0)"
    if j: "j < ?n" for j
  proof -
    have "hd (?hs q) = hosts ! (q mod ?n)" for q using n by (simp add: hd_map)
    then have "(\<lambda>q. hd (?hs q) = hosts ! j) = (\<lambda>q. q mod ?n = j)" using assms(1) j n by (auto simp: nth_eq_iff_index_eq)
    then show ?thesis using count_mod [OF j, of "unat pn"] by (simp add: allocate_hosts [OF assms(2)] filter_map comp_def)
  qed
  then show "list_all (\<lambda>h. length (filter (\<lambda>e. hd (snd e) = h) (allocate pn rf hosts)) - unat pn div ?n \<le> 1 \<and>
      unat pn div ?n \<le> length (filter (\<lambda>e. hd (snd e) = h) (allocate pn rf hosts))) hosts"
    by (auto simp: list_all_length)
qed

theorem allocate_balanced_witness:
  "list_all (\<lambda>e. length (snd e) = 2 \<and> distinct (snd e)) (allocate 5 2 [([97], 1), ([98], 1), ([99], 1)])"
  using allocate_balanced [of "[([97], 1), ([98], 1), ([99], 1)]" 2 5] by (simp add: list_all_iff)

section \<open>Split points\<close>

lemma i64_of_int:
  "- (2 ^ 63) \<le> x \<Longrightarrow> x < 2 ^ 63 \<Longrightarrow> sint (word_of_int x :: i64) = x"
  "2 ^ 63 \<le> x \<Longrightarrow> x < 2 ^ 64 + 2 ^ 63 \<Longrightarrow> sint (word_of_int x :: i64) = x - 2 ^ 64"
  "- (2 ^ 64) - 2 ^ 63 \<le> x \<Longrightarrow> x < - (2 ^ 63) \<Longrightarrow> sint (word_of_int x :: i64) = x + 2 ^ 64"
proof -
  have m: "(y :: int) mod 2 ^ 64 = y + c * 2 ^ 64" if "0 \<le> y + c * 2 ^ 64" "y + c * 2 ^ 64 < 2 ^ 64" for y c
    using that mod_mult_self1 [of y c "2 ^ 64"] mod_pos_pos_trivial [OF that] by metis
  show "- (2 ^ 63) \<le> x \<Longrightarrow> x < 2 ^ 63 \<Longrightarrow> sint (word_of_int x :: i64) = x"
    using m [of "x + 2 ^ 63" 0] by (simp add: int_word_sint)
  show "2 ^ 63 \<le> x \<Longrightarrow> x < 2 ^ 64 + 2 ^ 63 \<Longrightarrow> sint (word_of_int x :: i64) = x - 2 ^ 64"
    using m [of "x + 2 ^ 63" "- 1"] by (simp add: int_word_sint)
  show "- (2 ^ 64) - 2 ^ 63 \<le> x \<Longrightarrow> x < - (2 ^ 63) \<Longrightarrow> sint (word_of_int x :: i64) = x + 2 ^ 64"
    using m [of "x + 2 ^ 63" 1] by (simp add: int_word_sint)
qed

lemma sint_half: "sint (half a) = (if 0 \<le> sint a then sint a div 2 else - (- sint a div 2))"
proof -
  have d: "sint a sdiv 2 = (if 0 \<le> sint a then sint a div 2 else - (- sint a div 2))" by (simp add: signed_divide_int_def sgn_if)
  have "sint (half a) = sint a sdiv 2" unfolding half_def using sint_bounds_i64 [of a] by (intro i64_of_int(1)) (simp add: d; arith)+
  with d show ?thesis by simp
qed

definition wrap64 :: "int \<Rightarrow> int" where
  "wrap64 x = (if x < - 9223372036854775808 then x + 18446744073709551616
               else if x < 9223372036854775808 then x else x - 18446744073709551616)"

lemma sint_add_sub: "sint (a + b :: i64) = wrap64 (sint a + sint b)" "sint (a - b :: i64) = wrap64 (sint a - sint b)"
proof -
  have w: "sint (word_of_int x :: i64) = wrap64 x" if "- 18446744073709551616 \<le> x" "x \<le> 18446744073709551616" for x
    using that i64_of_int [of x] by (simp add: wrap64_def)
  have "a + b = word_of_int (sint a + sint b)" "a - b = word_of_int (sint a - sint b)" by simp_all
  then show "sint (a + b) = wrap64 (sint a + sint b)" "sint (a - b) = wrap64 (sint a - sint b)"
    using w [of "sint a + sint b"] w [of "sint a - sint b"] sint_bounds_i64 [of a] sint_bounds_i64 [of b] by auto
qed

text \<open>The midpoint formula lies between the bounds exactly if their distance is a number of 64 signed bits.\<close>

lemma mid_inside:
  assumes "sint l + 1 < sint u" and "sint l \<noteq> - 9223372036854775808"
  shows "sint l < sint (l + half (u - l)) \<and> sint (l + half (u - l)) < sint u \<longleftrightarrow> sint u - sint l < 9223372036854775808"
proof (cases "sint u - sint l < 9223372036854775808")
  case True
  then have "sint (half (u - l)) = (sint u - sint l) div 2" using assms by (simp add: sint_half sint_add_sub wrap64_def)
  with True assms sint_bounds_i64 [of l] sint_bounds_i64 [of u] show ?thesis by (simp add: sint_add_sub wrap64_def) arith
next
  case False
  define d where "d = (18446744073709551616 - (sint u - sint l)) div 2"
  have h: "sint (half (u - l)) = - d"
    using False assms sint_bounds_i64 [of l] sint_bounds_i64 [of u] by (simp add: sint_half sint_add_sub wrap64_def d_def)
  have "1 \<le> d" "2 * d \<le> 18446744073709551616 - (sint u - sint l)"
    using assms sint_bounds_i64 [of l] sint_bounds_i64 [of u] unfolding d_def by arith+
  with False h assms sint_bounds_i64 [of l] sint_bounds_i64 [of u] show ?thesis by (auto simp: sint_add_sub wrap64_def)
qed



end
