(* ===== verification/FindPath.thy ===== *)
theory FindPath
  imports SchemaKey KvStore
begin

text \<open>
  The path queries of the executor: \<open>FIND SHORTEST PATH\<close> and \<open>FIND ALL SHORTEST PATHS\<close>
  (\<^verbatim>\<open>byoridb-executor/src/algo_paths.rs\<close>), with the checks on an edge row that they share with lookups
  (\<open>decode_query_edge\<close> in \<^verbatim>\<open>algo.rs\<close>) and the decoding of edges (\<^verbatim>\<open>byoridb-codec/src/vertex.rs\<close>).

  Parameters are \<open>prost\<close> and \<open>serde_json\<close>, in \<open>edge_codec\<close>, and the scans of the key-value store, in \<open>exec_context\<close>. The properties of an edge play no
  part in a path and stay abstract. A loop that only a proof shows to end returns an option, where \<open>None\<close> stands for running forever.
  Counters are natural numbers.
\<close>

section \<open>Edges\<close>

record 'p edge_data =
  ed_src_vid :: i64
  ed_dst_vid :: i64
  ed_edge_type :: bytes
  ed_ranking :: i64
  ed_properties :: 'p

text \<open>A JSON value as \<open>serde_json\<close> gives it; an integer is an \<open>i64\<close> or a \<open>u64\<close>, and a float is given by its bits.\<close>

datatype json = JNull | JBool bool | JInt int | JFloat u64 | JString bytes | JArray "json list" | JObject "(bytes \<times> json) list"

fun json_get :: "json \<Rightarrow> bytes \<Rightarrow> json option" where
  "json_get (JObject fs) k = map_of fs k"
| "json_get _ k = None"

fun json_as_i64 :: "json \<Rightarrow> i64 option" where
  "json_as_i64 (JInt i) = (if - (2 ^ 63) \<le> i \<and> i < 2 ^ 63 then Some (word_of_int i) else None)"
| "json_as_i64 _ = None"

fun json_as_str :: "json \<Rightarrow> bytes option" where
  "json_as_str (JString s) = Some s"
| "json_as_str _ = None"

fun json_is_object :: "json \<Rightarrow> bool" where
  "json_is_object (JObject _) = True"
| "json_is_object _ = False"

definition or_else :: "'a option \<Rightarrow> 'a option \<Rightarrow> 'a option" where
  "or_else a b = (case a of None \<Rightarrow> b | Some x \<Rightarrow> Some x)"

text \<open>
  \<open>pb::Edge::decode\<close> with the conversion of the property values, \<open>serde_json::from_slice\<close>, and the conversion of an object to
  properties, where \<open>None\<close> is the lack of an object.
\<close>

record 'p edge_codec =
  ec_proto_decode :: "bytes \<Rightarrow> 'p edge_data option"
  ec_json_parse :: "bytes \<Rightarrow> json option"
  ec_json_properties :: "json option \<Rightarrow> 'p"

definition PROTO_MAGIC :: u8 where "PROTO_MAGIC = 0xCA"

definition is_proto_format :: "bytes \<Rightarrow> bool" where
  "is_proto_format data \<longleftrightarrow> data \<noteq> [] \<and> hd data = PROTO_MAGIC"

definition decode_edge_json :: "'p edge_codec \<Rightarrow> bytes \<Rightarrow> 'p edge_data option" where
  "decode_edge_json codec data =
     map_option
       (\<lambda>json.
          let int = (\<lambda>j. case Option.bind j json_as_i64 of None \<Rightarrow> 0 | Some i \<Rightarrow> i)
          in \<lparr>ed_src_vid = int (json_get json (ascii ''src'')), ed_dst_vid = int (json_get json (ascii ''dst'')),
              ed_edge_type =
                (case Option.bind (or_else (json_get json (ascii ''edge_type'')) (json_get json (ascii ''type''))) json_as_str of
                   None \<Rightarrow> [] | Some s \<Rightarrow> s),
              ed_ranking = int (or_else (json_get json (ascii ''ranking'')) (json_get json (ascii ''rank''))),
              ed_properties =
                ec_json_properties codec (or_else (json_get json (ascii ''props'')) (json_get json (ascii ''properties'')))\<rparr>)
       (ec_json_parse codec data)"

definition decode_edge :: "'p edge_codec \<Rightarrow> bytes \<Rightarrow> 'p edge_data option" where
  "decode_edge codec data =
     (if data = [] then None
      else if hd data = PROTO_MAGIC then ec_proto_decode codec (tl data)
      else decode_edge_json codec data)"

section \<open>Rows of edges\<close>

text \<open>The errors that the path queries raise themselves or pass on from the store; both errors have a fixed text.\<close>

datatype 'e exec_error = ExecStorage 'e | InvalidEdgeMetadata | TraversalExhausted | PathsExhausted

definition split_on :: "u8 \<Rightarrow> bytes \<Rightarrow> bytes list" where
  "split_on c bs = foldr (\<lambda>b acc. if b = c then [] # acc else (b # hd acc) # tl acc) bs [[]]"

definition edge_type_from_key :: "bytes \<Rightarrow> bytes option" where
  "edge_type_from_key key =
     (if utf8_valid key then (let parts = split_on 58 key in if 3 < length parts then Some (parts ! 3) else None) else None)"

definition json_edge_fields_ok :: "json \<Rightarrow> bool" where
  "json_edge_fields_ok json \<longleftrightarrow>
     Option.bind (json_get json (ascii ''src'')) json_as_i64 \<noteq> None \<and>
     Option.bind (json_get json (ascii ''dst'')) json_as_i64 \<noteq> None \<and>
     (case or_else (json_get json (ascii ''ranking'')) (json_get json (ascii ''rank'')) of
        None \<Rightarrow> True | Some v \<Rightarrow> json_as_i64 v \<noteq> None) \<and>
     (case or_else (json_get json (ascii ''props'')) (json_get json (ascii ''properties'')) of
        None \<Rightarrow> True | Some v \<Rightarrow> json_is_object v)"

definition decode_query_edge :: "'p edge_codec \<Rightarrow> bytes \<Rightarrow> bytes \<Rightarrow> 'e exec_error + 'p edge_data" where
  "decode_query_edge codec key value =
     (if \<not> is_proto_format value \<and> (case ec_json_parse codec value of None \<Rightarrow> True | Some json \<Rightarrow> \<not> json_edge_fields_ok json)
      then Inl InvalidEdgeMetadata
      else case decode_edge codec value of
             None \<Rightarrow> Inl InvalidEdgeMetadata
           | Some edge \<Rightarrow>
              (if \<not> utf8_valid key then Inl InvalidEdgeMetadata
               else (let parts = split_on 58 key
                     in if length parts \<noteq> 6 \<or> ed_edge_type edge \<noteq> parts ! 3 \<or> ed_edge_type edge = [] then Inl InvalidEdgeMetadata
                        else case (parse_i64 (parts ! 2), parse_i64 (parts ! 4), parse_i64 (parts ! 5)) of
                               (Some first, Some second, Some rank) \<Rightarrow>
                                 (let matches =
                                        (if parts ! 1 = ascii ''edge'' then first = ed_src_vid edge \<and> second = ed_dst_vid edge
                                         else if parts ! 1 = ascii ''in-edge'' then first = ed_dst_vid edge \<and> second = ed_src_vid edge
                                         else False)
                                  in if \<not> matches \<or> rank \<noteq> ed_ranking edge then Inl InvalidEdgeMetadata else Inr edge)
                             | _ \<Rightarrow> Inl InvalidEdgeMetadata)))"

section \<open>Neighbours\<close>

record traversal_metrics =
  visited_vertices :: nat
  scanned_edges :: nat
  decoded_edges :: nat
  max_frontier_size :: nat
  cap_reached :: bool

definition metrics_default :: traversal_metrics where
  "metrics_default = \<lparr>visited_vertices = 0, scanned_edges = 0, decoded_edges = 0, max_frontier_size = 0, cap_reached = False\<rparr>"

definition record_frontier :: "nat \<Rightarrow> traversal_metrics \<Rightarrow> traversal_metrics" where
  "record_frontier n mt = (if max_frontier_size mt < n then mt\<lparr>max_frontier_size := n\<rparr> else mt)"

text \<open>What a query sees: the space, the limits, the codec, and the streams of rows under a prefix.\<close>

record ('e, 'p) exec_context =
  cx_space :: "bytes option"
  cx_max_traversal_nodes :: nat
  cx_codec :: "'p edge_codec"
  cx_scan_stream :: "bytes \<Rightarrow> 'e + ('e + bytes \<times> bytes) list"

text \<open>The loop over the rows of one stream. The set of vertices seen is the set of the list of neighbours.\<close>

fun collect_rows ::
  "'p edge_codec \<Rightarrow> bytes list \<Rightarrow> ('p edge_data \<Rightarrow> i64) \<Rightarrow> ('e + bytes \<times> bytes) list \<Rightarrow> i64 list \<times> traversal_metrics \<Rightarrow>
   'e exec_error + i64 list \<times> traversal_metrics" where
  "collect_rows codec edge_types vid_of [] acc = Inr acc"
| "collect_rows codec edge_types vid_of (item # items) (neighbors, mt) =
     (case item of
        Inl e \<Rightarrow> Inl (ExecStorage e)
      | Inr (key, value) \<Rightarrow>
         (if edge_types \<noteq> [] \<and> (case edge_type_from_key key of None \<Rightarrow> True | Some t \<Rightarrow> t \<notin> set edge_types)
          then collect_rows codec edge_types vid_of items (neighbors, mt)
          else (case decode_query_edge codec key value of
                  Inl e \<Rightarrow> Inl e
                | Inr edge \<Rightarrow>
                    collect_rows codec edge_types vid_of items
                      (if vid_of edge \<in> set neighbors then neighbors else neighbors @ [vid_of edge],
                       mt\<lparr>scanned_edges := scanned_edges mt + 1, decoded_edges := decoded_edges mt + 1\<rparr>))))"

definition collect_neighbor_vids ::
  "('e, 'p) exec_context \<Rightarrow> bytes \<Rightarrow> i64 \<Rightarrow> bytes list \<Rightarrow> bool \<Rightarrow> traversal_metrics \<Rightarrow> 'e exec_error + i64 list \<times> traversal_metrics" where
  "collect_neighbor_vids ctx space vid edge_types bidirect mt =
     (case cx_scan_stream ctx (space @ ascii '':edge:'' @ dec_int (sint vid) @ ascii '':'') of
        Inl e \<Rightarrow> Inl (ExecStorage e)
      | Inr rows \<Rightarrow>
         (case collect_rows (cx_codec ctx) edge_types ed_dst_vid rows ([], mt) of
            Inl e \<Rightarrow> Inl e
          | Inr acc \<Rightarrow>
             (if \<not> bidirect then Inr acc
              else case cx_scan_stream ctx (schema_in_edge_data_dst_prefix space vid) of
                     Inl e \<Rightarrow> Inl (ExecStorage e)
                   | Inr rows' \<Rightarrow> collect_rows (cx_codec ctx) edge_types ed_src_vid rows' acc)))"

definition query_space :: "('e, 'p) exec_context \<Rightarrow> bytes" where
  "query_space ctx = (case cx_space ctx of None \<Rightarrow> ascii ''default'' | Some s \<Rightarrow> s)"

section \<open>One shortest path\<close>

partial_function (option) reconstruct_loop :: "(i64 \<Rightarrow> i64 option) \<Rightarrow> i64 \<Rightarrow> i64 \<Rightarrow> i64 list \<Rightarrow> i64 list option" where
  "reconstruct_loop parent start cur path =
     (if cur = start then Some path
      else case parent cur of
             None \<Rightarrow> Some path
           | Some p \<Rightarrow> reconstruct_loop parent start p (path @ [p]))"

declare reconstruct_loop.simps [code]

definition reconstruct_path :: "(i64 \<Rightarrow> i64 option) \<Rightarrow> i64 \<Rightarrow> i64 \<Rightarrow> i64 list option" where
  "reconstruct_path parent start target = map_option rev (reconstruct_loop parent start target [target])"

record bfs_state =
  bf_visited :: "i64 set"
  bf_parent :: "i64 \<Rightarrow> i64 option"
  bf_queue :: "(i64 \<times> nat) list"
  bf_metrics :: traversal_metrics

text \<open>The loop over the neighbours of \<open>current\<close>; the flag says that the target was met.\<close>

fun bfs_visit :: "i64 \<Rightarrow> i64 \<Rightarrow> nat \<Rightarrow> i64 list \<Rightarrow> bfs_state \<Rightarrow> bool \<times> bfs_state" where
  "bfs_visit target current step [] st = (False, st)"
| "bfs_visit target current step (dst # dsts) st =
     (if dst \<in> bf_visited st then bfs_visit target current step dsts st
      else (let st = st\<lparr>bf_visited := insert dst (bf_visited st), bf_parent := (bf_parent st)(dst \<mapsto> current)\<rparr>
            in if dst = target then (True, st)
               else (let queue = bf_queue st @ [(dst, step + 1)]
                     in bfs_visit target current step dsts
                          (st\<lparr>bf_queue := queue, bf_metrics := record_frontier (length queue) (bf_metrics st)\<rparr>))))"

lemma bfs_visit_measure:
  "bfs_visit target current step dsts st = (False, st') \<Longrightarrow>
   card (- bf_visited st') + length (bf_queue st') = card (- bf_visited st) + length (bf_queue st)"
proof (induction dsts arbitrary: st)
  case (Cons d dsts)
  show ?case
  proof (cases "d \<in> bf_visited st")
    case False
    then have "- insert d (bf_visited st) = - bf_visited st - {d}" by auto
    then have "Suc (card (- insert d (bf_visited st))) = card (- bf_visited st)"
      using False card.remove [of "- bf_visited st" d] by simp
    with Cons False show ?thesis by (auto simp: Let_def split: if_splits)
  qed (use Cons in simp)
qed simp

function bfs_loop ::
  "('e, 'p) exec_context \<Rightarrow> i64 \<Rightarrow> i64 \<Rightarrow> bytes list \<Rightarrow> nat \<Rightarrow> bool \<Rightarrow> bfs_state \<Rightarrow>
   ('e exec_error + i64 list option \<times> traversal_metrics) option" where
  "bfs_loop ctx start target edge_types max_steps bidirect st =
     (case bf_queue st of
        [] \<Rightarrow> Some (Inr (None, bf_metrics st))
      | (current, step) # queue \<Rightarrow>
         (let st = st\<lparr>bf_queue := queue\<rparr>
          in if max_steps \<le> step then bfs_loop ctx start target edge_types max_steps bidirect st
             else if 0 < cx_max_traversal_nodes ctx \<and> cx_max_traversal_nodes ctx \<le> visited_vertices (bf_metrics st)
             then Some (Inl TraversalExhausted)
             else case collect_neighbor_vids ctx (query_space ctx) current edge_types bidirect
                         ((bf_metrics st)\<lparr>visited_vertices := visited_vertices (bf_metrics st) + 1\<rparr>) of
                    Inl e \<Rightarrow> Some (Inl e)
                  | Inr (neighbors, mt) \<Rightarrow>
                     (case bfs_visit target current step neighbors (st\<lparr>bf_metrics := mt\<rparr>) of
                        (True, st) \<Rightarrow> map_option (\<lambda>path. Inr (Some path, bf_metrics st)) (reconstruct_path (bf_parent st) start target)
                      | (False, st) \<Rightarrow> bfs_loop ctx start target edge_types max_steps bidirect st)))"
  by pat_completeness auto

termination
  by (relation "measure (\<lambda>(ctx, start, target, edge_types, max_steps, bidirect, st). card (- bf_visited st) + length (bf_queue st))")
    (auto dest!: bfs_visit_measure [OF sym])

definition shortest_path ::
  "('e, 'p) exec_context \<Rightarrow> i64 \<Rightarrow> i64 \<Rightarrow> bytes list \<Rightarrow> nat \<Rightarrow> bool \<Rightarrow>
   ('e exec_error + i64 list option \<times> traversal_metrics) option" where
  "shortest_path ctx start target edge_types max_steps bidirect =
     (if start = target then Some (Inr (Some [start], metrics_default))
      else bfs_loop ctx start target edge_types max_steps bidirect
             \<lparr>bf_visited = {start}, bf_parent = (\<lambda>_. None), bf_queue = [(start, 0)],
              bf_metrics = record_frontier 1 metrics_default\<rparr>)"

section \<open>All shortest paths\<close>

record level_state =
  lv_depth :: "i64 \<Rightarrow> nat option"
  lv_parents :: "i64 \<Rightarrow> i64 list option"
  lv_next :: "i64 list"
  lv_found :: bool

fun level_visit :: "i64 \<Rightarrow> nat \<Rightarrow> i64 \<Rightarrow> i64 list \<Rightarrow> level_state \<Rightarrow> level_state" where
  "level_visit target current_depth u [] st = st"
| "level_visit target current_depth u (v # vs) st =
     level_visit target current_depth u vs
       (case lv_depth st v of
          None \<Rightarrow>
            st\<lparr>lv_depth := (lv_depth st)(v \<mapsto> current_depth + 1), lv_parents := (lv_parents st)(v \<mapsto> [u]), lv_next := lv_next st @ [v],
               lv_found := (lv_found st \<or> v = target)\<rparr>
        | Some dv \<Rightarrow>
            (if dv = current_depth + 1
             then st\<lparr>lv_parents := (lv_parents st)(v \<mapsto> (case lv_parents st v of None \<Rightarrow> [] | Some us \<Rightarrow> us) @ [u])\<rparr>
             else st))"

fun level_expand ::
  "('e, 'p) exec_context \<Rightarrow> i64 \<Rightarrow> bytes list \<Rightarrow> bool \<Rightarrow> nat \<Rightarrow> i64 list \<Rightarrow> level_state \<times> traversal_metrics \<Rightarrow>
   'e exec_error + level_state \<times> traversal_metrics" where
  "level_expand ctx target edge_types bidirect current_depth [] acc = Inr acc"
| "level_expand ctx target edge_types bidirect current_depth (u # us) (st, mt) =
     (if 0 < cx_max_traversal_nodes ctx \<and> cx_max_traversal_nodes ctx \<le> visited_vertices mt then Inl TraversalExhausted
      else case collect_neighbor_vids ctx (query_space ctx) u edge_types bidirect (mt\<lparr>visited_vertices := visited_vertices mt + 1\<rparr>) of
             Inl e \<Rightarrow> Inl e
           | Inr (neighbors, mt) \<Rightarrow>
               level_expand ctx target edge_types bidirect current_depth us (level_visit target current_depth u neighbors st, mt))"

text \<open>The loop over the levels; \<open>lv_next\<close> holds the frontier between two rounds.\<close>

function level_loop ::
  "('e, 'p) exec_context \<Rightarrow> i64 \<Rightarrow> bytes list \<Rightarrow> nat \<Rightarrow> bool \<Rightarrow> nat \<Rightarrow> level_state \<times> traversal_metrics \<Rightarrow>
   'e exec_error + level_state \<times> traversal_metrics" where
  "level_loop ctx target edge_types max_steps bidirect current_depth (st, mt) =
     (if lv_next st = [] \<or> max_steps \<le> current_depth \<or> lv_found st then Inr (st, mt)
      else case level_expand ctx target edge_types bidirect current_depth (lv_next st)
                  (st\<lparr>lv_next := []\<rparr>, record_frontier (length (lv_next st)) mt) of
             Inl e \<Rightarrow> Inl e
           | Inr acc \<Rightarrow> level_loop ctx target edge_types max_steps bidirect (current_depth + 1) acc)"
  by pat_completeness auto

termination
  by (relation "measure (\<lambda>(ctx, target, edge_types, max_steps, bidirect, d, acc). max_steps - d)") auto

text \<open>The enumeration of the paths; the stack grows at the front.\<close>

partial_function (option) enumerate_paths ::
  "(i64 \<Rightarrow> i64 list option) \<Rightarrow> i64 \<Rightarrow> nat \<Rightarrow> i64 list list \<Rightarrow> i64 list list \<Rightarrow> ('e exec_error + i64 list list) option" where
  "enumerate_paths parents start max_paths paths stack =
     (case stack of
        [] \<Rightarrow> Some (Inr paths)
      | partial # stack \<Rightarrow>
         (if partial = [] then enumerate_paths parents start max_paths paths stack
          else if last partial = start
          then (if 0 < max_paths \<and> max_paths \<le> length paths then Some (Inl PathsExhausted)
                else enumerate_paths parents start max_paths (paths @ [rev partial]) stack)
          else case parents (last partial) of
                 None \<Rightarrow> enumerate_paths parents start max_paths paths stack
               | Some preds \<Rightarrow> enumerate_paths parents start max_paths paths (rev (map (\<lambda>p. partial @ [p]) preds) @ stack)))"

declare enumerate_paths.simps [code]

definition all_shortest_paths ::
  "('e, 'p) exec_context \<Rightarrow> i64 \<Rightarrow> i64 \<Rightarrow> bytes list \<Rightarrow> nat \<Rightarrow> bool \<Rightarrow> nat \<Rightarrow>
   ('e exec_error + i64 list list \<times> traversal_metrics) option" where
  "all_shortest_paths ctx start target edge_types max_steps bidirect max_paths =
     (if start = target then Some (Inr ([[start]], metrics_default))
      else case level_loop ctx target edge_types max_steps bidirect 0
                  (\<lparr>lv_depth = [start \<mapsto> 0], lv_parents = (\<lambda>_. None), lv_next = [start], lv_found = False\<rparr>, metrics_default) of
             Inl e \<Rightarrow> Some (Inl e)
           | Inr (st, mt) \<Rightarrow>
               (if \<not> lv_found st then Some (Inr ([], mt))
                else case enumerate_paths (lv_parents st) start max_paths [] [[target]] of
                       None \<Rightarrow> None
                     | Some (Inl e) \<Rightarrow> Some (Inl e)
                     | Some (Inr paths) \<Rightarrow> Some (Inr (paths, mt))))"

declare bfs_loop.simps [simp del]

section \<open>Walks and distances\<close>

definition is_walk :: "(i64 \<Rightarrow> i64 list) \<Rightarrow> i64 \<Rightarrow> i64 \<Rightarrow> i64 list \<Rightarrow> bool" where
  "is_walk nb s t xs \<longleftrightarrow> xs \<noteq> [] \<and> hd xs = s \<and> last xs = t \<and> successively (\<lambda>a b. b \<in> set (nb a)) xs"

text \<open>\<open>t\<close> can be reached from \<open>s\<close> in \<open>k\<close> hops, and in no fewer.\<close>

primrec reach :: "(i64 \<Rightarrow> i64 list) \<Rightarrow> i64 \<Rightarrow> nat \<Rightarrow> i64 \<Rightarrow> bool" where
  "reach nb s 0 v \<longleftrightarrow> v = s"
| "reach nb s (Suc k) v \<longleftrightarrow> (\<exists>u. reach nb s k u \<and> v \<in> set (nb u))"

definition hops :: "(i64 \<Rightarrow> i64 list) \<Rightarrow> i64 \<Rightarrow> i64 \<Rightarrow> nat \<Rightarrow> bool" where
  "hops nb s v k \<longleftrightarrow> reach nb s k v \<and> (\<forall>j < k. \<not> reach nb s j v)"

lemma is_walk_snoc: "is_walk nb s u xs \<Longrightarrow> v \<in> set (nb u) \<Longrightarrow> is_walk nb s v (xs @ [v])"
  by (auto simp: is_walk_def successively_append_iff)

lemma walk_reach: "(\<exists>xs. is_walk nb s v xs \<and> length xs = Suc k) \<longleftrightarrow> reach nb s k v"
proof (induction k arbitrary: v)
  case 0
  show ?case by (auto simp: is_walk_def length_Suc_conv intro: exI [of _ "[s]"])
next
  case (Suc k)
  show ?case
  proof
    assume "\<exists>xs. is_walk nb s v xs \<and> length xs = Suc (Suc k)"
    then obtain xs where xs: "is_walk nb s v xs" "length xs = Suc (Suc k)" by blast
    then obtain ys where "xs = ys @ [v]" by (cases xs rule: rev_cases) (auto simp: is_walk_def)
    with xs(2) have ys: "xs = ys @ [v]" "ys \<noteq> []" by auto
    with xs have "is_walk nb s (last ys) ys" "v \<in> set (nb (last ys))" "length ys = Suc k"
      by (auto simp: is_walk_def successively_append_iff)
    with Suc [of "last ys"] show "reach nb s (Suc k) v" by auto
  next
    assume "reach nb s (Suc k) v"
    then obtain u where u: "reach nb s k u" "v \<in> set (nb u)" by auto
    then obtain xs where "is_walk nb s u xs" "length xs = Suc k" using Suc by blast
    with is_walk_snoc [of nb s u _ v, OF _ u(2)] show "\<exists>xs. is_walk nb s v xs \<and> length xs = Suc (Suc k)" by fastforce
  qed
qed

lemma hops_exists:
  assumes "reach nb s k v"
  obtains j where "hops nb s v j" and "j \<le> k"
proof -
  let ?j = "LEAST j. reach nb s j v"
  have "hops nb s v ?j" using LeastI [of "\<lambda>j. reach nb s j v", OF assms] not_less_Least by (auto simp: hops_def)
  with that Least_le [of "\<lambda>j. reach nb s j v", OF assms] show ?thesis by blast
qed

lemma hops_unique: "hops nb s v j \<Longrightarrow> hops nb s v k \<Longrightarrow> j = k"
  by (auto simp: hops_def) (metis linorder_neqE_nat)

lemma hops_0 [simp]: "hops nb s v 0 \<longleftrightarrow> v = s"
  by (auto simp: hops_def)

lemma hops_start: "hops nb s s k \<longleftrightarrow> k = 0"
  using hops_unique [of nb s s 0 k] by auto

lemma hops_pred:
  assumes "hops nb s v (Suc k)"
  obtains u where "hops nb s u k" and "v \<in> set (nb u)"
proof -
  from assms obtain u where u: "reach nb s k u" "v \<in> set (nb u)" by (auto simp: hops_def)
  have "\<not> reach nb s j u" if "j < k" for j using assms u(2) that by (auto simp: hops_def dest!: spec [of _ "Suc j"])
  with u that show ?thesis by (auto simp: hops_def)
qed

lemma hops_succ_le:
  assumes "hops nb s u k" and "v \<in> set (nb u)"
  obtains j where "hops nb s v j" and "j \<le> Suc k"
proof (rule hops_exists)
  show "reach nb s (Suc k) v" using assms by (auto simp: hops_def)
qed (use that in blast)

section \<open>Breadth-first search\<close>

lemma bfs_visit_False:
  assumes "bfs_visit t u d ns st = (False, st')" and "distinct ns"
  shows "bf_visited st' = bf_visited st \<union> set ns \<and> bf_parent st' = (\<lambda>v. if v \<in> set ns - bf_visited st then Some u else bf_parent st v) \<and>
    bf_queue st' = bf_queue st @ map (\<lambda>v. (v, Suc d)) (filter (\<lambda>v. v \<notin> bf_visited st) ns) \<and>
    visited_vertices (bf_metrics st') = visited_vertices (bf_metrics st) \<and> t \<notin> set ns - bf_visited st"
  using assms
proof (induction ns arbitrary: st)
  case (Cons n ns)
  show ?case
  proof (cases "n \<in> bf_visited st")
    case True
    with Cons show ?thesis by (auto simp: fun_eq_iff)
  next
    case False
    let ?q = "bf_queue st @ [(n, Suc d)]"
    let ?st = "st\<lparr>bf_visited := insert n (bf_visited st), bf_parent := (bf_parent st)(n \<mapsto> u), bf_queue := ?q,
                 bf_metrics := record_frontier (length ?q) (bf_metrics st)\<rparr>"
    from False Cons.prems have run: "n \<noteq> t" "bfs_visit t u d ns ?st = (False, st')" by (auto simp: Let_def split: if_splits)
    have eq: "filter (\<lambda>v. v \<noteq> n \<and> v \<notin> bf_visited st) ns = filter (\<lambda>v. v \<notin> bf_visited st) ns"
      using Cons.prems(2) by (intro filter_cong) auto
    from Cons.IH [OF run(2)] Cons.prems(2) False run(1) show ?thesis
      by (auto simp: eq fun_eq_iff record_frontier_def)
  qed
qed simp

lemma bfs_visit_True:
  assumes "bfs_visit t u d ns st = (True, st')"
  shows "\<exists>W \<subseteq> set ns - bf_visited st. t \<in> W \<and> bf_parent st' = (\<lambda>v. if v \<in> W then Some u else bf_parent st v)"
  using assms
proof (induction ns arbitrary: st)
  case (Cons n ns)
  show ?case
  proof (cases "n \<in> bf_visited st")
    case True
    with Cons show ?thesis by fastforce
  next
    case new: False
    show ?thesis
    proof (cases "n = t")
      case True
      with new Cons.prems have "bf_parent st' = (bf_parent st)(n \<mapsto> u)" by (auto simp: Let_def)
      with True new show ?thesis by (intro exI [of _ "{n}"]) (auto simp: fun_eq_iff)
    next
      case False
      let ?q = "bf_queue st @ [(n, Suc d)]"
      let ?st = "st\<lparr>bf_visited := insert n (bf_visited st), bf_parent := (bf_parent st)(n \<mapsto> u), bf_queue := ?q,
                   bf_metrics := record_frontier (length ?q) (bf_metrics st)\<rparr>"
      have run: "bfs_visit t u d ns ?st = (True, st')" using new False Cons.prems by (auto simp: Let_def)
      have f: "bf_visited ?st = insert n (bf_visited st)" "bf_parent ?st = (bf_parent st)(n \<mapsto> u)" by simp_all
      from Cons.IH [OF run, unfolded f] obtain W where W: "W \<subseteq> set ns - insert n (bf_visited st)" "t \<in> W"
        "bf_parent st' = (\<lambda>v. if v \<in> W then Some u else ((bf_parent st)(n \<mapsto> u)) v)" by blast
      have "bf_parent st' = (\<lambda>v. if v \<in> insert n W then Some u else bf_parent st v)" by (rule ext) (simp add: W(3))
      with W(1,2) new show ?thesis by (intro exI [of _ "insert n W"]) auto
    qed
  qed
qed simp

lemma reconstruct_walk:
  assumes par: "\<And>v k. v \<in> V \<Longrightarrow> hops nb s v (Suc k) \<Longrightarrow> \<exists>p. parent v = Some p \<and> p \<in> V \<and> hops nb s p k \<and> v \<in> set (nb p)"
  shows "v \<in> V \<Longrightarrow> hops nb s v k \<Longrightarrow>
    \<exists>xs. reconstruct_loop parent s v path = Some (path @ xs) \<and> is_walk nb s v (rev (v # xs)) \<and> length xs = k"
proof (induction k arbitrary: v path)
  case 0
  then show ?case by (simp add: reconstruct_loop.simps is_walk_def)
next
  case (Suc k)
  then obtain p where p: "parent v = Some p" "p \<in> V" "hops nb s p k" "v \<in> set (nb p)" using par by blast
  have "v \<noteq> s" using Suc.prems(2) hops_start by auto
  obtain xs where "reconstruct_loop parent s p (path @ [p]) = Some ((path @ [p]) @ xs)" "is_walk nb s p (rev (p # xs))" "length xs = k"
    using Suc.IH [OF p(2,3), of "path @ [p]"] by blast
  with p(1,4) \<open>v \<noteq> s\<close> is_walk_snoc [of nb s p "rev (p # xs)" v] show ?case
    by (intro exI [of _ "p # xs"]) (simp add: reconstruct_loop.simps [of parent s v])
qed

definition bfs_inv ::
  "(i64 \<Rightarrow> i64 list) \<Rightarrow> i64 \<Rightarrow> i64 \<Rightarrow> nat \<Rightarrow> i64 set \<Rightarrow> (i64 \<Rightarrow> i64 option) \<Rightarrow> (i64 \<times> nat) list \<Rightarrow> nat \<Rightarrow> bool" where
  "bfs_inv nb s t ms V par Q n \<longleftrightarrow> s \<in> V \<and> t \<notin> V \<and>
     (\<forall>e \<in> set Q. fst e \<in> V \<and> hops nb s (fst e) (snd e) \<and> snd e \<le> ms) \<and> distinct (map fst Q) \<and>
     sorted (map snd Q) \<and> (\<forall>e \<in> set Q. snd e \<le> Suc (snd (hd Q))) \<and>
     (\<forall>v \<in> V - fst ` set Q. \<exists>k. hops nb s v k \<and> (k < ms \<longrightarrow> set (nb v) \<subseteq> V)) \<and>
     (\<forall>v \<in> V. \<forall>k. hops nb s v (Suc k) \<longrightarrow> (\<exists>p. par v = Some p \<and> p \<in> V \<and> hops nb s p k \<and> v \<in> set (nb p))) \<and>
     n = card {v \<in> V - fst ` set Q. \<exists>k < ms. hops nb s v k}"

lemma bfs_inv_done:
  assumes "bfs_inv nb s t ms V par Q n" and "v \<in> V" and "v \<notin> fst ` set Q"
  obtains k where "hops nb s v k" and "k < ms \<longrightarrow> set (nb v) \<subseteq> V"
  using assms unfolding bfs_inv_def by blast

lemma bfs_inv_parent:
  assumes "bfs_inv nb s t ms V par Q n" and "v \<in> V" and "hops nb s v (Suc k)"
  shows "\<exists>p. par v = Some p \<and> p \<in> V \<and> hops nb s p k \<and> v \<in> set (nb p)"
  using assms unfolding bfs_inv_def by blast

lemma bfs_inv_queue:
  assumes "bfs_inv nb s t ms V par ((u, d) # Q) n"
  shows "u \<in> V" "hops nb s u d" "d \<le> ms" "u \<notin> fst ` set Q" "\<And>e. e \<in> set Q \<Longrightarrow> d \<le> snd e" "\<And>e. e \<in> set Q \<Longrightarrow> snd e \<le> Suc d"
    "fst ` set Q \<subseteq> V"
  using assms unfolding bfs_inv_def by auto

lemma bfs_inv_init: "s \<noteq> t \<Longrightarrow> bfs_inv nb s t ms {s} (\<lambda>_. None) [(s, 0)] 0"
  by (auto simp: bfs_inv_def hops_start)

text \<open>What is at most as far away as everything in the queue has been visited.\<close>

lemma bfs_closed:
  assumes inv: "bfs_inv nb s t ms V par Q n" and D: "\<And>e. e \<in> set Q \<Longrightarrow> D \<le> snd e" "D \<le> ms"
  shows "hops nb s v k \<Longrightarrow> k \<le> D \<Longrightarrow> v \<in> V"
proof (induction k arbitrary: v)
  case 0
  with inv show ?case by (simp add: bfs_inv_def)
next
  case (Suc k)
  obtain u where u: "hops nb s u k" "v \<in> set (nb u)" using hops_pred [OF Suc.prems(1)] .
  have "u \<in> V" using Suc.IH [OF u(1)] Suc.prems(2) by simp
  moreover have "u \<notin> fst ` set Q"
  proof
    assume "u \<in> fst ` set Q"
    then obtain e where e: "e \<in> set Q" "fst e = u" by blast
    then have "hops nb s u (snd e)" using inv by (auto simp: bfs_inv_def)
    with u(1) have "snd e = k" by (rule hops_unique [rotated])
    with D(1) [OF e(1)] Suc.prems(2) show False by simp
  qed
  ultimately obtain j where j: "hops nb s u j" "j < ms \<longrightarrow> set (nb u) \<subseteq> V" by (rule bfs_inv_done [OF inv])
  from hops_unique [OF u(1) j(1)] j(2) Suc.prems(2) D(2) u(2) show ?case by auto
qed

lemma bfs_new_hops:
  assumes inv: "bfs_inv nb s t ms V par ((u, d) # Q) n" and v: "v \<in> set (nb u)" "v \<notin> V"
  shows "hops nb s v (Suc d)"
proof -
  have u: "hops nb s u d" "d \<le> ms" "\<And>e. e \<in> set ((u, d) # Q) \<Longrightarrow> d \<le> snd e" using bfs_inv_queue [OF inv] by auto
  obtain j where j: "hops nb s v j" "j \<le> Suc d" using hops_succ_le [OF u(1) v(1)] .
  have "\<not> j \<le> d" using bfs_closed [OF inv u(3,2) j(1)] v(2) by blast
  with j show ?thesis by (simp add: le_Suc_eq)
qed

lemma bfs_inv_skip:
  assumes "bfs_inv nb s t ms V par ((u, d) # Q) n" and "ms \<le> d"
  shows "bfs_inv nb s t ms V par Q n"
proof -
  note u = bfs_inv_queue(1,2,4) [OF assms(1)]
  have "V - fst ` set Q = insert u (V - fst ` set ((u, d) # Q))" using u by auto
  moreover have "\<not> (\<exists>k < ms. hops nb s u k)" using u(2) assms(2) by (auto dest: hops_unique)
  ultimately have "{v \<in> V - fst ` set Q. \<exists>k < ms. hops nb s v k} = {v \<in> V - fst ` set ((u, d) # Q). \<exists>k < ms. hops nb s v k}" by auto
  moreover have "snd e \<le> Suc (snd (hd Q))" if "e \<in> set Q" for e
  proof -
    have "hd Q \<in> set Q" using that by (cases Q) auto
    then show ?thesis using bfs_inv_queue(5) [OF assms(1), of "hd Q"] bfs_inv_queue(6) [OF assms(1) that] by simp
  qed
  moreover have "\<exists>k. hops nb s v k \<and> (k < ms \<longrightarrow> set (nb v) \<subseteq> V)" if "v \<in> V - fst ` set Q" for v
  proof (cases "v = u")
    case False
    with that obtain k where "hops nb s v k" "k < ms \<longrightarrow> set (nb v) \<subseteq> V" using bfs_inv_done [OF assms(1), of v] by auto
    then show ?thesis by blast
  qed (use u(2) assms(2) in auto)
  ultimately show ?thesis using assms(1) unfolding bfs_inv_def by simp
qed

lemma bfs_inv_expand:
  assumes inv: "bfs_inv nb s t ms V par ((u, d) # Q) n" and d: "d < ms" and nb: "distinct (nb u)" and t: "t \<notin> set (nb u) - V"
  defines "news \<equiv> filter (\<lambda>v. v \<notin> V) (nb u)"
  shows "bfs_inv nb s t ms (V \<union> set (nb u)) (\<lambda>v. if v \<in> set (nb u) - V then Some u else par v)
    (Q @ map (\<lambda>v. (v, Suc d)) news) (Suc n)"
proof -
  let ?V = "V \<union> set (nb u)" and ?Q = "Q @ map (\<lambda>v. (v, Suc d)) news"
  note u = bfs_inv_queue(1,2,4,7) [OF inv]
  have new: "set news = set (nb u) - V" by (auto simp: news_def)
  have fin: "?V - fst ` set ?Q = insert u (V - fst ` set ((u, d) # Q))" "u \<notin> V - fst ` set ((u, d) # Q)" using u by (auto simp: image_Un new image_image)
  have hops: "hops nb s v (Suc d)" if "v \<in> set news" for v using bfs_new_hops [OF inv] that by (simp add: new)
  have "{v \<in> ?V - fst ` set ?Q. \<exists>k < ms. hops nb s v k} = insert u {v \<in> V - fst ` set ((u, d) # Q). \<exists>k < ms. hops nb s v k}"
    unfolding fin(1) using u(2) d by auto
  then have "Suc n = card {v \<in> ?V - fst ` set ?Q. \<exists>k < ms. hops nb s v k}" using inv fin(2) by (simp add: bfs_inv_def)
  moreover have "\<forall>e \<in> set ?Q. fst e \<in> ?V \<and> hops nb s (fst e) (snd e) \<and> snd e \<le> ms" using inv d hops by (auto simp: bfs_inv_def new)
  moreover have "distinct (map fst ?Q)" using inv nb u(4) by (auto simp: bfs_inv_def comp_def new) (simp add: news_def)
  moreover have "sorted (map snd ?Q)"
    using inv bfs_inv_queue(6) [OF inv] by (auto simp: bfs_inv_def sorted_append comp_def sorted_wrt_map)
  moreover have "snd e \<le> Suc (snd (hd ?Q))" if "e \<in> set ?Q" for e
  proof -
    have "d \<le> snd e \<and> snd e \<le> Suc d" if "e \<in> set ?Q" for e using that bfs_inv_queue(5,6) [OF inv, of e] by auto
    moreover have "hd ?Q \<in> set ?Q" using that by (cases "?Q") auto
    ultimately show ?thesis using that by (meson Suc_le_mono le_trans)
  qed
  moreover have "\<exists>k. hops nb s v k \<and> (k < ms \<longrightarrow> set (nb v) \<subseteq> ?V)" if "v \<in> ?V - fst ` set ?Q" for v
  proof (cases "v = u")
    case False
    with that obtain k where "hops nb s v k" "k < ms \<longrightarrow> set (nb v) \<subseteq> V" using bfs_inv_done [OF inv, of v] unfolding fin(1) by auto
    then show ?thesis by blast
  qed (use u(2) in auto)
  moreover have "\<exists>p. (if v \<in> set (nb u) - V then Some u else par v) = Some p \<and> p \<in> ?V \<and> hops nb s p k \<and> v \<in> set (nb p)"
    if v: "v \<in> ?V" "hops nb s v (Suc k)" for v k
  proof (cases "v \<in> V")
    case True
    with bfs_inv_parent [OF inv True v(2)] show ?thesis by auto
  next
    case False
    with v hops [of v] have "k = d" by (auto simp: new dest: hops_unique)
    with False v u show ?thesis by auto
  qed
  ultimately show ?thesis using inv t unfolding bfs_inv_def by auto
qed

lemma bfs_found:
  assumes inv: "bfs_inv nb s t ms V par ((u, d) # Q) n" and d: "d < ms" and W: "W \<subseteq> set (nb u) - V" "t \<in> W"
    and par': "par' = (\<lambda>v. if v \<in> W then Some u else par v)"
  shows "\<exists>xs. reconstruct_path par' s t = Some xs \<and> is_walk nb s t xs \<and> length xs \<le> Suc ms \<and> hops nb s t (length xs - 1)"
proof -
  note u = bfs_inv_queue(1,2) [OF inv]
  have new: "hops nb s v (Suc d)" if "v \<in> W" for v using bfs_new_hops [OF inv] W(1) that by blast
  have "\<exists>p. par' v = Some p \<and> p \<in> V \<union> W \<and> hops nb s p k \<and> v \<in> set (nb p)" if v: "v \<in> V \<union> W" "hops nb s v (Suc k)" for v k
  proof (cases "v \<in> W")
    case True
    with new [OF True] v(2) have "k = d" by (auto dest: hops_unique)
    with True u W(1) show ?thesis by (auto simp: par')
  next
    case False
    with bfs_inv_parent [OF inv _ v(2)] v(1) show ?thesis by (auto simp: par')
  qed
  from reconstruct_walk [of "V \<union> W", OF this _ new [OF W(2)], of "[t]"] W(2) obtain xs where
    "reconstruct_loop par' s t [t] = Some ([t] @ xs)" "is_walk nb s t (rev (t # xs))" "length xs = Suc d" by auto
  with new [OF W(2)] d show ?thesis by (simp add: reconstruct_path_def)
qed

lemma reach_hops_less: "{v. \<exists>k < ms. reach nb s k v} = {v. \<exists>k < ms. hops nb s v k}"
  by (auto simp: hops_def) (metis hops_def hops_exists le_less_trans)

lemma bfs_budget:
  assumes inv: "bfs_inv nb s t ms V par ((u, d) # Q) n" and "d < ms"
  shows "n < card {v. \<exists>k < ms. reach nb s k v}"
proof -
  let ?A = "{v \<in> V - fst ` set ((u, d) # Q). \<exists>k < ms. hops nb s v k}"
  have "?A \<subset> {v. \<exists>k < ms. hops nb s v k}" using bfs_inv_queue(2) [OF inv] assms(2) by auto
  then have "card ?A < card {v. \<exists>k < ms. hops nb s v k}" by (intro psubset_card_mono) auto
  with inv show ?thesis unfolding reach_hops_less bfs_inv_def by simp
qed

lemma bfs_no_path:
  assumes "bfs_inv nb s t ms V par [] n" and "k \<le> ms"
  shows "\<not> reach nb s k t"
proof
  assume "reach nb s k t"
  then obtain j where j: "hops nb s t j" "j \<le> k" by (rule hops_exists)
  then have "t \<in> V" using assms(2) by (intro bfs_closed [OF assms(1), of ms t j]) auto
  with assms(1) show False by (simp add: bfs_inv_def)
qed

section \<open>Neighbours\<close>

lemma collect_rows_keeps:
  "collect_rows codec types f rows (ns, mt) = Inr (ns', mt') \<Longrightarrow>
   (distinct ns \<longrightarrow> distinct ns') \<and> visited_vertices mt' = visited_vertices mt"
proof (induction rows arbitrary: ns mt)
  case (Cons r rows)
  from Cons.prems Cons.IH show ?case by (fastforce split: sum.splits prod.splits if_splits)
qed simp

lemma collect_neighbor_vids_keeps:
  "collect_neighbor_vids ctx sp v types bi mt = Inr (ns, mt') \<Longrightarrow> distinct ns \<and> visited_vertices mt' = visited_vertices mt"
  by (auto simp: collect_neighbor_vids_def split: sum.splits if_splits dest!: collect_rows_keeps)

text \<open>The rows under every vertex can be read, and give the neighbours \<open>nb\<close>.\<close>

definition neighbours_are :: "('e, 'p) exec_context \<Rightarrow> bytes list \<Rightarrow> bool \<Rightarrow> (i64 \<Rightarrow> i64 list) \<Rightarrow> bool" where
  "neighbours_are ctx types bi nb \<longleftrightarrow>
     (\<forall>v mt. \<exists>mt'. collect_neighbor_vids ctx (query_space ctx) v types bi mt = Inr (nb v, mt'))"

lemma neighbours_distinct: "neighbours_are ctx types bi nb \<Longrightarrow> distinct (nb v)"
  unfolding neighbours_are_def using collect_neighbor_vids_keeps by blast

text \<open>What the answer of a query for a path says about the graph. \<open>N\<close> is the limit on the vertices that are expanded, zero for none.\<close>

fun path_answer ::
  "nat \<Rightarrow> (i64 \<Rightarrow> i64 list) \<Rightarrow> i64 \<Rightarrow> i64 \<Rightarrow> nat \<Rightarrow> 'e exec_error + i64 list option \<times> traversal_metrics \<Rightarrow> bool" where
  "path_answer N nb s t ms (Inl e) \<longleftrightarrow> e = TraversalExhausted \<and> 0 < N \<and> N < card {v. \<exists>k < ms. reach nb s k v}"
| "path_answer N nb s t ms (Inr (None, mt)) \<longleftrightarrow> (\<forall>xs. is_walk nb s t xs \<longrightarrow> Suc ms < length xs)"
| "path_answer N nb s t ms (Inr (Some xs, mt)) \<longleftrightarrow>
     is_walk nb s t xs \<and> length xs \<le> Suc ms \<and> (\<forall>ys. is_walk nb s t ys \<longrightarrow> length xs \<le> length ys)"

lemma walk_length: "is_walk nb s t xs \<Longrightarrow> reach nb s (length xs - 1) t"
  using walk_reach [of nb s t "length xs - 1"] by (cases xs) (auto simp: is_walk_def)

lemma hops_shortest:
  assumes "hops nb s t (length xs - 1)" and w: "is_walk nb s t ys"
  shows "length xs \<le> length ys"
proof -
  have "length xs - 1 \<le> length ys - 1" using assms(1) walk_length [OF w] unfolding hops_def by (meson not_le)
  moreover have "ys \<noteq> []" using w by (simp add: is_walk_def)
  ultimately show ?thesis by (cases ys) auto
qed

lemma bfs_loop_correct:
  assumes nb: "neighbours_are ctx types bi nb"
  shows "bfs_inv nb s t ms (bf_visited st) (bf_parent st) (bf_queue st) (visited_vertices (bf_metrics st)) \<Longrightarrow>
    \<exists>r. bfs_loop ctx s t types ms bi st = Some r \<and> path_answer (cx_max_traversal_nodes ctx) nb s t ms r"
proof (induction "card (- bf_visited st) + length (bf_queue st)" arbitrary: st rule: less_induct)
  case less
  show ?case
  proof (cases "bf_queue st")
    case Nil
    have "Suc ms < length xs" if w: "is_walk nb s t xs" for xs
      using bfs_no_path [OF less.prems [unfolded Nil], of "length xs - 1"] walk_length [OF w] by (cases xs) (auto, meson not_le)
    with Nil show ?thesis by (subst bfs_loop.simps) simp
  next
    case (Cons e Q)
    obtain u d where e: "e = (u, d)" by fastforce
    note inv = less.prems [unfolded Cons e]
    let ?st = "st\<lparr>bf_queue := Q\<rparr>" and ?N = "cx_max_traversal_nodes ctx" and ?mt = "bf_metrics st"
    consider (skip) "ms \<le> d" | (over) "d < ms" "0 < ?N \<and> ?N \<le> visited_vertices ?mt"
      | (expand) "d < ms" "\<not> (0 < ?N \<and> ?N \<le> visited_vertices ?mt)" by linarith
    then show ?thesis
    proof cases
      case skip
      from less.hyps [of ?st] bfs_inv_skip [OF inv skip] skip Cons e show ?thesis by (subst bfs_loop.simps) (simp add: Let_def)
    next
      case over
      with bfs_budget [OF inv over(1)] Cons e show ?thesis by (subst bfs_loop.simps) (simp add: Let_def)
    next
      case expand
      obtain mt' where c: "collect_neighbor_vids ctx (query_space ctx) u types bi (?mt\<lparr>visited_vertices := Suc (visited_vertices ?mt)\<rparr>) = Inr (nb u, mt')"
        using nb unfolding neighbours_are_def by blast
      note keeps = collect_neighbor_vids_keeps [OF c]
      obtain found st' where v: "bfs_visit t u d (nb u) (?st\<lparr>bf_metrics := mt'\<rparr>) = (found, st')" by fastforce
      have run: "bfs_loop ctx s t types ms bi st =
          (if found then map_option (\<lambda>path. Inr (Some path, bf_metrics st')) (reconstruct_path (bf_parent st') s t)
           else bfs_loop ctx s t types ms bi st')"
        using expand Cons e c v by (subst bfs_loop.simps) (auto simp: Let_def split: bool.split)
      show ?thesis
      proof (cases found)
        case True
        have "bfs_visit t u d (nb u) (?st\<lparr>bf_metrics := mt'\<rparr>) = (True, st')" using v True by simp
        from bfs_visit_True [OF this] obtain W where W: "W \<subseteq> set (nb u) - bf_visited (?st\<lparr>bf_metrics := mt'\<rparr>)" "t \<in> W"
          and par: "bf_parent st' = (\<lambda>v. if v \<in> W then Some u else bf_parent (?st\<lparr>bf_metrics := mt'\<rparr>) v)" by (elim exE conjE)
        have W': "W \<subseteq> set (nb u) - bf_visited st" using W(1) by simp
        have par': "bf_parent st' = (\<lambda>v. if v \<in> W then Some u else bf_parent st v)"
          unfolding par by (rule ext) simp
        obtain xs where xs: "reconstruct_path (bf_parent st') s t = Some xs" "is_walk nb s t xs" "length xs \<le> Suc ms"
          "hops nb s t (length xs - 1)"
          using bfs_found [OF inv expand(1) W' W(2) par'] by blast
        then have "path_answer ?N nb s t ms (Inr (Some xs, bf_metrics st'))" by (simp add: hops_shortest)
        with xs(1) run True show ?thesis by simp
      next
        case False
        have v': "bfs_visit t u d (nb u) (?st\<lparr>bf_metrics := mt'\<rparr>) = (False, st')" using v False by simp
        have eqs: "bf_visited (?st\<lparr>bf_metrics := mt'\<rparr>) = bf_visited st" "bf_parent (?st\<lparr>bf_metrics := mt'\<rparr>) = bf_parent st"
          "bf_queue (?st\<lparr>bf_metrics := mt'\<rparr>) = Q" by simp_all
        note st' = bfs_visit_False [OF v' keeps [THEN conjunct1], unfolded eqs]
        have "bfs_inv nb s t ms (bf_visited st') (bf_parent st') (bf_queue st') (visited_vertices (bf_metrics st'))"
          using bfs_inv_expand [OF inv expand(1) keeps [THEN conjunct1]] st' keeps by simp
        moreover have "card (- bf_visited st') + length (bf_queue st') < card (- bf_visited st) + length (bf_queue st)"
          using bfs_visit_measure [OF v'] Cons by simp
        ultimately show ?thesis using less.hyps run False by simp
      qed
    qed
  qed
qed

lemma shortest_path_answer:
  assumes "neighbours_are ctx edge_types bidirect nb"
  shows "\<exists>r. shortest_path ctx start target edge_types max_steps bidirect = Some r \<and>
    path_answer (cx_max_traversal_nodes ctx) nb start target max_steps r"
proof (cases "start = target")
  case True
  then show ?thesis by (auto simp: shortest_path_def is_walk_def Suc_le_eq)
next
  case False
  have "visited_vertices (record_frontier 1 metrics_default) = 0" by (simp add: record_frontier_def metrics_default_def)
  with bfs_loop_correct [OF assms, of start target max_steps "\<lparr>bf_visited = {start}, bf_parent = (\<lambda>_. None), bf_queue = [(start, 0)],
      bf_metrics = record_frontier 1 metrics_default\<rparr>"] bfs_inv_init [OF False, of nb max_steps] False
  show ?thesis by (simp add: shortest_path_def)
qed

section \<open>The rows of a graph\<close>

lemma split_on_Cons: "split_on c (b # bs) = (if b = c then [] # split_on c bs else (b # hd (split_on c bs)) # tl (split_on c bs))"
  by (simp add: split_on_def)

lemma split_on_not_Nil [simp]: "split_on c bs \<noteq> []"
  by (cases bs) (simp_all add: split_on_def)

lemma split_on_none: "c \<notin> set xs \<Longrightarrow> split_on c xs = [xs]"
  by (induction xs) (auto simp: split_on_Cons, simp add: split_on_def)

lemma split_on_append: "c \<notin> set xs \<Longrightarrow> split_on c (xs @ c # ys) = xs # split_on c ys"
  by (induction xs) (auto simp: split_on_Cons)

lemma split_on_join: "fs \<noteq> [] \<Longrightarrow> (\<And>f. f \<in> set fs \<Longrightarrow> c \<notin> set f) \<Longrightarrow> split_on c (join c fs) = fs"
  by (induction c fs rule: join.induct) (simp_all add: split_on_none split_on_append)

lemma dec_int_ascii: "list_all (\<lambda>b. b < 128) (dec_int i)"
proof -
  have "list_all (\<lambda>b. b < 128) (dec_nat n)" for n
    by (rule list.pred_mono_strong [OF dec_nat_digits]) (auto simp: is_digit_def elim: le_less_trans)
  then show ?thesis by (simp add: dec_int_def)
qed

lemma utf8_valid_join: "(\<And>f. f \<in> set fs \<Longrightarrow> utf8_valid f) \<Longrightarrow> utf8_valid (join 58 fs)"
proof (induction "58 :: u8" fs rule: join.induct)
  case (3 x y zs)
  have "utf8_valid (x @ [58] @ join 58 (y # zs))"
    by (intro utf8_valid_append) (use 3 in \<open>auto intro: utf8_valid_ascii\<close>)
  then show ?case by simp
qed (auto intro: utf8_valid_ascii)

text \<open>The keys of an edge, and the payload under both, for an encoder of the edge message.\<close>

definition edge_key :: "bytes \<Rightarrow> 'p edge_data \<Rightarrow> bytes" where
  "edge_key sp e = schema_edge_data sp (ed_src_vid e) (ed_edge_type e) (ed_dst_vid e) (ed_ranking e)"

definition in_edge_key :: "bytes \<Rightarrow> 'p edge_data \<Rightarrow> bytes" where
  "in_edge_key sp e = schema_in_edge_data sp (ed_dst_vid e) (ed_edge_type e) (ed_src_vid e) (ed_ranking e)"

text \<open>
  The store \<open>m\<close> holds the edges \<open>E\<close> in the space \<open>sp\<close>: under the two prefixes for edges lie the rows of \<open>E\<close> and nothing else.
  Other rows do not matter.
\<close>

definition graph_stored :: "('p edge_data \<Rightarrow> bytes) \<Rightarrow> bytes \<Rightarrow> (bytes \<Rightarrow> bytes option) \<Rightarrow> 'p edge_data set \<Rightarrow> bool" where
  "graph_stored enc sp m E \<longleftrightarrow>
     58 \<notin> set sp \<and> utf8_valid sp \<and>
     (\<forall>e \<in> E. ed_edge_type e \<noteq> [] \<and> 58 \<notin> set (ed_edge_type e) \<and> utf8_valid (ed_edge_type e)) \<and>
     (\<forall>k v. starts_with k (sp @ ascii '':edge:'') \<longrightarrow> (m k = Some v \<longleftrightarrow> (\<exists>e \<in> E. k = edge_key sp e \<and> v = PROTO_MAGIC # enc e))) \<and>
     (\<forall>k v. starts_with k (sp @ ascii '':in-edge:'') \<longrightarrow> (m k = Some v \<longleftrightarrow> (\<exists>e \<in> E. k = in_edge_key sp e \<and> v = PROTO_MAGIC # enc e)))"

definition graph_neighbours :: "'p edge_data set \<Rightarrow> bytes list \<Rightarrow> bool \<Rightarrow> i64 \<Rightarrow> i64 set" where
  "graph_neighbours E edge_types bidirect v =
     (let F = {e \<in> E. edge_types = [] \<or> ed_edge_type e \<in> set edge_types}
      in ed_dst_vid ` {e \<in> F. ed_src_vid e = v} \<union> (if bidirect then ed_src_vid ` {e \<in> F. ed_dst_vid e = v} else {}))"

lemma edge_key_fields:
  "edge_key sp e = join 58 [sp, ascii ''edge'', dec_int (sint (ed_src_vid e)), ed_edge_type e, dec_int (sint (ed_dst_vid e)), dec_int (sint (ed_ranking e))]"
  "in_edge_key sp e = join 58 [sp, ascii ''in-edge'', dec_int (sint (ed_dst_vid e)), ed_edge_type e, dec_int (sint (ed_src_vid e)), dec_int (sint (ed_ranking e))]"
  by (simp_all add: edge_key_def in_edge_key_def schema_edge_data_def schema_in_edge_data_def ascii_def)

lemma edge_key_row:
  assumes "58 \<notin> set sp" "utf8_valid sp" "ed_edge_type e \<noteq> []" "58 \<notin> set (ed_edge_type e)" "utf8_valid (ed_edge_type e)"
    and "ec_proto_decode codec (enc e) = Some e" and k: "k = edge_key sp e \<or> k = in_edge_key sp e"
  shows "edge_type_from_key k = Some (ed_edge_type e)" and "decode_query_edge codec k (PROTO_MAGIC # enc e) = Inr e"
proof -
  have a: "58 \<notin> set (ascii ''edge'')" "58 \<notin> set (ascii ''in-edge'')" "utf8_valid (ascii ''edge'')" "utf8_valid (ascii ''in-edge'')"
    by (auto simp: ascii_def intro: utf8_valid_ascii)
  have u: "utf8_valid k" using k unfolding edge_key_fields
    by (auto intro!: utf8_valid_join simp del: join.simps simp: a assms utf8_valid_ascii [OF dec_int_ascii])
  have s: "split_on 58 (edge_key sp e) =
      [sp, ascii ''edge'', dec_int (sint (ed_src_vid e)), ed_edge_type e, dec_int (sint (ed_dst_vid e)), dec_int (sint (ed_ranking e))]"
    "split_on 58 (in_edge_key sp e) =
      [sp, ascii ''in-edge'', dec_int (sint (ed_dst_vid e)), ed_edge_type e, dec_int (sint (ed_src_vid e)), dec_int (sint (ed_ranking e))]"
    unfolding edge_key_fields using assms(1,4) a by (subst split_on_join; auto)+
  show "edge_type_from_key k = Some (ed_edge_type e)" "decode_query_edge codec k (PROTO_MAGIC # enc e) = Inr e"
    using k u assms(3,6) s by (elim disjE; simp add: edge_type_from_key_def decode_query_edge_def is_proto_format_def decode_edge_def parse_i64_dec Let_def)+
qed

lemma collect_rows_good:
  assumes "\<forall>r \<in> set rows. \<exists>e. edge_type_from_key (fst r) = Some (ed_edge_type e) \<and> decode_query_edge codec (fst r) (snd r) = (Inr e :: 'e exec_error + 'p edge_data)"
  shows "\<exists>ns'. (\<forall>mt. \<exists>mt'. collect_rows codec types f (map Inr rows :: ('e + bytes \<times> bytes) list) (ns, mt) = Inr (ns', mt')) \<and>
    set ns' = set ns \<union> {f e | e r. r \<in> set rows \<and> decode_query_edge codec (fst r) (snd r) = (Inr e :: 'e exec_error + 'p edge_data) \<and>
      (types = [] \<or> ed_edge_type e \<in> set types)}"
  using assms
proof (induction rows arbitrary: ns)
  case (Cons r rows)
  obtain k v where r: "r = (k, v)" by fastforce
  from Cons.prems r obtain e where e: "edge_type_from_key k = Some (ed_edge_type e)"
    "decode_query_edge codec k v = (Inr e :: 'e exec_error + 'p edge_data)" by auto
  show ?case
  proof (cases "types = [] \<or> ed_edge_type e \<in> set types")
    case True
    from Cons.IH [of "if f e \<in> set ns then ns else ns @ [f e]"] Cons.prems obtain ns' where
      "\<forall>mt. \<exists>mt'. collect_rows codec types f (map Inr rows :: ('e + bytes \<times> bytes) list) (if f e \<in> set ns then ns else ns @ [f e], mt) = Inr (ns', mt')"
      and "set ns' = set (if f e \<in> set ns then ns else ns @ [f e]) \<union> {f e | e r. r \<in> set rows \<and>
        decode_query_edge codec (fst r) (snd r) = (Inr e :: 'e exec_error + 'p edge_data) \<and> (types = [] \<or> ed_edge_type e \<in> set types)}" by auto
    with True e r show ?thesis by (intro exI [of _ ns']) (auto simp: if_distrib [of set])
  next
    case False
    have "{f e | e r'. r' \<in> set (r # rows) \<and> decode_query_edge codec (fst r') (snd r') = (Inr e :: 'e exec_error + 'p edge_data) \<and>
          (types = [] \<or> ed_edge_type e \<in> set types)} =
        {f e | e r. r \<in> set rows \<and> decode_query_edge codec (fst r) (snd r) = (Inr e :: 'e exec_error + 'p edge_data) \<and>
          (types = [] \<or> ed_edge_type e \<in> set types)}"
      using False e r by auto
    with Cons.IH [of ns] Cons.prems False e r show ?thesis by simp
  qed
qed simp

lemma starts_with_trans: "starts_with k (p @ q) \<Longrightarrow> starts_with k p"
  by (auto simp: starts_with_iff)

lemma edge_key_prefix:
  assumes "58 \<notin> set sp" "58 \<notin> set (ed_edge_type e)"
  shows "starts_with (edge_key sp e) (schema_edge_data_src_prefix sp v) \<longleftrightarrow> ed_src_vid e = v"
    and "starts_with (in_edge_key sp e) (schema_in_edge_data_dst_prefix sp v) \<longleftrightarrow> ed_dst_vid e = v"
proof -
  have a: "58 \<notin> set (ascii ''edge'')" "58 \<notin> set (ascii ''in-edge'')" by (simp_all add: ascii_def)
  show "starts_with (edge_key sp e) (schema_edge_data_src_prefix sp v) \<longleftrightarrow> ed_src_vid e = v"
    unfolding edge_key_fields prefix_fields using assms a by (subst starts_with_join) (auto simp: i64_eq_sint)
  show "starts_with (in_edge_key sp e) (schema_in_edge_data_dst_prefix sp v) \<longleftrightarrow> ed_dst_vid e = v"
    unfolding edge_key_fields prefix_fields using assms a by (subst starts_with_join) (auto simp: i64_eq_sint)
qed

text \<open>The rows of one prefix, where \<open>key\<close> gives the key of an edge and \<open>end\<close> the end of the edge that the prefix fixes.\<close>

lemma rows_of_edges:
  assumes rows: "rows_of m p rs" and key: "\<And>e. e \<in> E \<Longrightarrow> starts_with (key e) p \<longleftrightarrow> at e = v"
    and m: "\<And>k w. starts_with k p \<Longrightarrow> m k = Some w \<longleftrightarrow> (\<exists>e \<in> E. k = key e \<and> w = pay e)"
  shows "set rs = (\<lambda>e. (key e, pay e)) ` {e \<in> E. at e = v}"
proof -
  have "distinct (map fst rs)" using rows by (simp add: rows_of_def btree_ok_distinct)
  then have "(k, w) \<in> set rs \<longleftrightarrow> starts_with k p \<and> m k = Some w" for k w
    using rows map_of_eq_Some_iff [of rs k w] by (auto simp: rows_of_def split: if_splits)
  then show ?thesis using key m by (auto simp: image_iff) metis+
qed

lemma graph_stored_rows:
  assumes stored: "graph_stored enc sp m E" and codec: "\<And>e. e \<in> E \<Longrightarrow> ec_proto_decode codec (enc e) = Some e"
    and e: "e \<in> E" and k: "k = edge_key sp e \<or> k = in_edge_key sp e"
  shows "edge_type_from_key k = Some (ed_edge_type e)" and "decode_query_edge codec k (PROTO_MAGIC # enc e) = Inr e"
  using edge_key_row [of sp e codec enc k] stored codec [OF e] e k by (auto simp: graph_stored_def)

lemma graph_stored_src_rows:
  assumes stored: "graph_stored enc sp m E" and "rows_of m (schema_edge_data_src_prefix sp v) rs"
  shows "set rs = (\<lambda>e. (edge_key sp e, PROTO_MAGIC # enc e)) ` {e \<in> E. ed_src_vid e = v}"
proof (rule rows_of_edges [OF assms(2)])
  show "starts_with (edge_key sp e) (schema_edge_data_src_prefix sp v) \<longleftrightarrow> ed_src_vid e = v" if "e \<in> E" for e
    using edge_key_prefix(1) stored that by (auto simp: graph_stored_def)
  show "m k = Some w \<longleftrightarrow> (\<exists>e \<in> E. k = edge_key sp e \<and> w = PROTO_MAGIC # enc e)" if "starts_with k (schema_edge_data_src_prefix sp v)" for k w
    using starts_with_trans [of k "sp @ ascii '':edge:''"] that stored by (auto simp: graph_stored_def schema_edge_data_src_prefix_def)
qed

lemma graph_stored_dst_rows:
  assumes stored: "graph_stored enc sp m E" and "rows_of m (schema_in_edge_data_dst_prefix sp v) rs"
  shows "set rs = (\<lambda>e. (in_edge_key sp e, PROTO_MAGIC # enc e)) ` {e \<in> E. ed_dst_vid e = v}"
proof (rule rows_of_edges [OF assms(2)])
  show "starts_with (in_edge_key sp e) (schema_in_edge_data_dst_prefix sp v) \<longleftrightarrow> ed_dst_vid e = v" if "e \<in> E" for e
    using edge_key_prefix(2) stored that by (auto simp: graph_stored_def)
  show "m k = Some w \<longleftrightarrow> (\<exists>e \<in> E. k = in_edge_key sp e \<and> w = PROTO_MAGIC # enc e)" if "starts_with k (schema_in_edge_data_dst_prefix sp v)" for k w
    using starts_with_trans [of k "sp @ ascii '':in-edge:''"] that stored by (auto simp: graph_stored_def schema_in_edge_data_dst_prefix_def)
qed

text \<open>Collecting from the rows of some of the edges adds the chosen ends of those with an admitted type.\<close>

lemma collect_graph_rows:
  fixes codec :: "'p edge_codec"
  assumes stored: "graph_stored enc sp m E" and codec: "\<And>e. e \<in> E \<Longrightarrow> ec_proto_decode codec (enc e) = Some e"
    and rows: "set rs = (\<lambda>e. (key e, PROTO_MAGIC # enc e)) ` F" and F: "F \<subseteq> E" and key: "\<And>e. e \<in> E \<Longrightarrow> key e = edge_key sp e \<or> key e = in_edge_key sp e"
  obtains ns' where "\<And>mt. \<exists>mt'. collect_rows codec types f (map Inr rs :: ('e + bytes \<times> bytes) list) (ns, mt) = Inr (ns', mt')"
    and "set ns' = set ns \<union> f ` {e \<in> F. types = [] \<or> ed_edge_type e \<in> set types}"
proof -
  have row: "edge_type_from_key (key e) = Some (ed_edge_type e)"
    "decode_query_edge codec (key e) (PROTO_MAGIC # enc e) = (Inr e :: 'e exec_error + 'p edge_data)" if "e \<in> F" for e
    using graph_stored_rows [OF stored codec, of e "key e"] key F that by auto
  have good: "\<forall>r \<in> set rs. \<exists>e. edge_type_from_key (fst r) = Some (ed_edge_type e) \<and> decode_query_edge codec (fst r) (snd r) = (Inr e :: 'e exec_error + 'p edge_data)"
    using row by (auto simp: rows)
  have "{f e | e r. r \<in> set rs \<and> decode_query_edge codec (fst r) (snd r) = (Inr e :: 'e exec_error + 'p edge_data) \<and> (types = [] \<or> ed_edge_type e \<in> set types)} =
      f ` {e \<in> F. types = [] \<or> ed_edge_type e \<in> set types}"
    unfolding rows using row(2) by (auto simp: image_iff) 
  with collect_rows_good [OF good, of types f ns] that show ?thesis by auto
qed

lemma collect_graph_neighbours:
  fixes ctx :: "('e, 'p) exec_context"
  assumes stored: "graph_stored enc sp m E" and codec: "\<And>e. e \<in> E \<Longrightarrow> ec_proto_decode (cx_codec ctx) (enc e) = Some e"
    and scan: "\<And>p. \<exists>rs. cx_scan_stream ctx p = Inr (map Inr rs) \<and> rows_of m p rs"
  shows "\<exists>ns. (\<forall>mt. \<exists>mt'. collect_neighbor_vids ctx sp v types bi mt = Inr (ns, mt')) \<and> set ns = graph_neighbours E types bi v"
proof -
  obtain rs where rs: "cx_scan_stream ctx (schema_edge_data_src_prefix sp v) = Inr (map Inr rs)" "rows_of m (schema_edge_data_src_prefix sp v) rs"
    using scan by blast
  obtain rs' where rs': "cx_scan_stream ctx (schema_in_edge_data_dst_prefix sp v) = Inr (map Inr rs')" "rows_of m (schema_in_edge_data_dst_prefix sp v) rs'"
    using scan by blast
  obtain ns where ns: "\<And>mt. \<exists>mt'. collect_rows (cx_codec ctx) types ed_dst_vid (map Inr rs :: ('e + bytes \<times> bytes) list) ([], mt) = Inr (ns, mt')"
    "set ns = set [] \<union> ed_dst_vid ` {e \<in> {e \<in> E. ed_src_vid e = v}. types = [] \<or> ed_edge_type e \<in> set types}"
    by (rule collect_graph_rows [OF stored codec graph_stored_src_rows [OF stored rs(2)], of types ed_dst_vid "[]"]) auto
  obtain ns' where ns': "\<And>mt. \<exists>mt'. collect_rows (cx_codec ctx) types ed_src_vid (map Inr rs' :: ('e + bytes \<times> bytes) list) (ns, mt) = Inr (ns', mt')"
    "set ns' = set ns \<union> ed_src_vid ` {e \<in> {e \<in> E. ed_dst_vid e = v}. types = [] \<or> ed_edge_type e \<in> set types}"
    by (rule collect_graph_rows [OF stored codec graph_stored_dst_rows [OF stored rs'(2)], of types ed_src_vid ns]) auto
  have "\<exists>mt'. collect_neighbor_vids ctx sp v types bi mt = Inr (if bi then ns' else ns, mt')" for mt
  proof -
    obtain mt1 where "collect_rows (cx_codec ctx) types ed_dst_vid (map Inr rs :: ('e + bytes \<times> bytes) list) ([], mt) = Inr (ns, mt1)" using ns(1) by blast
    moreover obtain mt2 where "collect_rows (cx_codec ctx) types ed_src_vid (map Inr rs' :: ('e + bytes \<times> bytes) list) (ns, mt1) = Inr (ns', mt2)" using ns'(1) by blast
    ultimately show ?thesis using rs(1) rs'(1) by (simp add: collect_neighbor_vids_def schema_edge_data_src_prefix_def)
  qed
  moreover have "set (if bi then ns' else ns) = graph_neighbours E types bi v"
    using ns(2) ns'(2) by (auto simp: graph_neighbours_def Let_def)
  ultimately show ?thesis by blast
qed

text \<open>
  What a path query reads from the store is the graph. If the rows under the two edge prefixes of the queried space are those of the edges \<open>E\<close>,
  the scans give the rows under a prefix, and the decoder undoes the encoder, then the search succeeds at every
  vertex and its neighbours are the vertices that an edge of \<open>E\<close> of an admitted type leads to, or with \<open>BIDIRECT\<close>
  comes from; the rows of other vertices, types and spaces are never followed, and no row is refused.
\<close>
lemma neighbours_exact:
  assumes stored: "graph_stored enc (query_space ctx) m E"
    and codec: "\<And>e. e \<in> E \<Longrightarrow> ec_proto_decode (cx_codec ctx) (enc e) = Some e"
    and scan: "\<And>p. \<exists>rs. cx_scan_stream ctx p = Inr (map Inr rs) \<and> rows_of m p rs"
  shows "\<exists>nb. neighbours_are ctx edge_types bidirect nb \<and> (\<forall>v. set (nb v) = graph_neighbours E edge_types bidirect v)"
proof -
  have "\<forall>v. \<exists>ns. (\<forall>mt. \<exists>mt'. collect_neighbor_vids ctx (query_space ctx) v edge_types bidirect mt = Inr (ns, mt')) \<and>
      set ns = graph_neighbours E edge_types bidirect v"
    using collect_graph_neighbours [OF stored codec scan] by blast
  from choice [OF this] show ?thesis unfolding neighbours_are_def by blast
qed

section \<open>Writing an edge\<close>

definition same_edge :: "'p edge_data \<Rightarrow> 'p edge_data \<Rightarrow> bool" where
  "same_edge e e' \<longleftrightarrow>
     ed_src_vid e = ed_src_vid e' \<and> ed_edge_type e = ed_edge_type e' \<and> ed_dst_vid e = ed_dst_vid e' \<and> ed_ranking e = ed_ranking e'"

lemma edge_key_inject:
  assumes "58 \<notin> set sp" "58 \<notin> set (ed_edge_type e)" "58 \<notin> set (ed_edge_type e')"
  shows "edge_key sp e = edge_key sp e' \<longleftrightarrow> same_edge e e'" and "in_edge_key sp e = in_edge_key sp e' \<longleftrightarrow> same_edge e e'"
proof -
  have a: "58 \<notin> set (ascii ''edge'')" "58 \<notin> set (ascii ''in-edge'')" by (simp_all add: ascii_def)
  show "edge_key sp e = edge_key sp e' \<longleftrightarrow> same_edge e e'" "in_edge_key sp e = in_edge_key sp e' \<longleftrightarrow> same_edge e e'"
    unfolding edge_key_fields using assms a
    by (auto simp: same_edge_def i64_eq_sint simp del: join.simps dest!: join_inject [rotated 4])
qed

lemma edge_key_starts:
  "starts_with (edge_key sp e) (sp @ ascii '':edge:'')" "\<not> starts_with (edge_key sp e) (sp @ ascii '':in-edge:'')"
  "starts_with (in_edge_key sp e) (sp @ ascii '':in-edge:'')" "\<not> starts_with (in_edge_key sp e) (sp @ ascii '':edge:'')"
  by (auto simp: edge_key_def in_edge_key_def schema_edge_data_def schema_in_edge_data_def starts_with_iff ascii_def)

text \<open>Writing the two rows of an edge, as an insertion does in one batch, adds the edge and replaces the one with its key.\<close>

lemma graph_stored_put:
  assumes stored: "graph_stored enc sp m E"
    and e: "ed_edge_type e \<noteq> []" "58 \<notin> set (ed_edge_type e)" "utf8_valid (ed_edge_type e)"
  shows "graph_stored enc sp (m(edge_key sp e \<mapsto> PROTO_MAGIC # enc e, in_edge_key sp e \<mapsto> PROTO_MAGIC # enc e)) (insert e {e' \<in> E. \<not> same_edge e e'})"
proof -
  have sp: "58 \<notin> set sp" and E: "\<And>e'. e' \<in> E \<Longrightarrow> 58 \<notin> set (ed_edge_type e')" using stored by (auto simp: graph_stored_def)
  note inj = edge_key_inject [OF sp e(2) E]
  have ne: "edge_key sp e \<noteq> in_edge_key sp e'" for e' using edge_key_starts(1) [of sp e] edge_key_starts(4) [of sp e'] by auto
  show ?thesis unfolding graph_stored_def
  proof (intro conjI allI impI)
    fix k v
    assume k: "starts_with k (sp @ ascii '':edge:'')"
    then have "k \<noteq> in_edge_key sp e" using edge_key_starts(4) by blast
    moreover have "m k = Some v \<longleftrightarrow> (\<exists>e \<in> E. k = edge_key sp e \<and> v = PROTO_MAGIC # enc e)" using stored k by (simp add: graph_stored_def)
    ultimately show "(m(edge_key sp e \<mapsto> PROTO_MAGIC # enc e, in_edge_key sp e \<mapsto> PROTO_MAGIC # enc e)) k = Some v \<longleftrightarrow>
        (\<exists>e \<in> insert e {e' \<in> E. \<not> same_edge e e'}. k = edge_key sp e \<and> v = PROTO_MAGIC # enc e)"
      using inj(1) by (cases "k = edge_key sp e") (auto, metis)
  next
    fix k v
    assume k: "starts_with k (sp @ ascii '':in-edge:'')"
    then have "k \<noteq> edge_key sp e" using edge_key_starts(2) by blast
    moreover have "m k = Some v \<longleftrightarrow> (\<exists>e \<in> E. k = in_edge_key sp e \<and> v = PROTO_MAGIC # enc e)" using stored k by (simp add: graph_stored_def)
    ultimately show "(m(edge_key sp e \<mapsto> PROTO_MAGIC # enc e, in_edge_key sp e \<mapsto> PROTO_MAGIC # enc e)) k = Some v \<longleftrightarrow>
        (\<exists>e \<in> insert e {e' \<in> E. \<not> same_edge e e'}. k = in_edge_key sp e \<and> v = PROTO_MAGIC # enc e)"
      using inj(2) by (cases "k = in_edge_key sp e") (auto, metis)
  qed (use stored e in \<open>auto simp: graph_stored_def\<close>)
qed

lemma graph_stored_empty: "58 \<notin> set sp \<Longrightarrow> utf8_valid sp \<Longrightarrow> graph_stored enc sp (\<lambda>_. None) {}"
  by (simp add: graph_stored_def)

text \<open>Edges written to the in-memory store one after the other, and those that remain: the last one of each key.\<close>

definition put_edge :: "('p edge_data \<Rightarrow> bytes) \<Rightarrow> bytes \<Rightarrow> memory_kv \<Rightarrow> 'p edge_data \<Rightarrow> memory_kv" where
  "put_edge enc sp s e = memory_put (memory_put s (edge_key sp e) (PROTO_MAGIC # enc e)) (in_edge_key sp e) (PROTO_MAGIC # enc e)"

definition current_edges :: "'p edge_data list \<Rightarrow> 'p edge_data set" where
  "current_edges es = foldl (\<lambda>E e. insert e {e' \<in> E. \<not> same_edge e e'}) {} es"

definition type_name_ok :: "'p edge_data \<Rightarrow> bool" where
  "type_name_ok e \<longleftrightarrow> ed_edge_type e \<noteq> [] \<and> 58 \<notin> set (ed_edge_type e) \<and> utf8_valid (ed_edge_type e)"

lemma current_edges_snoc: "current_edges (es @ [e]) = insert e {e' \<in> current_edges es. \<not> same_edge e e'}"
  by (simp add: current_edges_def)

lemma memory_get_put_edge:
  "memory_get (put_edge enc sp s e) = (memory_get s)(edge_key sp e \<mapsto> PROTO_MAGIC # enc e, in_edge_key sp e \<mapsto> PROTO_MAGIC # enc e)"
  by (simp add: put_edge_def)

lemma current_edges_subset: "current_edges es \<subseteq> set es"
  by (induction es rule: rev_induct) (auto simp: current_edges_def)

lemma put_edges_stored:
  assumes sp: "58 \<notin> set sp" "utf8_valid sp"
  shows "\<forall>e \<in> set es. type_name_ok e \<Longrightarrow> graph_stored enc sp (memory_get (foldl (put_edge enc sp) memory_new es)) (current_edges es)"
proof (induction es rule: rev_induct)
  case Nil
  have "memory_get memory_new = (\<lambda>_. None)" by (simp add: memory_get_def memory_new_def fun_eq_iff)
  with graph_stored_empty [OF sp] show ?case by (simp add: current_edges_def)
next
  case (snoc e es)
  then have ok: "ed_edge_type e \<noteq> []" "58 \<notin> set (ed_edge_type e)" "utf8_valid (ed_edge_type e)" and "\<forall>e \<in> set es. type_name_ok e"
    by (auto simp: type_name_ok_def)
  from graph_stored_put [OF snoc.IH [OF this(4)] ok] show ?case
    by (simp only: current_edges_snoc foldl_append foldl.simps memory_get_put_edge)
qed

lemma put_edges_scan: "rows_of (memory_get (foldl (put_edge enc sp) memory_new es)) p (memory_scan_stream (foldl (put_edge enc sp) memory_new es) p)"
proof -
  have "memory_ok (foldl (put_edge enc sp) memory_new es)"
  proof (induction es rule: rev_induct)
    case Nil
    show ?case by (simp add: memory_ok_def memory_new_def)
  qed (simp add: put_edge_def memory_ok_put)
  from memory_scan_rows_of [OF this] show ?thesis by (simp add: memory_scan_stream_def memory_scan_prefix_def)
qed

section \<open>A graph with the edges 1 to 2 and 2 to 3\<close>

definition chain_edge :: "i64 \<Rightarrow> i64 \<Rightarrow> unit edge_data" where
  "chain_edge a b = \<lparr>ed_src_vid = a, ed_dst_vid = b, ed_edge_type = ascii ''knows'', ed_ranking = 0, ed_properties = ()\<rparr>"

definition chain_enc :: "unit edge_data \<Rightarrow> bytes" where
  "chain_enc e = (if ed_src_vid e = 1 then [1] else [2])"

definition chain_store :: memory_kv where
  "chain_store = foldl (put_edge chain_enc (ascii ''default'')) memory_new [chain_edge 1 2, chain_edge 2 3]"

definition chain_ctx :: "(unit, unit) exec_context" where
  "chain_ctx =
     \<lparr>cx_space = None, cx_max_traversal_nodes = 0,
      cx_codec =
        \<lparr>ec_proto_decode = (\<lambda>bs. Some (if bs = [1] then chain_edge 1 2 else chain_edge 2 3)), ec_json_parse = (\<lambda>_. None),
         ec_json_properties = (\<lambda>_. ())\<rparr>,
      cx_scan_stream = (\<lambda>p. Inr (map Inr (memory_scan_stream chain_store p)))\<rparr>"

lemma chain_name_ok: "58 \<notin> set (ascii ''default'')" "utf8_valid (ascii ''default'')" "type_name_ok (chain_edge a b)"
  by (auto simp: chain_edge_def type_name_ok_def ascii_def intro: utf8_valid_ascii)

lemma chain_current: "current_edges [chain_edge 1 2, chain_edge 2 3] = {chain_edge 1 2, chain_edge 2 3}"
  by (auto simp: current_edges_def same_edge_def chain_edge_def)

lemma chain_stored: "graph_stored chain_enc (query_space chain_ctx) (memory_get chain_store) {chain_edge 1 2, chain_edge 2 3}"
proof -
  have "query_space chain_ctx = ascii ''default''" by (simp add: query_space_def chain_ctx_def)
  with put_edges_stored [OF chain_name_ok(1,2), of "[chain_edge 1 2, chain_edge 2 3]" chain_enc] show ?thesis
    by (simp add: chain_current chain_name_ok chain_store_def)
qed

lemma chain_scan: "\<exists>rs. cx_scan_stream chain_ctx p = Inr (map Inr rs) \<and> rows_of (memory_get chain_store) p rs"
  using put_edges_scan [of chain_enc "ascii ''default''" "[chain_edge 1 2, chain_edge 2 3]" p]
  by (auto simp: chain_ctx_def chain_store_def)

lemma chain_codec:
  "e \<in> {chain_edge 1 2, chain_edge 2 3} \<Longrightarrow> ec_proto_decode (cx_codec chain_ctx) (chain_enc e) = Some e"
  by (auto simp: chain_ctx_def chain_enc_def chain_edge_def)

lemma chain_neighbours:
  "\<exists>nb. neighbours_are chain_ctx edge_types bidirect nb \<and> (\<forall>v. set (nb v) = graph_neighbours {chain_edge 1 2, chain_edge 2 3} edge_types bidirect v)"
  by (rule neighbours_exact [OF chain_stored chain_codec chain_scan])

section \<open>Properties\<close>

text \<open>
  C17. \<open>FIND SHORTEST PATH\<close> always returns, and its answer is right for the graph that the rows give. A path it returns is a walk from the
  start to the target of at most \<open>max_steps\<close> hops, and no walk is shorter. When it says there is no path, every walk to the target is longer
  than \<open>max_steps\<close> hops. It gives up only when a limit is set and more vertices than the limit lie less than
  \<open>max_steps\<close> hops away, and then it raises an error rather than an answer.
\<close>
theorem shortest_path_correct:
  assumes "neighbours_are ctx edge_types bidirect nb"
  shows "\<exists>r. shortest_path ctx start target edge_types max_steps bidirect = Some r \<and>
    path_answer (cx_max_traversal_nodes ctx) nb start target max_steps r"
  using assms by (rule shortest_path_answer)

theorem shortest_path_correct_witness:
  "\<exists>nb r. (\<forall>v. set (nb v) = graph_neighbours {chain_edge 1 2, chain_edge 2 3} [] False v) \<and>
     shortest_path chain_ctx 1 3 [] 5 False = Some r \<and> path_answer (cx_max_traversal_nodes chain_ctx) nb 1 3 5 r"
  using chain_neighbours [of "[]" False] shortest_path_correct by blast

end
