(* ===== verification/AllPaths.thy ===== *)
theory AllPaths
  imports FindPath
begin

text \<open>
  The correctness of \<open>FIND ALL SHORTEST PATHS\<close>: the search by levels finds, for every vertex up to the distance of the target, its
  distance and all the vertices before it on shortest paths, and the enumeration turns them into the paths.
\<close>

declare level_loop.simps [simp del]

section \<open>The levels of all shortest paths\<close>

lemma level_visit_depth:
  "lv_depth (level_visit t d u ns st) v = (if v \<in> set ns \<and> lv_depth st v = None then Some (Suc d) else lv_depth st v)"
  by (induction ns arbitrary: st) (auto split: option.split)

lemma level_visit_found: "lv_found (level_visit t d u ns st) \<longleftrightarrow> lv_found st \<or> t \<in> set ns \<and> lv_depth st t = None"
  by (induction ns arbitrary: st) (auto split: option.split)

lemma level_visit_next:
  "distinct ns \<Longrightarrow> lv_next (level_visit t d u ns st) = lv_next st @ filter (\<lambda>v. lv_depth st v = None) ns"
proof (induction ns arbitrary: st)
  case (Cons n ns)
  have "filter (\<lambda>v. ((lv_depth st)(n \<mapsto> Suc d)) v = None) ns = filter (\<lambda>v. lv_depth st v = None) ns"
    using Cons.prems by (intro filter_cong) auto
  with Cons show ?case by (auto split: option.split)
qed simp

text \<open>The parents of a vertex after the visit.\<close>

definition new_parents :: "i64 \<Rightarrow> nat \<Rightarrow> level_state \<Rightarrow> i64 \<Rightarrow> i64 list option" where
  "new_parents u d st v =
     (case lv_depth st v of
        None \<Rightarrow> Some [u]
      | Some dv \<Rightarrow> (if dv = Suc d then Some ((case lv_parents st v of None \<Rightarrow> [] | Some us \<Rightarrow> us) @ [u]) else lv_parents st v))"

lemma level_visit_parents_other: "v \<notin> set ns \<Longrightarrow> lv_parents (level_visit t d u ns st) v = lv_parents st v"
  by (induction ns arbitrary: st) (auto split: option.split)

lemma level_visit_parents:
  "distinct ns \<Longrightarrow> v \<in> set ns \<Longrightarrow> lv_parents (level_visit t d u ns st) v = new_parents u d st v"
proof (induction ns arbitrary: st)
  case (Cons n ns)
  show ?case
  proof (cases "v = n")
    case True
    with Cons.prems show ?thesis by (auto simp: level_visit_parents_other new_parents_def split: option.split)
  next
    case False
    with Cons show ?thesis by (auto simp: new_parents_def split: option.split)
  qed
qed simp

text \<open>
  The state in the middle of a level, when the vertices \<open>P\<close> at distance \<open>d\<close> have been expanded. Between two levels, \<open>P\<close> is
  the whole level.
\<close>

definition level_inv :: "(i64 \<Rightarrow> i64 list) \<Rightarrow> i64 \<Rightarrow> i64 \<Rightarrow> nat \<Rightarrow> i64 set \<Rightarrow> level_state \<Rightarrow> bool" where
  "level_inv nb s t d P st \<longleftrightarrow>
     (\<forall>v k. lv_depth st v = Some k \<longleftrightarrow> hops nb s v k \<and> (k \<le> d \<or> k = Suc d \<and> (\<exists>u \<in> P. v \<in> set (nb u)))) \<and>
     (\<forall>v k. hops nb s v (Suc k) \<longrightarrow> k < d \<or> k = d \<and> (\<exists>u \<in> P. v \<in> set (nb u)) \<longrightarrow>
        (\<exists>us. lv_parents st v = Some us \<and> distinct us \<and> set us = {u. hops nb s u k \<and> v \<in> set (nb u) \<and> (k = d \<longrightarrow> u \<in> P)})) \<and>
     distinct (lv_next st) \<and> set (lv_next st) = {v. hops nb s v (Suc d) \<and> (\<exists>u \<in> P. v \<in> set (nb u))} \<and>
     (lv_found st \<longleftrightarrow> (\<exists>k. hops nb s t k \<and> (k \<le> d \<or> k = Suc d \<and> (\<exists>u \<in> P. t \<in> set (nb u)))))"

lemma level_inv_depth_None:
  assumes "level_inv nb s t d P st" and "hops nb s u d" and "v \<in> set (nb u)"
  shows "lv_depth st v = None \<longleftrightarrow> hops nb s v (Suc d) \<and> (\<forall>u \<in> P. v \<notin> set (nb u))"
proof -
  obtain j where j: "hops nb s v j" "j \<le> Suc d" using hops_succ_le [OF assms(2,3)] .
  have "lv_depth st v = Some k \<longleftrightarrow> hops nb s v k \<and> (k \<le> d \<or> k = Suc d \<and> (\<exists>u \<in> P. v \<in> set (nb u)))" for k
    using assms(1) unfolding level_inv_def by blast
  then have "lv_depth st v = None \<longleftrightarrow> \<not> (j \<le> d \<or> j = Suc d \<and> (\<exists>u \<in> P. v \<in> set (nb u)))"
    using j(1) by (metis hops_unique not_None_eq)
  with j show ?thesis by (auto simp: le_Suc_eq dest: hops_unique)
qed

lemma level_inv_parents:
  assumes "level_inv nb s t d P st" and "hops nb s v (Suc k)" and "k < d \<or> k = d \<and> (\<exists>u \<in> P. v \<in> set (nb u))"
  shows "\<exists>us. lv_parents st v = Some us \<and> distinct us \<and> set us = {u. hops nb s u k \<and> v \<in> set (nb u) \<and> (k = d \<longrightarrow> u \<in> P)}"
  using assms unfolding level_inv_def by blast

lemma level_inv_visit:
  assumes inv: "level_inv nb s t d P st" and u: "hops nb s u d" "u \<notin> P" and nb: "distinct (nb u)"
  shows "level_inv nb s t d (insert u P) (level_visit t d u (nb u) st)"
proof -
  let ?st = "level_visit t d u (nb u) st"
  note none = level_inv_depth_None [OF inv u(1)]
  have depth: "lv_depth st v = Some k \<longleftrightarrow> hops nb s v k \<and> (k \<le> d \<or> k = Suc d \<and> (\<exists>u \<in> P. v \<in> set (nb u)))" for v k
    using inv unfolding level_inv_def by blast
  show ?thesis unfolding level_inv_def
  proof (intro conjI allI impI)
    fix v k
    show "lv_depth ?st v = Some k \<longleftrightarrow> hops nb s v k \<and> (k \<le> d \<or> k = Suc d \<and> (\<exists>u \<in> insert u P. v \<in> set (nb u)))"
    proof (cases "v \<in> set (nb u) \<and> lv_depth st v = None")
      case True
      with none [of v] have "hops nb s v (Suc d)" by simp
      with True show ?thesis by (auto simp: level_visit_depth dest: hops_unique)
    next
      case False
      with depth [of v k] none [of v] show ?thesis by (cases "v \<in> set (nb u)") (auto simp: level_visit_depth dest: hops_unique)
    qed
  next
    fix v k
    assume v: "hops nb s v (Suc k)" "k < d \<or> k = d \<and> (\<exists>u \<in> insert u P. v \<in> set (nb u))"
    have old: "\<exists>us. lv_parents st v = Some us \<and> distinct us \<and> set us = {x. hops nb s x k \<and> v \<in> set (nb x) \<and> (k = d \<longrightarrow> x \<in> P)}"
      if "k < d \<or> k = d \<and> (\<exists>u \<in> P. v \<in> set (nb u))"
      using level_inv_parents [OF inv v(1) that] .
    show "\<exists>us. lv_parents ?st v = Some us \<and> distinct us \<and> set us = {x. hops nb s x k \<and> v \<in> set (nb x) \<and> (k = d \<longrightarrow> x \<in> insert u P)}"
    proof (cases "v \<in> set (nb u)")
      case False
      with old v(2) level_visit_parents_other [OF False] show ?thesis by auto
    next
      case True
      note new = level_visit_parents [OF nb True, of t d u st]
      consider (lower) "k < d" | (first) "k = d" "\<forall>u \<in> P. v \<notin> set (nb u)" | (more) "k = d" "\<exists>u \<in> P. v \<in> set (nb u)" using v(2) by blast
      then show ?thesis
      proof cases
        case lower
        then have "lv_depth st v = Some (Suc k)" using depth v(1) by simp
        then have "lv_parents ?st v = lv_parents st v" using new lower by (simp add: new_parents_def)
        with old lower show ?thesis by auto
      next
        case first
        then have "lv_depth st v = None" using none [OF True] v(1) by simp
        then have "lv_parents ?st v = Some [u]" using new by (simp add: new_parents_def)
        with first u True show ?thesis by auto
      next
        case more
        then have "lv_depth st v = Some (Suc d)" using depth v(1) by simp
        moreover obtain us where us: "lv_parents st v = Some us" "distinct us" "set us = {x. hops nb s x k \<and> v \<in> set (nb x) \<and> x \<in> P}"
          using old more by auto
        ultimately have "lv_parents ?st v = Some (us @ [u])" using new by (simp add: new_parents_def)
        with us u more True show ?thesis by auto
      qed
    qed
  next
    have nx: "distinct (lv_next st)" "set (lv_next st) = {v. hops nb s v (Suc d) \<and> (\<exists>u \<in> P. v \<in> set (nb u))}"
      using inv by (simp_all add: level_inv_def)
    show "distinct (lv_next ?st)"
      unfolding level_visit_next [OF nb] using nx none nb by auto
    show "set (lv_next ?st) = {v. hops nb s v (Suc d) \<and> (\<exists>u \<in> insert u P. v \<in> set (nb u))}"
      unfolding level_visit_next [OF nb] using nx none by (auto, metis option.distinct(1))
    have "lv_found st \<longleftrightarrow> (\<exists>k. hops nb s t k \<and> (k \<le> d \<or> k = Suc d \<and> (\<exists>u \<in> P. t \<in> set (nb u))))" using inv by (simp add: level_inv_def)
    then show "lv_found ?st \<longleftrightarrow> (\<exists>k. hops nb s t k \<and> (k \<le> d \<or> k = Suc d \<and> (\<exists>u \<in> insert u P. t \<in> set (nb u))))"
      unfolding level_visit_found using none [of t] by auto
  qed
qed

text \<open>Between two levels: the frontier is the level \<open>d\<close>, and nothing of it has been expanded.\<close>

definition level_start :: "(i64 \<Rightarrow> i64 list) \<Rightarrow> i64 \<Rightarrow> i64 \<Rightarrow> nat \<Rightarrow> level_state \<Rightarrow> bool" where
  "level_start nb s t d st \<longleftrightarrow>
     level_inv nb s t d {} (st\<lparr>lv_next := []\<rparr>) \<and> distinct (lv_next st) \<and> set (lv_next st) = {v. hops nb s v d}"

lemma level_start_init:
  "s \<noteq> t \<Longrightarrow> level_start nb s t 0 \<lparr>lv_depth = [s \<mapsto> 0], lv_parents = (\<lambda>_. None), lv_next = [s], lv_found = False\<rparr>"
  by (auto simp: level_start_def level_inv_def hops_start intro: gr0I split: if_splits)

lemma level_inv_next:
  assumes inv: "level_inv nb s t d {v. hops nb s v d} st"
  shows "level_start nb s t (Suc d) st"
proof -
  have pred: "\<exists>u \<in> {v. hops nb s v d}. v \<in> set (nb u)" if "hops nb s v (Suc d)" for v using hops_pred [OF that] by auto
  have le: "k \<le> d \<or> k = Suc d \<and> (\<exists>u \<in> {v. hops nb s v d}. v \<in> set (nb u)) \<longleftrightarrow> k \<le> Suc d" if "hops nb s v k" for v k
    using that pred by (auto simp: le_Suc_eq)
  have "level_inv nb s t (Suc d) {} (st\<lparr>lv_next := []\<rparr>)" unfolding level_inv_def
  proof (intro conjI allI impI)
    fix v k
    show "lv_depth (st\<lparr>lv_next := []\<rparr>) v = Some k \<longleftrightarrow> hops nb s v k \<and> (k \<le> Suc d \<or> k = Suc (Suc d) \<and> (\<exists>u \<in> {}. v \<in> set (nb u)))"
      using inv le [of v k] unfolding level_inv_def by simp blast
  next
    fix v k
    assume v: "hops nb s v (Suc k)" "k < Suc d \<or> k = Suc d \<and> (\<exists>u \<in> {}. v \<in> set (nb u))"
    then have k: "k < d \<or> k = d \<and> (\<exists>u \<in> {v. hops nb s v d}. v \<in> set (nb u))" using pred [of v] by (auto simp: less_Suc_eq)
    from level_inv_parents [OF inv v(1) k] obtain us where "lv_parents st v = Some us" "distinct us"
      "set us = {u. hops nb s u k \<and> v \<in> set (nb u) \<and> (k = d \<longrightarrow> u \<in> {v. hops nb s v d})}" by blast
    with k show "\<exists>us. lv_parents (st\<lparr>lv_next := []\<rparr>) v = Some us \<and> distinct us \<and>
        set us = {u. hops nb s u k \<and> v \<in> set (nb u) \<and> (k = Suc d \<longrightarrow> u \<in> {})}" by auto
  next
    show "lv_found (st\<lparr>lv_next := []\<rparr>) \<longleftrightarrow> (\<exists>k. hops nb s t k \<and> (k \<le> Suc d \<or> k = Suc (Suc d) \<and> (\<exists>u \<in> {}. t \<in> set (nb u))))"
    proof -
      have "lv_found st \<longleftrightarrow> (\<exists>k. hops nb s t k \<and> (k \<le> d \<or> k = Suc d \<and> (\<exists>u \<in> {v. hops nb s v d}. t \<in> set (nb u))))"
        using inv by (simp add: level_inv_def)
      also have "\<dots> \<longleftrightarrow> (\<exists>k. hops nb s t k \<and> k \<le> Suc d)" by (intro ex_cong1 conj_cong refl le)
      finally show ?thesis by simp
    qed
  qed auto
  moreover have "distinct (lv_next st)" "set (lv_next st) = {v. hops nb s v (Suc d)}"
    using inv pred by (auto simp: level_inv_def)
  ultimately show ?thesis by (simp add: level_start_def)
qed

text \<open>The number of vertices closer than \<open>d\<close> hops; the budget is compared with it.\<close>

definition closer :: "(i64 \<Rightarrow> i64 list) \<Rightarrow> i64 \<Rightarrow> nat \<Rightarrow> nat" where
  "closer nb s d = card {v. \<exists>k < d. reach nb s k v}"

lemma closer_Suc: "closer nb s (Suc d) = closer nb s d + card {v. hops nb s v d}"
proof -
  have "{v. \<exists>k < Suc d. hops nb s v k} = {v. \<exists>k < d. hops nb s v k} \<union> {v. hops nb s v d}" by (auto simp: less_Suc_eq)
  moreover have "{v. \<exists>k < d. hops nb s v k} \<inter> {v. hops nb s v d} = {}" by (auto dest: hops_unique)
  ultimately show ?thesis by (simp add: closer_def reach_hops_less card_Un_disjoint)
qed

lemma closer_mono: "d \<le> e \<Longrightarrow> closer nb s d \<le> closer nb s e"
  unfolding closer_def by (intro card_mono) (auto intro: less_le_trans)

lemma level_expand_correct:
  assumes nb: "neighbours_are ctx types bi nb"
  shows "level_inv nb s t d P st \<Longrightarrow> distinct us \<Longrightarrow> P \<inter> set us = {} \<Longrightarrow> P \<union> set us = {v. hops nb s v d} \<Longrightarrow>
    visited_vertices mt = closer nb s d + card P \<Longrightarrow>
    (\<exists>st' mt'. level_expand ctx t types bi d us (st, mt) = Inr (st', mt') \<and> level_inv nb s t d {v. hops nb s v d} st' \<and>
       visited_vertices mt' = closer nb s (Suc d)) \<or>
    level_expand ctx t types bi d us (st, mt) = Inl TraversalExhausted \<and> 0 < cx_max_traversal_nodes ctx \<and>
      cx_max_traversal_nodes ctx < closer nb s (Suc d)"
proof (induction us arbitrary: P st mt)
  case Nil
  then show ?case by (simp add: closer_Suc)
next
  case (Cons u us)
  let ?N = "cx_max_traversal_nodes ctx"
  have u: "hops nb s u d" "u \<notin> P" using Cons.prems(3,4) by auto
  have P: "card (insert u P) = Suc (card P)" using u(2) by simp
  have less: "card P < card {v. hops nb s v d}" using Cons.prems(4) u by (intro psubset_card_mono) auto
  show ?case
  proof (cases "0 < ?N \<and> ?N \<le> visited_vertices mt")
    case True
    with Cons.prems(5) less show ?thesis by (simp add: closer_Suc)
  next
    case False
    obtain mt' where c: "collect_neighbor_vids ctx (query_space ctx) u types bi (mt\<lparr>visited_vertices := Suc (visited_vertices mt)\<rparr>) = Inr (nb u, mt')"
      using nb unfolding neighbours_are_def by blast
    note keeps = collect_neighbor_vids_keeps [OF c]
    have run: "level_expand ctx t types bi d (u # us) (st, mt) = level_expand ctx t types bi d us (level_visit t d u (nb u) st, mt')"
      using False c by auto
    have "level_inv nb s t d (insert u P) (level_visit t d u (nb u) st)"
      using level_inv_visit [OF Cons.prems(1) u] keeps by blast
    from Cons.IH [OF this, of mt'] Cons.prems keeps P show ?thesis unfolding run by auto
  qed
qed

lemma level_loop_correct:
  assumes nb: "neighbours_are ctx types bi nb"
  shows "level_start nb s t d st \<Longrightarrow> d \<le> ms \<Longrightarrow> visited_vertices mt = closer nb s d \<Longrightarrow>
    (\<exists>st' mt' d'. level_loop ctx t types ms bi d (st, mt) = Inr (st', mt') \<and> level_start nb s t d' st' \<and> d' \<le> ms \<and>
       (lv_next st' = [] \<or> d' = ms \<or> lv_found st')) \<or>
    level_loop ctx t types ms bi d (st, mt) = Inl TraversalExhausted \<and> 0 < cx_max_traversal_nodes ctx \<and>
      cx_max_traversal_nodes ctx < closer nb s ms"
proof (induction "ms - d" arbitrary: d st mt rule: less_induct)
  case less
  show ?case
  proof (cases "lv_next st = [] \<or> ms \<le> d \<or> lv_found st")
    case True
    then have "level_loop ctx t types ms bi d (st, mt) = Inr (st, mt)" by (subst level_loop.simps) simp
    with True less.prems show ?thesis by (metis antisym)
  next
    case False
    let ?us = "lv_next st" and ?mt = "record_frontier (length (lv_next st)) mt"
    have st: "level_inv nb s t d {} (st\<lparr>lv_next := []\<rparr>)" "distinct ?us" "set ?us = {v. hops nb s v d}"
      using less.prems(1) by (auto simp: level_start_def)
    have mt: "visited_vertices ?mt = closer nb s d" using less.prems(3) by (simp add: record_frontier_def)
    have run: "level_loop ctx t types ms bi d (st, mt) =
        (case level_expand ctx t types bi d ?us (st\<lparr>lv_next := []\<rparr>, ?mt) of
           Inl e \<Rightarrow> Inl e | Inr acc \<Rightarrow> level_loop ctx t types ms bi (Suc d) acc)"
      using False by (subst level_loop.simps) (simp split: sum.split)
    have "closer nb s (Suc d) \<le> closer nb s ms" using False by (intro closer_mono) simp
    consider (ok) st' mt' where "level_expand ctx t types bi d ?us (st\<lparr>lv_next := []\<rparr>, ?mt) = Inr (st', mt')"
        "level_inv nb s t d {v. hops nb s v d} st'" "visited_vertices mt' = closer nb s (Suc d)"
      | (over) "level_expand ctx t types bi d ?us (st\<lparr>lv_next := []\<rparr>, ?mt) = Inl TraversalExhausted"
        "0 < cx_max_traversal_nodes ctx" "cx_max_traversal_nodes ctx < closer nb s (Suc d)"
      using level_expand_correct [OF nb st(1,2), of ?mt] st(3) mt by auto
    then show ?thesis
    proof cases
      case ok
      have "ms - Suc d < ms - d" "Suc d \<le> ms" using False by auto
      from less.hyps [OF this(1) level_inv_next [OF ok(2)] this(2) ok(3)] show ?thesis unfolding run ok(1) sum.case .
    next
      case over
      with \<open>closer nb s (Suc d) \<le> closer nb s ms\<close> show ?thesis unfolding run by simp
    qed
  qed
qed

text \<open>What the search leaves when it ends without an error.\<close>

lemma hops_gap: "(\<And>v. \<not> hops nb s v d) \<Longrightarrow> d \<le> k \<Longrightarrow> \<not> hops nb s v k"
proof (induction k arbitrary: v)
  case (Suc k)
  then show ?case by (metis hops_pred le_Suc_eq)
qed simp

lemma level_end:
  assumes st: "level_start nb s t d st" and d: "d \<le> ms" "lv_next st = [] \<or> d = ms \<or> lv_found st"
  shows "lv_found st \<longleftrightarrow> (\<exists>k \<le> ms. hops nb s t k)"
    and "hops nb s v (Suc k) \<Longrightarrow> Suc k \<le> d \<Longrightarrow> \<exists>us. lv_parents st v = Some us \<and> distinct us \<and> set us = {u. hops nb s u k \<and> v \<in> set (nb u)}"
    and "lv_found st \<Longrightarrow> \<exists>k \<le> d. hops nb s t k"
proof -
  have inv: "level_inv nb s t d {} (st\<lparr>lv_next := []\<rparr>)" and F: "set (lv_next st) = {v. hops nb s v d}" using st by (auto simp: level_start_def)
  have found: "lv_found st \<longleftrightarrow> (\<exists>k \<le> d. hops nb s t k)" using inv by (auto simp: level_inv_def)
  then show "lv_found st \<Longrightarrow> \<exists>k \<le> d. hops nb s t k" by simp
  show "lv_found st \<longleftrightarrow> (\<exists>k \<le> ms. hops nb s t k)"
  proof (cases "lv_next st = []")
    case True
    then have "\<not> hops nb s v k" if "d \<le> k" for v k using hops_gap [of nb s d] F that by auto
    then have "(\<exists>k \<le> ms. hops nb s t k) \<longleftrightarrow> (\<exists>k \<le> d. hops nb s t k)" using d(1) by (meson le_trans nat_le_linear)
    with found show ?thesis by simp
  qed (use found d in \<open>auto intro: le_trans\<close>)
  assume "hops nb s v (Suc k)" "Suc k \<le> d"
  with level_inv_parents [OF inv, of v k]
  show "\<exists>us. lv_parents st v = Some us \<and> distinct us \<and> set us = {u. hops nb s u k \<and> v \<in> set (nb u)}" by auto
qed

section \<open>The enumeration\<close>

text \<open>All the ways back to the start from a vertex at distance \<open>k\<close>, in the order in which the stack gives them.\<close>

primrec tails :: "(i64 \<Rightarrow> i64 list option) \<Rightarrow> nat \<Rightarrow> i64 \<Rightarrow> i64 list list" where
  "tails par 0 u = [[]]"
| "tails par (Suc k) u = concat (map (\<lambda>p. map (Cons p) (tails par k p)) (rev (case par u of None \<Rightarrow> [] | Some us \<Rightarrow> us)))"

text \<open>The parents of every vertex up to the distance \<open>d\<close> are those before it on a shortest path.\<close>

definition parents_exact :: "(i64 \<Rightarrow> i64 list) \<Rightarrow> i64 \<Rightarrow> nat \<Rightarrow> (i64 \<Rightarrow> i64 list option) \<Rightarrow> bool" where
  "parents_exact nb s d par \<longleftrightarrow>
     (\<forall>v k. hops nb s v (Suc k) \<longrightarrow> Suc k \<le> d \<longrightarrow>
        (\<exists>us. par v = Some us \<and> distinct us \<and> set us = {u. hops nb s u k \<and> v \<in> set (nb u)}))"

lemma parents_exactE:
  assumes "parents_exact nb s d par" and "hops nb s v (Suc k)" and "Suc k \<le> d"
  obtains us where "par v = Some us" and "distinct us" and "set us = {u. hops nb s u k \<and> v \<in> set (nb u)}"
  using assms unfolding parents_exact_def by blast

lemma hops_before: "hops nb s u (Suc k) \<Longrightarrow> reach nb s k p \<Longrightarrow> u \<in> set (nb p) \<Longrightarrow> hops nb s p k"
  unfolding hops_def by (metis Suc_less_eq reach.simps(2))

lemma is_walk_rev:
  "is_walk nb s u (rev (u # p # q)) \<longleftrightarrow> is_walk nb s p (rev (p # q)) \<and> u \<in> set (nb p)"
  by (auto simp: is_walk_def successively_append_iff hd_append)

lemma tails_walks:
  assumes par: "parents_exact nb s d par"
  shows "hops nb s u k \<Longrightarrow> k \<le> d \<Longrightarrow> q \<in> set (tails par k u) \<longleftrightarrow> length q = k \<and> is_walk nb s u (rev (u # q))"
proof (induction k arbitrary: u q)
  case 0
  then show ?case by (auto simp: is_walk_def)
next
  case (Suc k)
  obtain us where us: "par u = Some us" "set us = {p. hops nb s p k \<and> u \<in> set (nb p)}"
    by (rule parents_exactE [OF par Suc.prems])
  have "p # q' \<in> set (tails par (Suc k) u) \<longleftrightarrow> length q' = k \<and> is_walk nb s u (rev (u # p # q'))" for p q'
  proof -
    have "p # q' \<in> set (tails par (Suc k) u) \<longleftrightarrow> hops nb s p k \<and> u \<in> set (nb p) \<and> q' \<in> set (tails par k p)" using us by auto
    also have "\<dots> \<longleftrightarrow> hops nb s p k \<and> u \<in> set (nb p) \<and> length q' = k \<and> is_walk nb s p (rev (p # q'))"
      using Suc.IH [of p q'] Suc.prems(2) by auto
    also have "\<dots> \<longleftrightarrow> length q' = k \<and> is_walk nb s u (rev (u # p # q'))"
      using hops_before [OF Suc.prems(1), of p] walk_length [of nb s p "rev (p # q')"] unfolding is_walk_rev by auto
    finally show ?thesis .
  qed
  moreover have "[] \<notin> set (tails par (Suc k) u)" by auto
  ultimately show ?case by (cases q) auto
qed

lemma tails_distinct:
  assumes par: "parents_exact nb s d par"
  shows "hops nb s u k \<Longrightarrow> k \<le> d \<Longrightarrow> distinct (tails par k u)"
proof (induction k arbitrary: u)
  case (Suc k)
  obtain us where us: "par u = Some us" "distinct us" "set us = {p. hops nb s p k \<and> u \<in> set (nb p)}"
    by (rule parents_exactE [OF par Suc.prems])
  have "distinct (tails par k p)" if "p \<in> set us" for p using Suc.IH [of p] Suc.prems(2) us(3) that by simp
  then have "distinct (concat (map (\<lambda>p. map (Cons p) (tails par k p)) ps))" if "distinct ps" "set ps \<subseteq> set us" for ps
    using that by (induction ps) (auto simp: distinct_map)
  from this [of "rev us"] us show ?case by simp
qed simp

text \<open>Taking one partial path from the stack ends with all its completions taken.\<close>

definition take_paths ::
  "(i64 \<Rightarrow> i64 list option) \<Rightarrow> i64 \<Rightarrow> nat \<Rightarrow> i64 list list \<Rightarrow> i64 list list \<Rightarrow> i64 list list \<Rightarrow> ('e exec_error + i64 list list) option" where
  "take_paths par s mp acc C stack =
     (if 0 < mp \<and> mp < length acc + length C then Some (Inl PathsExhausted) else enumerate_paths par s mp (acc @ C) stack)"

lemma enumerate_many:
  assumes one: "\<And>x acc stack. x \<in> set xs \<Longrightarrow> mp = 0 \<or> length acc \<le> mp \<Longrightarrow> 
      enumerate_paths par s mp acc (f x # stack) = (take_paths par s mp acc (C x) stack :: ('e exec_error + i64 list list) option)"
  shows "mp = 0 \<or> length acc \<le> mp \<Longrightarrow> 
    enumerate_paths par s mp acc (map f xs @ stack) = (take_paths par s mp acc (concat (map C xs)) stack :: ('e exec_error + i64 list list) option)"
  using one
proof (induction xs arbitrary: acc)
  case Nil
  then show ?case by (auto simp: take_paths_def)
next
  case (Cons x xs)
  show ?case
  proof (cases "0 < mp \<and> mp < length acc + length (C x)")
    case True
    with Cons.prems show ?thesis by (simp add: take_paths_def)
  next
    case False
    with Cons.prems have "enumerate_paths par s mp acc (map f (x # xs) @ stack) =
        (enumerate_paths par s mp (acc @ C x) (map f xs @ stack) :: ('e exec_error + i64 list list) option)"
      by (auto simp: take_paths_def)
    also have "\<dots> = take_paths par s mp (acc @ C x) (concat (map C xs)) stack" using Cons False by auto
    finally show ?thesis by (simp add: take_paths_def add.assoc)
  qed
qed

lemma enumerate_one:
  assumes par: "parents_exact nb s d par"
  shows "p \<noteq> [] \<Longrightarrow> hops nb s (last p) k \<Longrightarrow> k \<le> d \<Longrightarrow> mp = 0 \<or> length acc \<le> mp \<Longrightarrow>
    enumerate_paths par s mp acc (p # stack) = (take_paths par s mp acc (map (\<lambda>q. rev (p @ q)) (tails par k (last p))) stack :: ('e exec_error + i64 list list) option)"
proof (induction k arbitrary: p acc stack)
  case 0
  then show ?case by (subst enumerate_paths.simps) (auto simp: take_paths_def)
next
  case (Suc k)
  obtain us where us: "par (last p) = Some us" "set us = {u. hops nb s u k \<and> last p \<in> set (nb u)}"
    by (rule parents_exactE [OF par Suc.prems(2,3)])
  have "last p \<noteq> s" using Suc.prems(2) by (auto simp: hops_start)
  then have "enumerate_paths par s mp acc (p # stack) =
      (enumerate_paths par s mp acc (map (\<lambda>x. p @ [x]) (rev us) @ stack) :: ('e exec_error + i64 list list) option)"
    using Suc.prems(1) us(1) by (subst enumerate_paths.simps) (simp add: rev_map)
  also have "\<dots> = take_paths par s mp acc (concat (map (\<lambda>x. map (\<lambda>q. rev ((p @ [x]) @ q)) (tails par k x)) (rev us))) stack"
  proof (rule enumerate_many)
    fix x and acc stack :: "i64 list list"
    assume "x \<in> set (rev us)" "mp = 0 \<or> length acc \<le> mp"
    then show "enumerate_paths par s mp acc ((p @ [x]) # stack) =
        (take_paths par s mp acc (map (\<lambda>q. rev ((p @ [x]) @ q)) (tails par k x)) stack :: ('e exec_error + i64 list list) option)"
      using Suc.IH [of "p @ [x]" acc stack] Suc.prems(3) us(2) by simp
  qed (rule Suc.prems(4))
  also have "concat (map (\<lambda>x. map (\<lambda>q. rev ((p @ [x]) @ q)) (tails par k x)) (rev us)) = map (\<lambda>q. rev (p @ q)) (tails par (Suc k) (last p))"
    using us(1) by (simp add: map_concat comp_def)
  finally show ?case .
qed

section \<open>Properties\<close>

text \<open>The shortest paths of at most \<open>ms\<close> hops, and what an answer says about them.\<close>

definition shortest_paths :: "(i64 \<Rightarrow> i64 list) \<Rightarrow> i64 \<Rightarrow> i64 \<Rightarrow> nat \<Rightarrow> i64 list set" where
  "shortest_paths nb s t ms = {xs. is_walk nb s t xs \<and> length xs \<le> Suc ms \<and> (\<forall>ys. is_walk nb s t ys \<longrightarrow> length xs \<le> length ys)}"

fun paths_answer ::
  "nat \<Rightarrow> nat \<Rightarrow> (i64 \<Rightarrow> i64 list) \<Rightarrow> i64 \<Rightarrow> i64 \<Rightarrow> nat \<Rightarrow> 'e exec_error + i64 list list \<times> traversal_metrics \<Rightarrow> bool" where
  "paths_answer N mp nb s t ms (Inl e) \<longleftrightarrow>
     e = TraversalExhausted \<and> 0 < N \<and> N < card {v. \<exists>k < ms. reach nb s k v} \<or>
     e = PathsExhausted \<and> 0 < mp \<and> mp < card (shortest_paths nb s t ms)"
| "paths_answer N mp nb s t ms (Inr (xss, mt)) \<longleftrightarrow>
     distinct xss \<and> set xss = shortest_paths nb s t ms \<and> (0 < mp \<longrightarrow> length xss \<le> mp)"

lemma shortest_paths_hops:
  assumes "hops nb s t k" and "k \<le> ms"
  shows "shortest_paths nb s t ms = {xs. is_walk nb s t xs \<and> length xs = Suc k}"
proof -
  obtain ws where ws: "is_walk nb s t ws" "length ws = Suc k" using assms(1) walk_reach [of nb s t k] by (auto simp: hops_def)
  have "Suc k \<le> length ys" if "is_walk nb s t ys" for ys using hops_shortest [of nb s t ws ys] ws assms(1) that by simp
  with ws assms(2) show ?thesis unfolding shortest_paths_def by (auto, metis antisym)
qed

lemma shortest_paths_start: "shortest_paths nb s s ms = {[s]}"
proof -
  have "is_walk nb s s xs \<and> length xs = Suc 0 \<longleftrightarrow> xs = [s]" for xs by (cases xs) (auto simp: is_walk_def)
  then show ?thesis using shortest_paths_hops [of nb s s 0 ms] by simp
qed

lemma shortest_paths_none: "\<not> (\<exists>k \<le> ms. hops nb s t k) \<Longrightarrow> shortest_paths nb s t ms = {}"
proof -
  assume none: "\<not> (\<exists>k \<le> ms. hops nb s t k)"
  have False if xs: "is_walk nb s t xs" "length xs \<le> Suc ms" for xs
  proof -
    obtain j where "hops nb s t j" "j \<le> length xs - 1" using hops_exists [OF walk_length [OF xs(1)]] .
    moreover from this(2) xs(2) have "j \<le> ms" by simp
    ultimately show False using none by blast
  qed
  then show ?thesis by (auto simp: shortest_paths_def)
qed

lemma all_tails:
  assumes "parents_exact nb s d par" and "hops nb s t k" and "k \<le> d" and "d \<le> ms"
  defines "C \<equiv> map (\<lambda>q. rev ([t] @ q)) (tails par k t)"
  shows "distinct C" and "set C = shortest_paths nb s t ms"
proof -
  show "distinct C" using tails_distinct [OF assms(1-3)] by (simp add: C_def distinct_map inj_on_def)
  have "xs \<in> set C \<longleftrightarrow> is_walk nb s t xs \<and> length xs = Suc k" for xs
  proof -
    have "xs \<in> set C \<longleftrightarrow> (\<exists>q. xs = rev (t # q) \<and> length q = k \<and> is_walk nb s t (rev (t # q)))"
      using tails_walks [OF assms(1-3)] by (auto simp: C_def)
    also have "\<dots> \<longleftrightarrow> is_walk nb s t xs \<and> length xs = Suc k"
      by (cases xs rule: rev_cases) (auto simp: is_walk_def intro: exI [of _ "rev _"])
    finally show ?thesis .
  qed
  then show "set C = shortest_paths nb s t ms" using shortest_paths_hops [OF assms(2), of ms] assms(3,4) by auto
qed

lemma all_shortest_paths_answer:
  fixes ctx :: "('e, 'p) exec_context"
  assumes nb: "neighbours_are ctx edge_types bidirect nb"
  shows "\<exists>r. all_shortest_paths ctx start target edge_types max_steps bidirect max_paths = Some r \<and>
    paths_answer (cx_max_traversal_nodes ctx) max_paths nb start target max_steps r"
proof (cases "start = target")
  case True
  then show ?thesis by (simp add: all_shortest_paths_def shortest_paths_start Suc_le_eq)
next
  case False
  let ?init = "\<lparr>lv_depth = [start \<mapsto> 0], lv_parents = (\<lambda>_. None), lv_next = [start], lv_found = False\<rparr>"
  let ?loop = "level_loop ctx target edge_types max_steps bidirect 0 (?init, metrics_default)"
  have "visited_vertices metrics_default = closer nb start 0" by (simp add: metrics_default_def closer_def)
  from level_loop_correct [OF nb level_start_init [OF False] le0 [of max_steps] this] show ?thesis
  proof (rule disjE)
    assume "\<exists>st mt d. ?loop = Inr (st, mt) \<and> level_start nb start target d st \<and> d \<le> max_steps \<and>
      (lv_next st = [] \<or> d = max_steps \<or> lv_found st)"
    then obtain st mt d where ok: "?loop = Inr (st, mt)" "level_start nb start target d st" "d \<le> max_steps"
      and fin: "lv_next st = [] \<or> d = max_steps \<or> lv_found st" by blast
    note st = level_end [OF ok(2,3) fin]
    show ?thesis
    proof (cases "lv_found st")
      case found: True
      then obtain k where k: "hops nb start target k" "k \<le> d" using st(3) by blast
      have par: "parents_exact nb start d (lv_parents st)" unfolding parents_exact_def using st(2) by blast
      let ?C = "map (\<lambda>q. rev ([target] @ q)) (tails (lv_parents st) k target)"
      note C = all_tails [OF par k ok(3)]
      have "card (shortest_paths nb start target max_steps) = length ?C" using distinct_card [OF C(1)] C(2) by simp
      moreover have "enumerate_paths (lv_parents st) start max_paths [] [[target]] =
          (if 0 < max_paths \<and> max_paths < length ?C then Some (Inl PathsExhausted) else Some (Inr ?C :: 'e exec_error + i64 list list))"
        using k by (subst enumerate_one [OF par, where k = k]) (simp_all add: take_paths_def enumerate_paths.simps)
      ultimately show ?thesis using C ok(1) False found by (simp add: all_shortest_paths_def not_less)
    next
      case notfound: False
      then have "shortest_paths nb start target max_steps = {}" using st(1) by (intro shortest_paths_none) simp
      with notfound ok(1) False show ?thesis by (simp add: all_shortest_paths_def)
    qed
  next
    assume "?loop = Inl TraversalExhausted \<and> 0 < cx_max_traversal_nodes ctx \<and> cx_max_traversal_nodes ctx < closer nb start max_steps"
    with False show ?thesis by (simp add: all_shortest_paths_def closer_def)
  qed
qed

text \<open>
  C18. \<open>FIND ALL SHORTEST PATHS\<close> always returns, and a result lists every shortest path from the start to the target of at most
  \<open>max_steps\<close> hops exactly once, and nothing else; it is empty if there is none. It raises an error rather than return
  part of the list: only when a limit on vertices is set and more of them lie less than \<open>max_steps\<close> hops away, or when a limit on paths is set
  and there are more of them.
\<close>
theorem all_shortest_paths_correct:
  assumes "neighbours_are ctx edge_types bidirect nb"
  shows "\<exists>r. all_shortest_paths ctx start target edge_types max_steps bidirect max_paths = Some r \<and>
    paths_answer (cx_max_traversal_nodes ctx) max_paths nb start target max_steps r"
  using assms by (rule all_shortest_paths_answer)

theorem all_shortest_paths_correct_witness:
  "\<exists>nb r. (\<forall>v. set (nb v) = graph_neighbours {chain_edge 1 2, chain_edge 2 3} [ascii ''knows''] True v) \<and>
     all_shortest_paths chain_ctx 3 1 [ascii ''knows''] 5 True 10 = Some r \<and>
     paths_answer (cx_max_traversal_nodes chain_ctx) 10 nb 3 1 5 r"
  using chain_neighbours [of "[ascii ''knows'']" True] all_shortest_paths_correct by blast

end
