(* ===== verification/EdgeWire.thy ===== *)
theory EdgeWire
  imports FindPath
begin

text \<open>
  The decoders that read one end of an edge without decoding the rest
  (\<open>decode_edge_dst\<close> and \<open>decode_edge_src\<close> in \<^verbatim>\<open>byoridb-codec/src/vertex.rs\<close>), on the wire format of protocol buffers. Positions are
  64-bit words that wrap around, as \<open>usize\<close> does in a release build.
\<close>

unbundle bit_operations_syntax

fun read_varint_loop :: "bytes \<Rightarrow> nat \<Rightarrow> nat \<Rightarrow> u64 \<Rightarrow> (u64 \<times> nat) option" where
  "read_varint_loop [] i shift result = None"
| "read_varint_loop (byte # bytes) i shift result =
     (if 10 \<le> i then None
      else (let result = result OR push_bit shift (ucast (byte AND 0x7F))
            in if byte AND 0x80 = 0 then Some (result, i + 1) else read_varint_loop bytes (i + 1) (shift + 7) result))"

definition read_varint :: "bytes \<Rightarrow> (u64 \<times> nat) option" where
  "read_varint buf = read_varint_loop buf 0 0 0"

text \<open>The errors carry only a text.\<close>

datatype codec_error = IncorrectValue

partial_function (option) vid_loop :: "bytes \<Rightarrow> u64 \<Rightarrow> u64 \<Rightarrow> (codec_error + i64) option" where
  "vid_loop data target_field pos =
     (if length data \<le> unat pos then Some (Inr 0)
      else case read_varint (drop (unat pos) data) of
             None \<Rightarrow> Some (Inl IncorrectValue)
           | Some (tag, n) \<Rightarrow>
              (let pos = pos + of_nat n; field_num = drop_bit 3 tag; wire_type = tag AND 7; next = read_varint (drop (unat pos) data)
               in if field_num = target_field \<and> wire_type = 0
                  then (case next of None \<Rightarrow> Some (Inl IncorrectValue) | Some (val, _) \<Rightarrow> Some (Inr val))
                  else if wire_type = 0
                  then (case next of None \<Rightarrow> Some (Inl IncorrectValue) | Some (_, n) \<Rightarrow> vid_loop data target_field (pos + of_nat n))
                  else if wire_type = 1 then vid_loop data target_field (pos + 8)
                  else if wire_type = 2
                  then (case next of None \<Rightarrow> Some (Inl IncorrectValue) | Some (len, n) \<Rightarrow> vid_loop data target_field (pos + (of_nat n + len)))
                  else if wire_type = 5 then vid_loop data target_field (pos + 4)
                  else Some (Inl IncorrectValue)))"

declare vid_loop.simps [code]

definition decode_edge_dst :: "'p edge_codec \<Rightarrow> bytes \<Rightarrow> (codec_error + i64) option" where
  "decode_edge_dst codec data =
     (if data = [] then Some (Inl IncorrectValue)
      else if hd data = PROTO_MAGIC then vid_loop (tl data) 2 0
      else Some (case ec_json_parse codec data of
                   None \<Rightarrow> Inl IncorrectValue
                 | Some json \<Rightarrow> Inr (case Option.bind (json_get json (ascii ''dst'')) json_as_i64 of None \<Rightarrow> 0 | Some i \<Rightarrow> i)))"

definition decode_edge_src :: "'p edge_codec \<Rightarrow> bytes \<Rightarrow> (codec_error + i64) option" where
  "decode_edge_src codec data =
     (if data = [] then Some (Inl IncorrectValue)
      else if hd data = PROTO_MAGIC then vid_loop (tl data) 1 0
      else Some (case ec_json_parse codec data of
                   None \<Rightarrow> Inl IncorrectValue
                 | Some json \<Rightarrow> Inr (case Option.bind (json_get json (ascii ''src'')) json_as_i64 of None \<Rightarrow> 0 | Some i \<Rightarrow> i)))"

section \<open>Varints\<close>

text \<open>The varint of the protocol-buffer specification.\<close>

function encode_varint :: "u64 \<Rightarrow> bytes" where
  "encode_varint v = (if v < 128 then [ucast v] else (ucast v OR 0x80) # encode_varint (drop_bit 7 v))"
  by auto

termination
proof (relation "measure unat")
  fix v :: u64
  assume "\<not> v < 128"
  then show "(drop_bit 7 v, v) \<in> measure unat" by (simp add: drop_bit_eq_div word_less_nat_alt unat_div)
qed simp

declare encode_varint.simps [simp del]

lemma varint_masks: "(0x7F :: u8) = mask 7" "(0x7F :: u64) = mask 7"
  by (simp_all add: mask_eq_exp_minus_1)

lemma varint_flag_bit: "bit (0x80 :: int) n \<longleftrightarrow> n = 7"
proof -
  have "(0x80 :: int) = 2 ^ 7" by simp
  then show ?thesis by (simp only: bit_exp_iff) auto
qed

lemma varint_low: "(ucast ((ucast v :: u8) AND 0x7F) :: u64) = v AND 0x7F" for v :: u64
  unfolding varint_masks by (rule bit_eqI) (auto simp: bit_or_iff bit_and_iff bit_mask_iff bit_unsigned_iff bit_push_bit_iff bit_drop_bit_eq varint_flag_bit)

lemma varint_more: "((ucast v OR 0x80) AND 0x7F :: u8) = ucast v AND 0x7F" for v :: u64
  unfolding varint_masks by (rule bit_eqI) (auto simp: bit_or_iff bit_and_iff bit_mask_iff bit_unsigned_iff bit_push_bit_iff bit_drop_bit_eq varint_flag_bit)

lemma varint_flag: "((ucast v OR 0x80) AND 0x80 :: u8) \<noteq> 0" for v :: u64
proof -
  have "((ucast v OR 0x80) AND 0x80 :: u8) = 0x80" unfolding varint_masks by (rule bit_eqI) (auto simp: bit_or_iff bit_and_iff bit_mask_iff bit_unsigned_iff bit_push_bit_iff bit_drop_bit_eq varint_flag_bit)
  then show ?thesis by simp
qed

lemma varint_last:
  fixes v :: u64
  assumes "v < 128"
  shows "v AND 0x7F = v" and "(ucast v :: u8) AND 0x80 = 0"
proof -
  have "take_bit 7 v = v" using assms by (simp add: take_bit_eq_mod word_less_nat_alt unat_mod word_unat_eq_iff)
  then show v: "v AND 0x7F = v" unfolding varint_masks by (simp add: take_bit_eq_mask)
  have "(ucast (v AND 0x7F) :: u8) AND 0x80 = 0" unfolding varint_masks by (rule bit_eqI) (auto simp: bit_or_iff bit_and_iff bit_mask_iff bit_unsigned_iff bit_push_bit_iff bit_drop_bit_eq varint_flag_bit)
  then show "(ucast v :: u8) AND 0x80 = 0" by (simp only: v)
qed

lemma varint_split: "(v AND 0x7F) OR push_bit 7 (drop_bit 7 v) = v" for v :: u64
proof (rule bit_eqI)
  fix n
  show "bit ((v AND 0x7F) OR push_bit 7 (drop_bit 7 v)) n \<longleftrightarrow> bit v n" if "possible_bit TYPE(u64) n"
    unfolding varint_masks using that
    by (cases "n < 7") (auto simp: bit_or_iff bit_and_iff bit_mask_iff bit_push_bit_iff bit_drop_bit_eq)
qed

lemma read_varint_loop_encode:
  "i < 10 \<Longrightarrow> unat v < 2 ^ (7 * (10 - i)) \<Longrightarrow>
   read_varint_loop (encode_varint v @ rest) i s r = Some (r OR push_bit s v, i + length (encode_varint v))"
proof (induction v arbitrary: i s r rule: encode_varint.induct)
  case (1 v)
  show ?case
  proof (cases "v < 128")
    case True
    with "1.prems" varint_last [OF True] show ?thesis
      by (subst (1 2) encode_varint.simps) (simp add: varint_low)
  next
    case False
    then have big: "128 \<le> unat v" by (simp add: word_less_nat_alt)
    with "1.prems"(2) have i: "Suc i < 10" by (cases "i = 9") (use "1.prems"(1) in auto)
    have "10 - i = Suc (10 - Suc i)" using i by simp
    then have "unat v < 128 * 2 ^ (7 * (10 - Suc i))" using "1.prems"(2) by (simp add: power_add)
    then have "unat (drop_bit 7 v) < 2 ^ (7 * (10 - Suc i))"
      by (simp add: drop_bit_eq_div unat_div div_less_iff_less_mult mult.commute)
    from "1.IH" [OF False i this] have ih: "read_varint_loop (encode_varint (drop_bit 7 v) @ rest) (Suc i) s r =
        Some (r OR push_bit s (drop_bit 7 v), Suc i + length (encode_varint (drop_bit 7 v)))" for s r by simp
    have "push_bit s (v AND 0x7F) OR push_bit (s + 7) (drop_bit 7 v) = push_bit s v"
      using arg_cong [OF varint_split [of v], of "push_bit s"] by (simp add: push_bit_or add.commute)
    then have "(r OR push_bit s (v AND 0x7F)) OR push_bit (s + 7) (drop_bit 7 v) = r OR push_bit s v" by (simp add: or.assoc)
    with False i show ?thesis
      by (subst (1 2) encode_varint.simps) (simp add: varint_low varint_more varint_flag ih Let_def)
  qed
qed

lemma read_varint_encode: "read_varint (encode_varint v @ rest) = Some (v, length (encode_varint v))"
proof -
  have "unat v < 2 ^ 64" using unsigned_less [of v] by simp
  then show ?thesis using read_varint_loop_encode [of 0 v rest 0 0] by (simp add: read_varint_def)
qed

section \<open>Fields\<close>

text \<open>The fields of a message on the wire, by wire type: a varint, 64 bits, bytes with their length, and 32 bits. Each has its field number.\<close>

datatype wire_field = WVarint u64 u64 | WFixed64 u64 bytes | WBytes u64 bytes | WFixed32 u64 bytes

fun field_ok :: "wire_field \<Rightarrow> bool" where
  "field_ok (WVarint n v) \<longleftrightarrow> n < 2 ^ 29"
| "field_ok (WFixed64 n b) \<longleftrightarrow> n < 2 ^ 29 \<and> length b = 8"
| "field_ok (WBytes n b) \<longleftrightarrow> n < 2 ^ 29"
| "field_ok (WFixed32 n b) \<longleftrightarrow> n < 2 ^ 29 \<and> length b = 4"

definition wire_tag :: "u64 \<Rightarrow> u64 \<Rightarrow> bytes" where
  "wire_tag n w = encode_varint (push_bit 3 n OR w)"

fun encode_field :: "wire_field \<Rightarrow> bytes" where
  "encode_field (WVarint n v) = wire_tag n 0 @ encode_varint v"
| "encode_field (WFixed64 n b) = wire_tag n 1 @ b"
| "encode_field (WBytes n b) = wire_tag n 2 @ encode_varint (of_nat (length b)) @ b"
| "encode_field (WFixed32 n b) = wire_tag n 5 @ b"

fun first_varint :: "u64 \<Rightarrow> wire_field list \<Rightarrow> u64" where
  "first_varint t [] = 0"
| "first_varint t (WVarint n v # fs) = (if n = t then v else first_varint t fs)"
| "first_varint t (f # fs) = first_varint t fs"

lemma tag_field:
  fixes n w :: u64
  assumes "n < 2 ^ 29" and "w < 8"
  shows "drop_bit 3 (push_bit 3 n OR w) = n" and "(push_bit 3 n OR w) AND 7 = w"
proof -
  have n: "take_bit 29 n = n" using assms(1) by (simp add: take_bit_eq_mod word_less_nat_alt unat_mod word_unat_eq_iff)
  have w: "take_bit 3 w = w" using assms(2) by (simp add: take_bit_eq_mod word_less_nat_alt unat_mod word_unat_eq_iff)
  have "drop_bit 3 (push_bit 3 (take_bit 29 n) OR take_bit 3 w) = take_bit 29 n"
    by (rule bit_eqI) (auto simp: bit_or_iff bit_drop_bit_eq bit_push_bit_iff bit_take_bit_iff)
  then show "drop_bit 3 (push_bit 3 n OR w) = n" by (simp only: n w)
  have "(push_bit 3 n OR take_bit 3 w) AND mask 3 = take_bit 3 w"
    by (rule bit_eqI) (auto simp: bit_or_iff bit_and_iff bit_push_bit_iff bit_take_bit_iff bit_mask_iff)
  then show "(push_bit 3 n OR w) AND 7 = w" by (simp add: w mask_eq_exp_minus_1)
qed

lemma encode_varint_not_Nil [simp]: "encode_varint v \<noteq> []"
  by (subst encode_varint.simps) simp

lemma read_tag: "read_varint (wire_tag n w @ rest) = Some (push_bit 3 n OR w, length (wire_tag n w))"
  by (simp add: wire_tag_def read_varint_encode)

lemma unat_pos: "length data < 2 ^ 64 \<Longrightarrow> n \<le> length data \<Longrightarrow> unat (of_nat n :: u64) = n"
  by (simp add: unat_of_nat take_bit_eq_mod)

lemma vid_loop_fields:
  assumes "data = pre @ concat (map encode_field fs)" and "length data < 2 ^ 64" and "list_all field_ok fs"
  shows "vid_loop data t (of_nat (length pre)) = Some (Inr (first_varint t fs))"
  using assms
proof (induction fs arbitrary: pre)
  case Nil
  then show ?case using unat_pos [of data "length pre"] by (subst vid_loop.simps) simp
next
  case (Cons f fs)
  have len: "length pre + length (encode_field f) \<le> length data" using Cons.prems(1) by simp
  have ih: "vid_loop data t (of_nat (length pre + length (encode_field f))) = Some (Inr (first_varint t fs))"
    using Cons.IH [of "pre @ encode_field f"] Cons.prems by simp
  let ?R = "concat (map encode_field fs)"
  have pos: "unat (of_nat (length pre) :: u64) = length pre" using len Cons.prems(2) by (intro unat_pos) auto
  have drop1: "drop (unat (of_nat (length pre) :: u64)) data = encode_field f @ ?R" unfolding pos using Cons.prems(1) by simp
  have drop2: "drop (unat (of_nat (length pre) + of_nat (length x) :: u64)) data = y @ ?R" if "encode_field f = x @ y" for x y
  proof -
    have "unat (of_nat (length pre + length x) :: u64) = length pre + length x" using len Cons.prems(2) that by (intro unat_pos) auto
    then show ?thesis using Cons.prems(1) that by simp
  qed
  have "encode_field f \<noteq> []" by (cases f) (simp_all add: wire_tag_def)
  then have more: "\<not> length data \<le> unat (of_nat (length pre) :: u64)" unfolding pos using Cons.prems(1) by simp
  show ?case
  proof (cases f)
    case (WVarint n v)
    with Cons.prems(3) tag_field [of n 0] ih drop1 drop2 [of "wire_tag n 0" "encode_varint v"] more show ?thesis
      by (subst vid_loop.simps) (cases "n = t"; simp add: read_tag read_varint_encode Let_def add.assoc)
  next
    case (WFixed64 n b)
    with Cons.prems(3) tag_field [of n 1] ih drop1 more show ?thesis
      by (subst vid_loop.simps) (simp add: read_tag Let_def add.assoc)
  next
    case (WBytes n b)
    with Cons.prems(3) tag_field [of n 2] ih drop1 drop2 [of "wire_tag n 2" "encode_varint (of_nat (length b)) @ b"] more show ?thesis
      by (subst vid_loop.simps) (simp add: read_tag read_varint_encode Let_def add.assoc)
  next
    case (WFixed32 n b)
    with Cons.prems(3) tag_field [of n 5] ih drop1 more show ?thesis
      by (subst vid_loop.simps) (simp add: read_tag Let_def add.assoc)
  qed
qed

lemma first_varint_unique:
  "(\<And>v'. WVarint t v' \<in> set fs \<Longrightarrow> v' = v) \<Longrightarrow> WVarint t v \<in> set fs \<or> v = 0 \<Longrightarrow> first_varint t fs = v"
  by (induction t fs rule: first_varint.induct) auto

text \<open>The fields of an edge message, where \<open>props\<close> are its encoded properties: a field with the default value is left out.\<close>

fun is_default :: "wire_field \<Rightarrow> bool" where
  "is_default (WVarint n v) \<longleftrightarrow> v = 0"
| "is_default (WBytes n b) \<longleftrightarrow> b = []"
| "is_default f \<longleftrightarrow> False"

definition edge_fields :: "'p edge_data \<Rightarrow> bytes list \<Rightarrow> wire_field list" where
  "edge_fields e props =
     filter (\<lambda>f. \<not> is_default f) [WVarint 1 (ed_src_vid e), WVarint 2 (ed_dst_vid e), WBytes 3 (ed_edge_type e), WVarint 4 (ed_ranking e)] @
     map (WBytes 5) props"

lemma edge_fields_ok: "f \<in> set (edge_fields e props) \<Longrightarrow> field_ok f"
  by (auto simp: edge_fields_def split: if_splits)

text \<open>The length of a field can bring the position back to where it was; then the loop never ends.\<close>

definition looping_edge :: bytes where
  "looping_edge = [0x1A, 0xF5, 0xFF, 0xFF, 0xFF, 0xFF, 0xFF, 0xFF, 0xFF, 0xFF, 0x01]"

lemma looping_edge_reads:
  "read_varint looping_edge = Some (0x1A, 1)" "read_varint (drop 1 looping_edge) = Some (- 11, 10)"
  by (simp_all add: read_varint_def looping_edge_def)

lemma looping_edge_step: "vid_loop data t pos = Some r \<Longrightarrow> data = looping_edge \<longrightarrow> pos \<noteq> 0"
proof (erule vid_loop.raw_induct [where P = "\<lambda>data t pos r. data = looping_edge \<longrightarrow> pos \<noteq> 0", rotated], intro impI notI, goal_cases)
  case (1 f data t pos r)
  then have "f looping_edge t 0 = Some r"
    using looping_edge_reads by (simp add: Let_def looping_edge_def)
  with 1 show ?case by blast
qed

lemma decode_edge_dst_loops: "decode_edge_dst codec (PROTO_MAGIC # looping_edge) = None"
  using looping_edge_step [of looping_edge 2 0] by (cases "vid_loop looping_edge 2 0") (auto simp: decode_edge_dst_def)

text \<open>
  C40. Reading only one end of an edge agrees with the message. For every edge, every encoding of its properties, and the fields in any order,
  \<open>decode_edge_dst\<close> and \<open>decode_edge_src\<close> end and give the destination and the source of the edge, also when they are zero and so left out
  of the message.
\<close>
theorem edge_vid_fast_path:
  assumes fs: "set fs = set (edge_fields e props)" and len: "length (concat (map encode_field fs)) < 2 ^ 64"
  shows "decode_edge_dst codec (PROTO_MAGIC # concat (map encode_field fs)) = Some (Inr (ed_dst_vid e)) \<and>
    decode_edge_src codec (PROTO_MAGIC # concat (map encode_field fs)) = Some (Inr (ed_src_vid e))"
proof -
  have "list_all field_ok fs" using fs edge_fields_ok by (auto simp: list_all_iff)
  with len have run: "vid_loop (concat (map encode_field fs)) t 0 = Some (Inr (first_varint t fs))" for t
    using vid_loop_fields [of "concat (map encode_field fs)" "[]" fs t] by simp
  have "first_varint 2 fs = ed_dst_vid e" "first_varint 1 fs = ed_src_vid e"
    by (rule first_varint_unique; auto simp: fs edge_fields_def split: if_splits)+
  with run show ?thesis by (simp add: decode_edge_dst_def decode_edge_src_def)
qed

theorem edge_vid_fast_path_witness:
  "decode_edge_dst (cx_codec chain_ctx) (PROTO_MAGIC # concat (map encode_field (edge_fields (chain_edge 1 300) [[7]]))) = Some (Inr 300) \<and>
   decode_edge_src (cx_codec chain_ctx) (PROTO_MAGIC # concat (map encode_field (edge_fields (chain_edge 1 300) [[7]]))) = Some (Inr 1)"
proof -
  have "length (concat (map encode_field (edge_fields (chain_edge 1 300) [[7]]))) < 2 ^ 64"
    by (simp add: edge_fields_def chain_edge_def wire_tag_def encode_varint.simps ascii_def)
  from edge_vid_fast_path [OF refl this, of "cx_codec chain_ctx"] show ?thesis by (simp add: chain_edge_def)
qed

end
