(* ===== verification/Spec2Isabelle.thy ===== *)
theory Spec2Isabelle
  imports KvStore RaftSafety RaftNetwork Snapshot IndexKey SchemaKey HashRing Auth MetaCatalog MetaCluster FindPath AllPaths EdgeWire
begin

text \<open>
  A verification of ByoriDB, a graph database in Rust. Paths below are relative to the directory of the sources.

  \<^bold>\<open>The program.\<close> A graph service parses and executes statements on behalf of sessions (\<^verbatim>\<open>byoridb-graph\<close>,
  \<^verbatim>\<open>byoridb-parser\<close>, \<^verbatim>\<open>byoridb-executor\<close>). Vertices, edges, schemas and indexes are rows of a key-value store
  (\<^verbatim>\<open>byoridb-kvstore\<close>) under textual or binary keys; current rows live beside a bitemporal history of versions. A storage node
  replicates the rows of a partition with Raft (\<^verbatim>\<open>byoridb-storage/src/raft\<close>). The meta service (\<^verbatim>\<open>byoridb-meta\<close>) keeps the catalog of spaces, tags, edges and
  indexes, places partitions on hosts with a consistent hash ring (\<^verbatim>\<open>byoridb-common\<close>), and moves them when hosts come and go.

  \<^bold>\<open>Conventions.\<close> Machine integers are words: arithmetic wraps as in a release build, and an \<open>i64\<close> is a 64-bit word read with \<^const>\<open>sint\<close>. \<open>usize\<close> is a
  natural number, except in \<open>EdgeWire\<close>, where its wrap-around matters. Text and keys are lists of bytes. A \<open>Result\<close> is a sum whose left side is the error; a panic, or
  a loop that does not end, is \<^const>\<open>None\<close>. Hash maps are association lists, a \<open>BTreeMap\<close> is a sorted one. Locks and \<open>async\<close> disappear: each method is one step
  on explicit state, and properties quantify over sequences of steps. Third-party code (redb, bincode, prost, serde_json, Argon2, random numbers, the
  clock) is an argument of the definitions that use it; what is needed of it is a hypothesis, and a witness instantiates it.

  \<^bold>\<open>The theories.\<close>

  \<^item> \<open>Prelude\<close>, \<open>Btree\<close>, \<open>Strings\<close>: words, slices and prefixes, ordered maps, decimal and UTF-8 text, as the standard library has them.
  \<^item> \<open>History\<close>, \<open>KvStore\<close> (\<^verbatim>\<open>byoridb-kvstore/src/store.rs\<close>): the keys of versions, the default methods of the trait \<open>KVStore\<close>, and \<open>MemoryKVStore\<close>, one definition
  for each method. Shown: every operation keeps the order of the rows; a read at a time gives the version that a search of the whole history
  would give; counters refine integers; a scan is exactly the rows under its prefix. The locales \<open>kv_contract\<close> and \<open>kv_reliable\<close> are what clients may rely on; the
  in-memory store interprets them.
  \<^item> \<open>RaftTypes\<close>, \<open>RaftLog\<close>, \<open>RaftNode\<close>, \<open>RaftGroup\<close>, \<open>RaftNetwork\<close>, \<open>RaftStorage\<close>, \<open>Snapshot\<close> (the files of
  \<^verbatim>\<open>raft/\<close> with these names; \<open>RaftGroup\<close> is \<^verbatim>\<open>mod.rs\<close> and the loop of \<^verbatim>\<open>driver.rs\<close>): the log as a vector with a first index, the node with one definition for each
  handler, the groups of a storage node, the messages on the wire, the persistent log, and the transfer of snapshots in chunks. \<open>RaftSteps\<close> makes the node
  a machine that takes events and proves its invariant along every run, through the locale \<open>guarded_runs\<close>; \<open>RaftSafety\<close> holds the properties: log matching,
  one vote in a term, commit only by majority, election winners share a voter, the log refines a map, no handler panics; and the
  behaviours that fall short of Raft, each as a theorem about the code as it is.
  \<^item> \<open>IndexKey\<close> (\<^verbatim>\<open>byoridb-storage/src/key.rs\<close>), \<open>SchemaKey\<close> (\<^verbatim>\<open>byoridb-executor/src/key.rs\<close>, \<^verbatim>\<open>byoridb-bulkloader/src/key.rs\<close>): encodings of keys. Shown: distinct objects have distinct
  keys, values of an index can be read back, and a prefix selects exactly the keys it is meant for.
  \<^item> \<open>Partition\<close>, \<open>HashRing\<close> (\<^verbatim>\<open>byoridb-common/src/hash\<close>, \<^verbatim>\<open>partition.rs\<close>): routing of vertices to partitions and of partitions to hosts. Shown: ranges are
  intervals, replicas are distinct, and adding a host moves partitions only to it.
  \<^item> \<open>LoginThrottle\<close>, \<open>Auth\<close> (\<^verbatim>\<open>byoridb-graph/src/auth.rs\<close>): limits on logins, and users, roles and sessions. Shown for every sequence of calls: sessions belong to existing
  enabled users, permissions are those granted, guesses at a password are bounded, a lockout holds for its duration.
  \<^item> \<open>MetaSchema\<close>, \<open>MetaService\<close>, \<open>MetaCatalog\<close>, \<open>MetaCluster\<close> (\<^verbatim>\<open>byoridb-meta/src\<close>): schemas, hosts, spaces and partitions, tags, edges and indexes, and the moving of
  partitions. The locale \<open>named_table\<close> is the table of objects by name, by identifier and in the list; spaces, tags, edges and indexes interpret it. Shown: a lookup
  finds what is listed, versions of a tag are complete, a new space routes every vertex, a rebalance reaches the allocation of the new ring.
  \<^item> \<open>FindPath\<close>, \<open>AllPaths\<close> (\<^verbatim>\<open>byoridb-executor/src/algo_paths.rs\<close>, \<open>decode_query_edge\<close> of \<^verbatim>\<open>algo.rs\<close>, the decoding of edges of \<^verbatim>\<open>byoridb-codec/src/vertex.rs\<close>): one and all
  shortest paths. Shown: both end, are exact for the graph that the rows give, and fail only when a limit is really exceeded; the rows that a store of edges gives are
  those of the graph. \<open>EdgeWire\<close>: the decoders that read one end of an edge from the wire format.

  The property of this theory joins the store, the keys, the codec and the searches.

  \<^bold>\<open>Bounds and termination.\<close> No definition has fuel. Loops that end by their structure or by a measure are total functions: the breadth-first search
  by the unvisited vertices, of which there are at most \<open>2 ^ 64\<close>, and the queue; the search by levels by the remaining steps. Loops that need an argument about
  the data are \<open>partial_function (option)\<close>, and the properties show that they return: the parents followed by \<open>reconstruct_path\<close>, the enumeration of paths, and the
  fields of a message. The loop that draws a session identifier runs over the list of random numbers, and ends once enough distinct ones are drawn. Hypotheses on sizes (\<open>2 ^ 64\<close> bytes, indices below \<open>2 ^ 64\<close>) are those of the machine.

  \<^bold>\<open>Not modelled.\<close>

  \<^item> The redb store, backups, servers, clients, RPC stubs, the launcher, logs and metrics: input and output around the components above. Their contracts appear where
  they are used: a redb store as \<open>kv_contract\<close>, calls to storage nodes as parameters of the rebalancer, a transport as the messages of \<open>RaftNetwork\<close>.
  \<^item> The parser, the plans, the statement executor, pattern matching and expressions: their meaning is that of the query language, whose values carry \<open>f64\<close>, dates and regular
  expressions from other crates. Of the executor the keys and the path queries are modelled. Insertion and removal of edges appear only by the two rows that they write
  (\<open>put_edge\<close>); their index entries, degree counters, ontology rules and merges of equivalent vertices do not.
  \<^item> Floating-point code: Dijkstra's algorithm on weights, statistics of the meta service, detection of hotspots.
  \<^item> The row format of \<^verbatim>\<open>byoridb-codec/src/row.rs\<close> with its migrations, which no other crate calls.
  \<^item> Timers and background tasks: a tick or a cycle is an event, and when it happens is left open. Memory and disk failures other than an error of the store.
\<close>

section \<open>Paths over a store of edges\<close>

text \<open>
  C19. Edges written to the in-memory store are the graph that the path queries answer for. After any sequence of edges has been written to an
  empty \<open>MemoryKVStore\<close>, each under its forward and its reverse key, both queries return for every start, target, set of types, direction and
  limit; their answers are right for the graph whose edges are the last ones written under each key. The decoder is only assumed to undo the encoder on these edges.
\<close>
theorem stored_edges_paths:
  assumes sp: "cx_space ctx = Some sp" "58 \<notin> set sp" "utf8_valid sp"
    and es: "\<forall>e \<in> set es. type_name_ok e \<and> ec_proto_decode (cx_codec ctx) (enc e) = Some e"
    and scan: "cx_scan_stream ctx = (\<lambda>p. Inr (map Inr (memory_scan_stream (foldl (put_edge enc sp) memory_new es) p)))"
  shows "\<exists>nb. (\<forall>v. set (nb v) = graph_neighbours (current_edges es) edge_types bidirect v) \<and>
    (\<exists>r. shortest_path ctx start target edge_types max_steps bidirect = Some r \<and>
       path_answer (cx_max_traversal_nodes ctx) nb start target max_steps r) \<and>
    (\<exists>r. all_shortest_paths ctx start target edge_types max_steps bidirect max_paths = Some r \<and>
       paths_answer (cx_max_traversal_nodes ctx) max_paths nb start target max_steps r)"
proof -
  have "graph_stored enc (query_space ctx) (memory_get (foldl (put_edge enc sp) memory_new es)) (current_edges es)"
    using put_edges_stored [OF sp(2,3), of es enc] es sp(1) by (simp add: query_space_def)
  moreover have "ec_proto_decode (cx_codec ctx) (enc e) = Some e" if "e \<in> current_edges es" for e
    using es current_edges_subset [of es] that by blast
  moreover have "\<exists>rs. cx_scan_stream ctx p = Inr (map Inr rs) \<and> rows_of (memory_get (foldl (put_edge enc sp) memory_new es)) p rs" for p
    using put_edges_scan [of enc sp es p] by (auto simp: scan)
  ultimately obtain nb where nb: "neighbours_are ctx edge_types bidirect nb"
    and "\<forall>v. set (nb v) = graph_neighbours (current_edges es) edge_types bidirect v"
    using neighbours_exact by blast
  with shortest_path_answer [OF nb] all_shortest_paths_answer [OF nb] show ?thesis by blast
qed

theorem stored_edges_paths_witness:
  "\<exists>nb. (\<forall>v. set (nb v) = graph_neighbours (current_edges [chain_edge 1 2, chain_edge 2 3]) [] True v) \<and>
    (\<exists>r. shortest_path (chain_ctx\<lparr>cx_space := Some (ascii ''default'')\<rparr>) 3 1 [] 4 True = Some r \<and> path_answer 0 nb 3 1 4 r) \<and>
    (\<exists>r. all_shortest_paths (chain_ctx\<lparr>cx_space := Some (ascii ''default'')\<rparr>) 3 1 [] 4 True 5 = Some r \<and> paths_answer 0 5 nb 3 1 4 r)"
proof -
  let ?ctx = "chain_ctx\<lparr>cx_space := Some (ascii ''default'')\<rparr>" and ?es = "[chain_edge 1 2, chain_edge 2 3]"
  have "\<forall>e \<in> set ?es. type_name_ok e \<and> ec_proto_decode (cx_codec ?ctx) (chain_enc e) = Some e"
    using chain_name_ok chain_codec by simp
  moreover have "cx_scan_stream ?ctx = (\<lambda>p. Inr (map Inr (memory_scan_stream (foldl (put_edge chain_enc (ascii ''default'')) memory_new ?es) p)))"
    by (simp add: chain_ctx_def chain_store_def)
  ultimately have "\<exists>nb. (\<forall>v. set (nb v) = graph_neighbours (current_edges ?es) [] True v) \<and>
      (\<exists>r. shortest_path ?ctx 3 1 [] 4 True = Some r \<and> path_answer (cx_max_traversal_nodes ?ctx) nb 3 1 4 r) \<and>
      (\<exists>r. all_shortest_paths ?ctx 3 1 [] 4 True 5 = Some r \<and> paths_answer (cx_max_traversal_nodes ?ctx) 5 nb 3 1 4 r)"
    by (intro stored_edges_paths [where sp = "ascii ''default''" and enc = chain_enc]) (simp_all add: chain_name_ok)
  then show ?thesis by (simp add: chain_ctx_def)
qed

end
